(* ===== verification/Prelude.thy ===== *)
theory Prelude
  imports Main "HOL-Library.Word" "HOL-Library.Monad_Syntax"
begin

text \<open>
  Shared vocabulary of the development: the machine integers of the Rust sources, the panics
  of indexing and slicing, and little-endian bytes, with the facts the components share
  about them.

  Conventions. A Rust function that can panic (an index or a slice out of range) returns
  an \<open>option\<close> whose \<open>None\<close> is the panic; a Rust \<open>Result\<close> is a sum, \<open>Inl\<close> the error.
  Integer arithmetic wraps, as in a release build, except where the source writes a checked
  operation. A \<open>&mut self\<close> method takes the state and returns the new one.
\<close>

unbundle bit_operations_syntax

section \<open>Machine integers\<close>

type_synonym u8 = "8 word"
type_synonym u32 = "32 word"
type_synonym u64 = "64 word"
type_synonym usize = "64 word"

text \<open>A signed 64-bit integer: two's complement bits, ordered by the value they denote.\<close>

datatype i64 = I64 (i64_bits: "64 word")

definition i64_val :: "i64 \<Rightarrow> int" where
  "i64_val x = sint (i64_bits x)"

instantiation i64 :: linorder
begin

definition less_eq_i64 :: "i64 \<Rightarrow> i64 \<Rightarrow> bool" where
  "less_eq_i64 x y \<longleftrightarrow> i64_val x \<le> i64_val y"

definition less_i64 :: "i64 \<Rightarrow> i64 \<Rightarrow> bool" where
  "less_i64 x y \<longleftrightarrow> i64_val x < i64_val y"

instance
proof
  fix x y :: i64
  show "x \<le> y \<Longrightarrow> y \<le> x \<Longrightarrow> x = y"
    by (cases x; cases y) (auto simp: less_eq_i64_def i64_val_def dest: signed_word_eqI)
qed (auto simp: less_eq_i64_def less_i64_def)

end

section \<open>Indexing that panics\<close>

text \<open>
  \<open>xs[i]\<close> of a \<open>Vec\<close> or slice, and the assignment to it: out of range they panic.
\<close>

definition vec_get :: "'a list \<Rightarrow> nat \<Rightarrow> 'a option" where
  "vec_get xs i = (if i < length xs then Some (xs ! i) else None)"

definition vec_set :: "'a list \<Rightarrow> nat \<Rightarrow> 'a \<Rightarrow> 'a list option" where
  "vec_set xs i v = (if i < length xs then Some (xs[i := v]) else None)"

text \<open>\<open>xs[i].f = e\<close>: an update of one element in place.\<close>

definition vec_update :: "'a list \<Rightarrow> nat \<Rightarrow> ('a \<Rightarrow> 'a) \<Rightarrow> 'a list option" where
  "vec_update xs i f = (if i < length xs then Some (xs[i := f (xs ! i)]) else None)"

text \<open>\<open>xs[a..b]\<close> as a value, and \<open>xs[a..a + n].copy_from_slice(ys)\<close> with \<open>n\<close> the length of \<open>ys\<close>.\<close>

definition slice :: "'a list \<Rightarrow> nat \<Rightarrow> nat \<Rightarrow> 'a list option" where
  "slice xs a b = (if a \<le> b \<and> b \<le> length xs then Some (take (b - a) (drop a xs)) else None)"

definition splice :: "'a list \<Rightarrow> nat \<Rightarrow> 'a list \<Rightarrow> 'a list" where
  "splice xs a ys = take a xs @ ys @ drop (a + length ys) xs"

definition copy_into :: "'a list \<Rightarrow> nat \<Rightarrow> 'a list \<Rightarrow> 'a list option" where
  "copy_into xs a ys = (if a + length ys \<le> length xs then Some (splice xs a ys) else None)"

section \<open>Little-endian bytes\<close>

text \<open>\<open>to_le n w\<close> is the first \<open>n\<close> bytes of \<open>w.to_le_bytes()\<close>; \<open>from_le\<close> is \<open>from_le_bytes\<close>.\<close>

fun to_le :: "nat \<Rightarrow> 'a::len word \<Rightarrow> u8 list" where
  "to_le 0 w = []"
| "to_le (Suc n) w = ucast w # to_le n (drop_bit 8 w)"

fun from_le :: "u8 list \<Rightarrow> 'a::len word" where
  "from_le [] = 0"
| "from_le (b # bs) = ucast b OR push_bit 8 (from_le bs)"

section \<open>Facts about prices\<close>

lemma i64_val_inject: "i64_val x = i64_val y \<longleftrightarrow> x = y"
  by (metis antisym less_eq_i64_def order_refl)

section \<open>Facts about indexing\<close>

named_theorems panic_free \<open>an operation that could panic returns, given the bounds it needs\<close>

lemma vec_get_in [simp, panic_free]: "i < length xs \<Longrightarrow> vec_get xs i = Some (xs ! i)"
  by (simp add: vec_get_def)

lemma vec_set_in [simp, panic_free]: "i < length xs \<Longrightarrow> vec_set xs i v = Some (xs[i := v])"
  by (simp add: vec_set_def)

lemma vec_update_in [simp, panic_free]:
  "i < length xs \<Longrightarrow> vec_update xs i f = Some (xs[i := f (xs ! i)])"
  by (simp add: vec_update_def)

lemma slice_in [panic_free]:
  "a \<le> b \<Longrightarrow> b \<le> length xs \<Longrightarrow> slice xs a b = Some (take (b - a) (drop a xs))"
  by (simp add: slice_def)

lemma length_splice [simp]:
  "a + length ys \<le> length xs \<Longrightarrow> length (splice xs a ys) = length xs"
  by (simp add: splice_def)

lemma copy_into_in [panic_free]:
  "a + length ys \<le> length xs \<Longrightarrow> copy_into xs a ys = Some (splice xs a ys)"
  by (simp add: copy_into_def)

section \<open>Facts about words\<close>

lemma unat_lt2p: "unat (w :: 'a::len word) < 2 ^ LENGTH('a)"
  by (rule unsigned_less)

lemma unat_of_nat_id: "n < 2 ^ LENGTH('a::len) \<Longrightarrow> unat (of_nat n :: 'a word) = n"
  by (simp add: unat_of_nat)

lemma of_nat_eq_0_word: "n < 2 ^ LENGTH('a::len) \<Longrightarrow> (of_nat n :: 'a word) = 0 \<longleftrightarrow> n = 0"
  using unat_of_nat_id [of n, where 'a = 'a] by auto

section \<open>Facts about bytes\<close>

lemma length_to_le [simp]: "length (to_le n w) = n"
  by (induction n w rule: to_le.induct) auto

lemma bit_from_le:
  "bit (from_le bs :: 'a::len word) n \<longleftrightarrow>
     n < LENGTH('a) \<and> n div 8 < length bs \<and> bit (bs ! (n div 8)) (n mod 8)"
proof (induction bs arbitrary: n)
  case Nil
  then show ?case by simp
next
  case (Cons b bs)
  show ?case
  proof (cases "n < 8")
    case True
    then show ?thesis by (auto simp: bit_or_iff bit_push_bit_iff bit_unsigned_iff)
  next
    case False
    then have "n div 8 = Suc ((n - 8) div 8)" "n mod 8 = (n - 8) mod 8"
      by (simp_all add: div_if mod_if)
    with False Cons.IH [of "n - 8"] show ?thesis
      by (auto simp: bit_or_iff bit_push_bit_iff bit_unsigned_iff dest: bit_imp_le_length)
  qed
qed

lemma nth_to_le: "i < n \<Longrightarrow> to_le n w ! i = ucast (drop_bit (8 * i) w)"
proof (induction n w arbitrary: i rule: to_le.induct)
  case (1 w)
  then show ?case by simp
next
  case (2 n w)
  then show ?case by (cases i) (simp_all add: algebra_simps)
qed

text \<open>Decoding what was encoded, and encoding what was decoded.\<close>

lemma from_le_to_le:
  fixes w :: "'a::len word"
  assumes "LENGTH('a) \<le> 8 * n"
  shows "from_le (to_le n w) = w"
proof (rule bit_eqI)
  fix m
  assume "possible_bit TYPE('a word) m"
  then have m: "m < LENGTH('a)" by (simp add: possible_bit_word)
  with assms have "m div 8 < n" by linarith
  with m show "bit (from_le (to_le n w) :: 'a word) m \<longleftrightarrow> bit w m"
    by (simp add: bit_from_le nth_to_le bit_unsigned_iff bit_drop_bit_eq)
qed

lemma to_le_from_le:
  assumes "length bs = n" and "8 * n \<le> LENGTH('a::len)"
  shows "to_le n (from_le bs :: 'a word) = bs"
proof (rule nth_equalityI)
  show "length (to_le n (from_le bs :: 'a word)) = length bs"
    using assms by simp
next
  fix i
  assume "i < length (to_le n (from_le bs :: 'a word))"
  then have i: "i < n" by simp
  show "to_le n (from_le bs :: 'a word) ! i = bs ! i"
  proof (rule bit_eqI)
    fix m
    assume "possible_bit TYPE(u8) m"
    then have m: "m < 8" by (simp add: possible_bit_word)
    with i assms have "8 * i + m < LENGTH('a)" by linarith
    with i m assms show "bit (to_le n (from_le bs :: 'a word) ! i) m \<longleftrightarrow> bit (bs ! i) m"
      by (simp add: nth_to_le bit_unsigned_iff bit_drop_bit_eq bit_from_le)
  qed
qed

end
