(* ===== verification/Orders.thy ===== *)
theory Orders
  imports Prelude
begin

text \<open>
  \<open>src/src/order.rs\<close>: the two sides of the book, a limit order and its constructor, which
  refuses a zero quantity.
\<close>

datatype side = Bid | Ask

record order =
  o_id :: u64
  o_trader_id :: u64
  o_side :: side
  o_price :: i64
  o_quantity :: u64
  o_timestamp :: u64

definition order_new :: "u64 \<Rightarrow> u64 \<Rightarrow> side \<Rightarrow> i64 \<Rightarrow> u64 \<Rightarrow> u64 \<Rightarrow> order option" where
  "order_new order_id trader_id side price quantity timestamp =
     (if quantity = 0 then None
      else Some \<lparr>o_id = order_id, o_trader_id = trader_id, o_side = side, o_price = price,
                 o_quantity = quantity, o_timestamp = timestamp\<rparr>)"

text \<open>The side an incoming order trades against.\<close>

fun opposite :: "side \<Rightarrow> side" where
  "opposite Bid = Ask"
| "opposite Ask = Bid"

lemma opposite_opposite [simp]: "opposite (opposite s) = s"
  by (cases s) auto

lemma opposite_neq [simp]: "opposite s \<noteq> s" "s \<noteq> opposite s"
  by (cases s; simp)+

lemma order_new_eq_None: "order_new i t s p q ts = None \<longleftrightarrow> q = 0"
  by (simp add: order_new_def)

end
