(* ===== verification/Arena.thy ===== *)
theory Arena
  imports Orders
begin

text \<open>
  \<open>src/src/arena.rs\<close>: the object pool of the order book. A fixed vector of nodes holds, in one
  array, a singly linked free list (through \<open>next\<close>, from \<open>free_head\<close>) and the doubly linked
  queues of the price levels (through \<open>prev\<close> and \<open>next\<close>); links are \<open>u32\<close> slots with
  \<open>u32::MAX\<close> as the null link. The padding bytes of a node carry no information and are left
  out. Every access indexes the vector and would panic out of range, so every operation
  returns an \<open>option\<close>.

  The second half gives the queues their meaning: \<open>level_ok\<close> says that a price level stands
  for a list of slots, and the operations are shown to act on that list (append, drop the
  head, delete), to leave every other node alone, and never to panic.
\<close>

section \<open>Data\<close>

datatype arena_error = Full

definition ARENA_NULL :: u32 where
  "ARENA_NULL = 4294967295"

definition DEFAULT_CAPACITY :: u32 where
  "DEFAULT_CAPACITY = 1048576"

record order_node =
  n_id :: u64
  n_trader_id :: u64
  n_price :: i64
  n_quantity :: u64
  n_timestamp :: u64
  n_prev :: u32
  n_next :: u32
  n_side :: side

definition node_zeroed :: order_node where
  "node_zeroed =
     \<lparr>n_id = 0, n_trader_id = 0, n_price = I64 0, n_quantity = 0, n_timestamp = 0,
      n_prev = ARENA_NULL, n_next = ARENA_NULL, n_side = Bid\<rparr>"

definition from_order :: "order \<Rightarrow> order_node" where
  "from_order ord =
     \<lparr>n_id = o_id ord, n_trader_id = o_trader_id ord, n_price = o_price ord,
      n_quantity = o_quantity ord, n_timestamp = o_timestamp ord,
      n_prev = ARENA_NULL, n_next = ARENA_NULL, n_side = o_side ord\<rparr>"

definition to_order :: "order_node \<Rightarrow> order" where
  "to_order n =
     \<lparr>o_id = n_id n, o_trader_id = n_trader_id n, o_side = n_side n, o_price = n_price n,
      o_quantity = n_quantity n, o_timestamp = n_timestamp n\<rparr>"

record price_level =
  l_head :: u32
  l_tail :: u32
  l_count :: u32
  l_qty :: u64

definition price_level_new :: price_level where
  "price_level_new = \<lparr>l_head = ARENA_NULL, l_tail = ARENA_NULL, l_count = 0, l_qty = 0\<rparr>"

record arena =
  a_storage :: "order_node list"
  a_free_head :: u32
  a_count :: u32
  a_capacity :: u32

section \<open>Operations\<close>

definition arena_new :: "u32 \<Rightarrow> arena" where
  "arena_new capacity =
     \<lparr>a_storage =
        map (\<lambda>k. let i = of_nat k
                  in node_zeroed\<lparr>n_next := if i + 1 < capacity then i + 1 else ARENA_NULL\<rparr>)
          [0..<unat capacity],
      a_free_head = (if capacity > 0 then 0 else ARENA_NULL),
      a_count = 0,
      a_capacity = capacity\<rparr>"

definition alloc :: "arena \<Rightarrow> order \<Rightarrow> ((arena_error + u32) \<times> arena) option" where
  "alloc a ord =
     (if a_free_head a = ARENA_NULL then Some (Inl Full, a)
      else do {
        let index = a_free_head a;
        n \<leftarrow> vec_get (a_storage a) (unat index);
        st \<leftarrow> vec_set (a_storage a) (unat index) (from_order ord);
        Some (Inr index,
              a\<lparr>a_free_head := n_next n, a_storage := st, a_count := a_count a + 1\<rparr>)
      })"

definition dealloc :: "arena \<Rightarrow> u32 \<Rightarrow> arena option" where
  "dealloc a index = do {
     st \<leftarrow> vec_update (a_storage a) (unat index) (n_next_update (\<lambda>_. a_free_head a));
     Some (a\<lparr>a_storage := st, a_free_head := index, a_count := a_count a - 1\<rparr>)
   }"

definition get :: "arena \<Rightarrow> u32 \<Rightarrow> order_node option" where
  "get a index = vec_get (a_storage a) (unat index)"

text \<open>\<open>get_mut\<close> followed by an assignment through the reference.\<close>

definition get_mut :: "arena \<Rightarrow> u32 \<Rightarrow> (order_node \<Rightarrow> order_node) \<Rightarrow> arena option" where
  "get_mut a index f = do {
     st \<leftarrow> vec_update (a_storage a) (unat index) f;
     Some (a\<lparr>a_storage := st\<rparr>)
   }"

definition push_back :: "arena \<Rightarrow> price_level \<Rightarrow> u32 \<Rightarrow> (arena \<times> price_level) option" where
  "push_back a level index = do {
     n \<leftarrow> vec_get (a_storage a) (unat index);
     let quantity = n_quantity n;
     (st, level) \<leftarrow>
       (if l_tail level \<noteq> ARENA_NULL then do {
          let old_tail = l_tail level;
          st \<leftarrow> vec_update (a_storage a) (unat old_tail) (n_next_update (\<lambda>_. index));
          st \<leftarrow> vec_update st (unat index) (n_prev_update (\<lambda>_. old_tail));
          Some (st, level)
        } else do {
          st \<leftarrow> vec_update (a_storage a) (unat index) (n_prev_update (\<lambda>_. ARENA_NULL));
          Some (st, level\<lparr>l_head := index\<rparr>)
        });
     st \<leftarrow> vec_update st (unat index) (n_next_update (\<lambda>_. ARENA_NULL));
     Some (a\<lparr>a_storage := st\<rparr>,
           level\<lparr>l_tail := index, l_count := l_count level + 1, l_qty := l_qty level + quantity\<rparr>)
   }"

definition pop_front :: "arena \<Rightarrow> price_level \<Rightarrow> (u32 option \<times> arena \<times> price_level) option" where
  "pop_front a level =
     (if l_head level = ARENA_NULL then Some (None, a, level)
      else do {
        let index = l_head level;
        n \<leftarrow> vec_get (a_storage a) (unat index);
        let nxt = n_next n;
        let quantity = n_quantity n;
        (st, level) \<leftarrow>
          (if nxt \<noteq> ARENA_NULL then do {
             st \<leftarrow> vec_update (a_storage a) (unat nxt) (n_prev_update (\<lambda>_. ARENA_NULL));
             Some (st, level\<lparr>l_head := nxt\<rparr>)
           } else
             Some (a_storage a, level\<lparr>l_head := ARENA_NULL, l_tail := ARENA_NULL\<rparr>));
        Some (Some index, a\<lparr>a_storage := st\<rparr>,
              level\<lparr>l_count := l_count level - 1, l_qty := l_qty level - quantity\<rparr>)
      })"

definition remove :: "arena \<Rightarrow> price_level \<Rightarrow> u32 \<Rightarrow> (arena \<times> price_level) option" where
  "remove a level index = do {
     n \<leftarrow> vec_get (a_storage a) (unat index);
     let prev_idx = n_prev n;
     let next_idx = n_next n;
     let quantity = n_quantity n;
     (st, level) \<leftarrow>
       (if prev_idx \<noteq> ARENA_NULL then do {
          st \<leftarrow> vec_update (a_storage a) (unat prev_idx) (n_next_update (\<lambda>_. next_idx));
          Some (st, level)
        } else Some (a_storage a, level\<lparr>l_head := next_idx\<rparr>));
     (st, level) \<leftarrow>
       (if next_idx \<noteq> ARENA_NULL then do {
          st \<leftarrow> vec_update st (unat next_idx) (n_prev_update (\<lambda>_. prev_idx));
          Some (st, level)
        } else Some (st, level\<lparr>l_tail := prev_idx\<rparr>));
     Some (a\<lparr>a_storage := st\<rparr>,
           level\<lparr>l_count := l_count level - 1, l_qty := l_qty level - quantity\<rparr>)
   }"

section \<open>What the links mean\<close>

text \<open>The first slot of a list, or the link that follows it; the last one, or what precedes it.\<close>

definition hdn :: "u32 list \<Rightarrow> u32 \<Rightarrow> u32" where
  "hdn xs q = (case xs of [] \<Rightarrow> q | x # _ \<Rightarrow> x)"

definition lastp :: "u32 \<Rightarrow> u32 list \<Rightarrow> u32" where
  "lastp p xs = (if xs = [] then p else last xs)"

abbreviation node_at :: "order_node list \<Rightarrow> u32 \<Rightarrow> order_node" where
  "node_at st i \<equiv> st ! unat i"

abbreviation order_at :: "order_node list \<Rightarrow> u32 \<Rightarrow> order" where
  "order_at st i \<equiv> to_order (st ! unat i)"

text \<open>A doubly linked segment over the slots \<open>xs\<close>, entered from \<open>p\<close> and left to \<open>q\<close>.\<close>

fun dseg :: "order_node list \<Rightarrow> u32 \<Rightarrow> u32 list \<Rightarrow> u32 \<Rightarrow> bool" where
  "dseg st p [] q \<longleftrightarrow> True"
| "dseg st p (x # xs) q \<longleftrightarrow>
     unat x < length st \<and> n_prev (node_at st x) = p \<and> n_next (node_at st x) = hdn xs q \<and>
     dseg st x xs q"

text \<open>A singly linked segment (the free list).\<close>

fun fseg :: "order_node list \<Rightarrow> u32 list \<Rightarrow> bool" where
  "fseg st [] \<longleftrightarrow> True"
| "fseg st (x # xs) \<longleftrightarrow>
     unat x < length st \<and> n_next (node_at st x) = hdn xs ARENA_NULL \<and> fseg st xs"

text \<open>The level stands for the queue \<open>xs\<close>, oldest order first.\<close>

definition level_ok :: "order_node list \<Rightarrow> price_level \<Rightarrow> u32 list \<Rightarrow> bool" where
  "level_ok st level xs \<longleftrightarrow>
     distinct xs \<and> dseg st ARENA_NULL xs ARENA_NULL \<and>
     l_head level = hdn xs ARENA_NULL \<and> l_tail level = lastp ARENA_NULL xs \<and>
     l_count level = of_nat (length xs) \<and>
     l_qty level = sum_list (map (\<lambda>i. n_quantity (node_at st i)) xs)"

text \<open>A step that touches only the slots in \<open>X\<close>, and one that changes only links there.\<close>

definition touches :: "u32 set \<Rightarrow> order_node list \<Rightarrow> order_node list \<Rightarrow> bool" where
  "touches X st st' \<longleftrightarrow>
     length st' = length st \<and> (\<forall>i. i \<notin> X \<longrightarrow> node_at st' i = node_at st i)"

definition relinks :: "u32 set \<Rightarrow> order_node list \<Rightarrow> order_node list \<Rightarrow> bool" where
  "relinks X st st' \<longleftrightarrow> touches X st st' \<and> (\<forall>i. order_at st' i = order_at st i)"

text \<open>The free list of the arena is \<open>fs\<close>.\<close>

definition free_ok :: "arena \<Rightarrow> u32 list \<Rightarrow> bool" where
  "free_ok a fs \<longleftrightarrow>
     distinct fs \<and> fseg (a_storage a) fs \<and> a_free_head a = hdn fs ARENA_NULL \<and>
     length (a_storage a) = unat (a_capacity a)"

section \<open>Segments\<close>

lemma hdn_simps [simp]: "hdn [] q = q" "hdn (x # xs) q = x"
  by (simp_all add: hdn_def)

lemma lastp_simps [simp]: "lastp p [] = p" "lastp p (xs @ [x]) = x" "lastp p (x # xs) = lastp x xs"
  by (simp_all add: lastp_def)

lemma hdn_append [simp]: "hdn (xs @ ys) q = hdn xs (hdn ys q)"
  by (cases xs) auto

lemma lastp_append [simp]: "lastp p (xs @ ys) = lastp (lastp p xs) ys"
  by (simp add: lastp_def)

lemma dseg_append [simp]:
  "dseg st p (xs @ ys) q \<longleftrightarrow> dseg st p xs (hdn ys q) \<and> dseg st (lastp p xs) ys q"
  by (induction xs arbitrary: p) auto

lemma dseg_in_range: "dseg st p xs q \<Longrightarrow> x \<in> set xs \<Longrightarrow> unat x < length st"
  by (induction xs arbitrary: p) auto

lemma fseg_in_range: "fseg st xs \<Longrightarrow> x \<in> set xs \<Longrightarrow> unat x < length st"
  by (induction xs) auto

lemma dseg_cong:
  "length st' = length st \<Longrightarrow> (\<And>x. x \<in> set xs \<Longrightarrow> node_at st' x = node_at st x) \<Longrightarrow>
   dseg st' p xs q \<longleftrightarrow> dseg st p xs q"
  by (induction xs arbitrary: p) auto

lemma fseg_cong:
  "length st' = length st \<Longrightarrow> (\<And>x. x \<in> set xs \<Longrightarrow> node_at st' x = node_at st x) \<Longrightarrow>
   fseg st' xs \<longleftrightarrow> fseg st xs"
  by (induction xs) auto

lemma node_at_update:
  "unat i < length st \<Longrightarrow> node_at (st[unat i := n]) j = (if j = i then n else node_at st j)"
  by (auto simp: nth_list_update word_unat_eq_iff)

lemma in_range_not_null: "unat i < length st \<Longrightarrow> length st < 2 ^ 32 \<Longrightarrow> i \<noteq> ARENA_NULL"
  by (auto simp: ARENA_NULL_def)

lemma to_order_links [simp]:
  "to_order (n\<lparr>n_next := x\<rparr>) = to_order n" "to_order (n\<lparr>n_prev := x\<rparr>) = to_order n"
  by (simp_all add: to_order_def)

lemma to_order_from_order: "to_order (from_order ord) = ord"
  by (simp add: to_order_def from_order_def)

section \<open>Relinking\<close>

lemma order_at_eqD:
  assumes "to_order m = to_order n"
  shows "n_id m = n_id n" "n_trader_id m = n_trader_id n" "n_price m = n_price n"
    "n_quantity m = n_quantity n" "n_timestamp m = n_timestamp n" "n_side m = n_side n"
  using assms by (simp_all add: to_order_def)

lemma touches_length: "touches X st st' \<Longrightarrow> length st' = length st"
  by (simp add: touches_def)

lemma touches_node: "touches X st st' \<Longrightarrow> i \<notin> X \<Longrightarrow> node_at st' i = node_at st i"
  by (simp add: touches_def)

lemma touches_trans: "touches X st st' \<Longrightarrow> touches X st' st'' \<Longrightarrow> touches X st st''"
  by (simp add: touches_def)

lemma touches_mono: "touches X st st' \<Longrightarrow> X \<subseteq> Y \<Longrightarrow> touches Y st st'"
  by (auto simp: touches_def)

lemma touches_update: "unat i < length st \<Longrightarrow> i \<in> X \<Longrightarrow> touches X st (st[unat i := n])"
  by (auto simp: touches_def node_at_update)

lemma relinks_touches: "relinks X st st' \<Longrightarrow> touches X st st'"
  by (simp add: relinks_def)

lemma relinks_length: "relinks X st st' \<Longrightarrow> length st' = length st"
  by (auto simp: relinks_def touches_length)

lemma relinks_order: "relinks X st st' \<Longrightarrow> order_at st' i = order_at st i"
  by (simp add: relinks_def)

lemma relinks_fields:
  assumes "relinks X st st'"
  shows "n_id (node_at st' i) = n_id (node_at st i)"
    "n_price (node_at st' i) = n_price (node_at st i)"
    "n_quantity (node_at st' i) = n_quantity (node_at st i)"
    "n_side (node_at st' i) = n_side (node_at st i)"
  by (rule order_at_eqD [OF relinks_order [OF assms]])+

lemma relinks_refl [simp]: "relinks X st st"
  by (simp add: relinks_def touches_def)

lemma relinks_trans: "relinks X st st' \<Longrightarrow> relinks X st' st'' \<Longrightarrow> relinks X st st''"
  by (auto simp: relinks_def intro: touches_trans)

lemma relinks_mono: "relinks X st st' \<Longrightarrow> X \<subseteq> Y \<Longrightarrow> relinks Y st st'"
  by (auto simp: relinks_def intro: touches_mono)

lemma relinks_link:
  assumes "unat i < length st" and "i \<in> X" and "\<And>n. to_order (f n) = to_order n"
  shows "relinks X st (st[unat i := f (node_at st i)])"
  using assms by (auto simp: relinks_def touches_update node_at_update)

lemma level_ok_frame:
  assumes t: "touches X st st'" and X: "X \<inter> set xs = {}"
  shows "level_ok st' level xs \<longleftrightarrow> level_ok st level xs"
proof -
  have nd: "node_at st' x = node_at st x" if "x \<in> set xs" for x
    using touches_node [OF t] X that by blast
  then have "dseg st' ARENA_NULL xs ARENA_NULL \<longleftrightarrow> dseg st ARENA_NULL xs ARENA_NULL"
    using touches_length [OF t] by (intro dseg_cong)
  moreover have "(\<Sum>i\<leftarrow>xs. n_quantity (node_at st' i)) = (\<Sum>i\<leftarrow>xs. n_quantity (node_at st i))"
    by (simp add: nd cong: map_cong)
  ultimately show ?thesis by (simp add: level_ok_def)
qed

lemma fseg_frame: "touches X st st' \<Longrightarrow> X \<inter> set xs = {} \<Longrightarrow> fseg st' xs \<longleftrightarrow> fseg st xs"
  by (rule fseg_cong) (blast dest: touches_length touches_node)+

section \<open>The queue operations act on the list they stand for\<close>

lemma level_ok_new: "level_ok st price_level_new []"
  by (simp add: level_ok_def price_level_new_def)

lemma push_back_first:
  assumes lv: "level_ok (a_storage a) level []" and r: "unat i < length (a_storage a)"
  shows "\<exists>st' level'. push_back a level i = Some (a\<lparr>a_storage := st'\<rparr>, level') \<and> level_ok st' level' [i] \<and>
    relinks {i} (a_storage a) st'"
proof -
  let ?st = "a_storage a"
  let ?n = "(node_at ?st i)\<lparr>n_prev := ARENA_NULL, n_next := ARENA_NULL\<rparr>"
  have rl: "relinks {i} ?st (?st[unat i := ?n])"
    by (rule relinks_link [where f = "\<lambda>n. n\<lparr>n_prev := ARENA_NULL, n_next := ARENA_NULL\<rparr>"]) (use r in auto)
  let ?lv = "level\<lparr>l_head := i, l_tail := i, l_count := l_count level + 1,
    l_qty := l_qty level + n_quantity (node_at ?st i)\<rparr>"
  have "l_tail level = ARENA_NULL" using lv by (simp add: level_ok_def)
  then have "push_back a level i = Some (a\<lparr>a_storage := ?st[unat i := ?n]\<rparr>, ?lv)"
    using r by (simp add: push_back_def node_at_update)
  moreover have "level_ok (?st[unat i := ?n]) ?lv [i]"
    using lv r by (simp add: level_ok_def node_at_update)
  ultimately show ?thesis using rl by blast
qed

lemma push_back_next:
  assumes lv: "level_ok (a_storage a) level (ys @ [t])" and i: "i \<notin> set (ys @ [t])"
    and r: "unat i < length (a_storage a)" and len: "length (a_storage a) < 2 ^ 32"
  shows "\<exists>st' level'. push_back a level i = Some (a\<lparr>a_storage := st'\<rparr>, level') \<and> level_ok st' level' (ys @ [t, i]) \<and>
    relinks (insert i (set (ys @ [t]))) (a_storage a) st'"
proof -
  let ?st = "a_storage a" and ?X = "insert i (set (ys @ [t]))"
  let ?st1 = "?st[unat t := (node_at ?st t)\<lparr>n_next := i\<rparr>]"
  let ?st2 = "?st1[unat i := (node_at ?st i)\<lparr>n_prev := t, n_next := ARENA_NULL\<rparr>]"
  have tr: "unat t < length ?st" using lv by (auto simp: level_ok_def)
  have ne: "t \<noteq> i" "i \<notin> set ys" "t \<notin> set ys" "t \<noteq> ARENA_NULL"
    using i lv in_range_not_null [OF tr len] by (auto simp: level_ok_def)
  have "relinks ?X ?st ?st1"
    by (rule relinks_link [where f = "\<lambda>n. n\<lparr>n_next := i\<rparr>"]) (use tr in auto)
  moreover have "relinks ?X ?st1 (?st1[unat i := (node_at ?st1 i)\<lparr>n_prev := t, n_next := ARENA_NULL\<rparr>])"
    by (rule relinks_link [where f = "\<lambda>n. n\<lparr>n_prev := t, n_next := ARENA_NULL\<rparr>"]) (use r in auto)
  ultimately have rl: "relinks ?X ?st ?st2" using r tr ne relinks_trans [of ?X ?st ?st1 ?st2] by (simp add: node_at_update)
  have seg: "dseg ?st2 ARENA_NULL ys t \<longleftrightarrow> dseg ?st ARENA_NULL ys t"
    by (rule dseg_cong) (use r tr ne in \<open>auto simp: node_at_update\<close>)
  have qty: "(\<Sum>j\<leftarrow>ys. n_quantity (node_at ?st2 j)) = (\<Sum>j\<leftarrow>ys. n_quantity (node_at ?st j))"
    by (simp add: relinks_fields [OF rl])
  let ?lv = "level\<lparr>l_tail := i, l_count := l_count level + 1, l_qty := l_qty level + n_quantity (node_at ?st i)\<rparr>"
  have "push_back a level i = Some (a\<lparr>a_storage := ?st2\<rparr>, ?lv)"
    using r tr ne lv by (simp add: push_back_def node_at_update level_ok_def)
  moreover have "level_ok ?st2 ?lv (ys @ [t, i])"
    using lv r tr ne seg qty by (auto simp: level_ok_def node_at_update)
  ultimately show ?thesis using rl by blast
qed

lemma push_back_ok:
  assumes lv: "level_ok (a_storage a) level xs" and i: "i \<notin> set xs"
    and r: "unat i < length (a_storage a)" and len: "length (a_storage a) < 2 ^ 32"
  obtains st' level' where "push_back a level i = Some (a\<lparr>a_storage := st'\<rparr>, level')"
    and "level_ok st' level' (xs @ [i])"
    and "relinks (insert i (set xs)) (a_storage a) st'"
proof (cases xs rule: rev_cases)
  case Nil
  then show thesis using push_back_first [of a level i] lv r that by auto
next
  case (snoc ys t)
  then show thesis using push_back_next [of a level ys t i] assms that by auto
qed

lemma level_okD:
  assumes "level_ok st level xs"
  shows "distinct xs" "dseg st ARENA_NULL xs ARENA_NULL" "l_head level = hdn xs ARENA_NULL"
    "l_tail level = lastp ARENA_NULL xs" "l_count level = of_nat (length xs)"
    "l_qty level = (\<Sum>i\<leftarrow>xs. n_quantity (node_at st i))"
  using assms by (simp_all add: level_ok_def)

lemma level_ok_in_range: "level_ok st level xs \<Longrightarrow> x \<in> set xs \<Longrightarrow> unat x < length st"
  by (auto simp: level_ok_def dest: dseg_in_range)

lemma level_ok_length:
  assumes "level_ok st level xs"
  shows "length xs \<le> length st"
proof -
  have "distinct (map unat xs)"
    using level_okD(1) [OF assms] by (simp add: distinct_map inj_on_def word_unat_eq_iff)
  moreover have "set (map unat xs) \<subseteq> {..<length st}"
    using level_ok_in_range [OF assms] by auto
  ultimately have "card (set (map unat xs)) \<le> length st"
    using card_mono [of "{..<length st}"] by simp
  with \<open>distinct (map unat xs)\<close> show ?thesis
    by (metis distinct_card length_map)
qed

lemma level_empty_iff:
  "level_ok st level xs \<Longrightarrow> length st < 2 ^ 32 \<Longrightarrow> l_count level = 0 \<longleftrightarrow> xs = []"
  using level_ok_length [of st level xs] of_nat_eq_0_word [of "length xs", where 'a = 32]
  by (simp add: level_okD)

text \<open>Unlinking \<open>i\<close> out of \<open>us @ i # vs\<close>: the three shapes of neighbourhood the code distinguishes.\<close>

text \<open>The two halves of a queue around an unlinked slot.\<close>

lemma dseg_left:
  assumes "dseg st ARENA_NULL us i" and "distinct us" and "length st' = length st"
    and "\<And>x. x \<in> set us \<Longrightarrow> node_at st' x = (if x = lastp ARENA_NULL us then (node_at st x)\<lparr>n_next := q\<rparr> else node_at st x)"
  shows "dseg st' ARENA_NULL us q"
proof (cases us rule: rev_cases)
  case (snoc as a)
  have "dseg st' ARENA_NULL as a \<longleftrightarrow> dseg st ARENA_NULL as a"
    by (rule dseg_cong) (use assms(2-4) snoc in auto)
  then show ?thesis using assms snoc by auto
qed simp

lemma dseg_right:
  assumes "dseg st i vs ARENA_NULL" and "distinct vs" and "length st' = length st"
    and "\<And>x. x \<in> set vs \<Longrightarrow> node_at st' x = (if x = hdn vs ARENA_NULL then (node_at st x)\<lparr>n_prev := p\<rparr> else node_at st x)"
  shows "dseg st' p vs ARENA_NULL"
proof (cases vs)
  case (Cons b bs)
  have "dseg st' b bs ARENA_NULL \<longleftrightarrow> dseg st b bs ARENA_NULL"
    by (rule dseg_cong) (use assms(2-4) Cons in auto)
  then show ?thesis using assms Cons by auto
qed simp

lemma unlink_seg:
  assumes seg: "dseg st ARENA_NULL (us @ i # vs) ARENA_NULL" and d: "distinct (us @ i # vs)"
    and len: "length st < 2 ^ 32"
  defines "p \<equiv> lastp ARENA_NULL us" and "q \<equiv> hdn vs ARENA_NULL"
  defines "st1 \<equiv> (if p = ARENA_NULL then st else st[unat p := (node_at st p)\<lparr>n_next := q\<rparr>])"
  defines "st2 \<equiv> (if q = ARENA_NULL then st1 else st1[unat q := (node_at st1 q)\<lparr>n_prev := p\<rparr>])"
  shows "p = ARENA_NULL \<longleftrightarrow> us = []" and "q = ARENA_NULL \<longleftrightarrow> vs = []"
    and "us \<noteq> [] \<Longrightarrow> unat p < length st" and "vs \<noteq> [] \<Longrightarrow> unat q < length st"
    and "relinks (set (us @ vs)) st st2"
    and "dseg st2 ARENA_NULL (us @ vs) ARENA_NULL"
proof -
  have inr: "unat x < length st" if "x \<in> set (us @ vs)" for x
    using dseg_in_range [OF seg] that by auto
  note nn = in_range_not_null [OF inr len]
  show p0: "p = ARENA_NULL \<longleftrightarrow> us = []"
    using nn by (cases us rule: rev_cases) (auto simp: p_def)
  show q0: "q = ARENA_NULL \<longleftrightarrow> vs = []"
    using nn by (cases vs) (auto simp: q_def)
  have pin: "us \<noteq> [] \<Longrightarrow> p \<in> set us" by (simp add: p_def lastp_def)
  have qin: "vs \<noteq> [] \<Longrightarrow> q \<in> set vs" by (cases vs) (simp_all add: q_def)
  show pr: "us \<noteq> [] \<Longrightarrow> unat p < length st" using pin inr by auto
  show qr: "vs \<noteq> [] \<Longrightarrow> unat q < length st" using qin inr by auto
  have len1: "length st1 = length st" by (simp add: st1_def)
  show "relinks (set (us @ vs)) st st2"
  proof (rule relinks_trans)
    show "relinks (set (us @ vs)) st st1"
      unfolding st1_def using relinks_link [of p st _ "\<lambda>n. n\<lparr>n_next := q\<rparr>"] p0 pin pr by auto
    show "relinks (set (us @ vs)) st1 st2"
      unfolding st2_def using relinks_link [of q st1 _ "\<lambda>n. n\<lparr>n_prev := p\<rparr>"] q0 qin qr len1 by auto
  qed
  have nd1: "node_at st1 x = (if us \<noteq> [] \<and> x = p then (node_at st p)\<lparr>n_next := q\<rparr> else node_at st x)" for x
    using p0 pr by (auto simp: st1_def node_at_update)
  have nd2: "node_at st2 x = (if vs \<noteq> [] \<and> x = q then (node_at st1 q)\<lparr>n_prev := p\<rparr> else node_at st1 x)" for x
    using q0 qr len1 by (auto simp: st2_def node_at_update)
  have len2: "length st2 = length st" by (simp add: st2_def len1)
  have "dseg st2 ARENA_NULL us q"
  proof (rule dseg_left [where st = st and i = i])
    show "node_at st2 x = (if x = lastp ARENA_NULL us then (node_at st x)\<lparr>n_next := q\<rparr> else node_at st x)"
      if "x \<in> set us" for x
    proof -
      have "us \<noteq> []" "vs \<noteq> [] \<longrightarrow> x \<noteq> q" using that qin d by auto
      then show ?thesis unfolding p_def [symmetric] nd2 by (cases "vs = []") (simp_all add: nd1)
    qed
  qed (use seg d len2 in simp_all)
  moreover have "dseg st2 p vs ARENA_NULL"
  proof (rule dseg_right [where st = st and i = i])
    show "node_at st2 x = (if x = hdn vs ARENA_NULL then (node_at st x)\<lparr>n_prev := p\<rparr> else node_at st x)"
      if "x \<in> set vs" for x
    proof -
      have "vs \<noteq> []" "us \<noteq> [] \<longrightarrow> x \<noteq> p" using that pin d by auto
      then show ?thesis unfolding q_def [symmetric] nd2 by (cases "us = []") (simp_all add: nd1)
    qed
  qed (use seg d len2 in simp_all)
  ultimately show "dseg st2 ARENA_NULL (us @ vs) ARENA_NULL" by (simp add: q_def p_def)
qed

text \<open>Filling the order at the front in part: its quantity and the level's total go down together.\<close>

lemma set_quantity_ok:
  assumes lv: "level_ok st level (i # xs)"
  shows "level_ok (st[unat i := (node_at st i)\<lparr>n_quantity := n_quantity (node_at st i) - q\<rparr>])
           (level\<lparr>l_qty := l_qty level - q\<rparr>) (i # xs)"
proof -
  let ?n = "(node_at st i)\<lparr>n_quantity := n_quantity (node_at st i) - q\<rparr>"
  note L = level_okD [OF lv]
  have i: "unat i < length st" "i \<notin> set xs" using L(1,2) by auto
  have nd: "node_at (st[unat i := ?n]) x = node_at st x" if "x \<in> set xs" for x
    using i that by (auto simp: node_at_update)
  have "dseg (st[unat i := ?n]) i xs ARENA_NULL \<longleftrightarrow> dseg st i xs ARENA_NULL"
    by (rule dseg_cong) (simp_all add: nd)
  moreover have "(\<Sum>j\<leftarrow>xs. n_quantity (node_at (st[unat i := ?n]) j)) = (\<Sum>j\<leftarrow>xs. n_quantity (node_at st j))"
    by (simp add: nd cong: map_cong)
  ultimately show ?thesis
    using L i by (simp add: level_ok_def)
qed

lemma remove_ok:
  assumes lv: "level_ok (a_storage a) level (us @ i # vs)" and len: "length (a_storage a) < 2 ^ 32"
  obtains st' level' where "remove a level i = Some (a\<lparr>a_storage := st'\<rparr>, level')"
    and "level_ok st' level' (us @ vs)"
    and "relinks (set (us @ vs)) (a_storage a) st'"
proof -
  note L = level_okD [OF lv] and u = unlink_seg [OF level_okD(2) [OF lv] level_okD(1) [OF lv] len]
  let ?st = "a_storage a"
  let ?p = "lastp ARENA_NULL us" and ?q = "hdn vs ARENA_NULL"
  let ?st1 = "if ?p = ARENA_NULL then ?st else ?st[unat ?p := (node_at ?st ?p)\<lparr>n_next := ?q\<rparr>]"
  let ?st2 = "if ?q = ARENA_NULL then ?st1 else ?st1[unat ?q := (node_at ?st1 ?q)\<lparr>n_prev := ?p\<rparr>]"
  let ?lv = "level\<lparr>l_head := hdn (us @ vs) ARENA_NULL, l_tail := lastp ARENA_NULL (us @ vs),
    l_count := l_count level - 1, l_qty := l_qty level - n_quantity (node_at ?st i)\<rparr>"
  have nd: "unat i < length ?st" "n_prev (node_at ?st i) = ?p" "n_next (node_at ?st i) = ?q"
    using L(2) by auto
  have "remove a level i = Some (a\<lparr>a_storage := ?st2\<rparr>, ?lv)"
    using nd u(1,2,3,4) L(3,4) by (cases us rule: rev_cases; cases vs) (simp_all add: remove_def)
  moreover have "level_ok ?st2 ?lv (us @ vs)"
    using L u(6) by (simp add: level_ok_def relinks_fields [OF u(5)])
  ultimately show thesis using that u(5) by blast
qed

lemma pop_front_ok:
  assumes lv: "level_ok (a_storage a) level (i # vs)" and len: "length (a_storage a) < 2 ^ 32"
  obtains st' level' where "pop_front a level = Some (Some i, a\<lparr>a_storage := st'\<rparr>, level')"
    and "level_ok st' level' vs"
    and "relinks (set vs) (a_storage a) st'"
proof -
  have lv': "level_ok (a_storage a) level ([] @ i # vs)" using lv by simp
  note L = level_okD [OF lv'] and u = unlink_seg [OF level_okD(2) [OF lv'] level_okD(1) [OF lv'] len]
  let ?st = "a_storage a" and ?q = "hdn vs ARENA_NULL"
  let ?st2 = "if ?q = ARENA_NULL then ?st else ?st[unat ?q := (node_at ?st ?q)\<lparr>n_prev := ARENA_NULL\<rparr>]"
  let ?lv = "level\<lparr>l_head := hdn vs ARENA_NULL, l_tail := lastp ARENA_NULL vs,
    l_count := l_count level - 1, l_qty := l_qty level - n_quantity (node_at ?st i)\<rparr>"
  have nd: "unat i < length ?st" "n_next (node_at ?st i) = ?q" "l_head level = i"
    using L(2,3) by auto
  have "l_head level \<noteq> ARENA_NULL" using in_range_not_null [OF nd(1) len] nd(3) by simp
  then have "pop_front a level = Some (Some i, a\<lparr>a_storage := ?st2\<rparr>, ?lv)"
    using nd u(2,4) L(4) by (cases vs) (simp_all add: pop_front_def)
  moreover have rl: "relinks (set vs) ?st ?st2" and "dseg ?st2 ARENA_NULL vs ARENA_NULL"
    using u(5,6) by (simp_all only: lastp_simps append.simps if_True simp_thms)
  then have "level_ok ?st2 ?lv vs"
    using L by (simp add: level_ok_def relinks_fields [OF rl])
  ultimately show thesis using rl that by blast
qed

lemma pop_front_empty: "level_ok st level [] \<Longrightarrow> pop_front a level = Some (None, a, level)"
  by (simp add: level_ok_def pop_front_def)

section \<open>The free list\<close>

lemma free_okD:
  assumes "free_ok a fs"
  shows "distinct fs" "fseg (a_storage a) fs" "a_free_head a = hdn fs ARENA_NULL"
    "length (a_storage a) = unat (a_capacity a)"
  using assms by (simp_all add: free_ok_def)

lemma storage_bound: "free_ok a fs \<Longrightarrow> length (a_storage a) < 2 ^ 32"
  using unat_lt2p [of "a_capacity a"] by (simp add: free_ok_def)

lemma free_ok_frame:
  "free_ok a fs \<Longrightarrow> touches X (a_storage a) st' \<Longrightarrow> X \<inter> set fs = {} \<Longrightarrow> free_ok (a\<lparr>a_storage := st'\<rparr>) fs"
  by (auto simp: free_ok_def fseg_frame touches_length)

lemma alloc_full: "free_ok a [] \<Longrightarrow> alloc a ord = Some (Inl Full, a)"
  by (simp add: free_ok_def alloc_def)

lemma alloc_ok:
  fixes ord :: order
  assumes "free_ok a (i # fs)"
  defines "a' \<equiv> a\<lparr>a_free_head := hdn fs ARENA_NULL,
    a_storage := (a_storage a)[unat i := from_order ord], a_count := a_count a + 1\<rparr>"
  shows "alloc a ord = Some (Inr i, a')" and "free_ok a' fs" and "unat i < length (a_storage a)"
proof -
  note F = free_okD [OF assms(1)]
  show i: "unat i < length (a_storage a)" using F(2) by simp
  have "i \<noteq> ARENA_NULL" using in_range_not_null [OF i storage_bound [OF assms(1)]] .
  with F i show "alloc a ord = Some (Inr i, a')"
    by (simp add: alloc_def a'_def)
  have "fseg ((a_storage a)[unat i := from_order ord]) fs"
    by (subst fseg_cong [of _ "a_storage a"]) (use F i in \<open>auto simp: node_at_update\<close>)
  with F show "free_ok a' fs" by (simp add: free_ok_def a'_def)
qed

lemma dealloc_ok:
  assumes f: "free_ok a fs" and i: "unat i < length (a_storage a)" "i \<notin> set fs"
  obtains st' where "dealloc a i =
      Some (a\<lparr>a_storage := st', a_free_head := i, a_count := a_count a - 1\<rparr>)"
    and "free_ok (a\<lparr>a_storage := st', a_free_head := i, a_count := a_count a - 1\<rparr>) (i # fs)"
    and "relinks {i} (a_storage a) st'"
proof -
  note F = free_okD [OF f]
  let ?st = "(a_storage a)[unat i := (node_at (a_storage a) i)\<lparr>n_next := a_free_head a\<rparr>]"
  have rl: "relinks {i} (a_storage a) ?st"
    by (rule relinks_link [where f = "\<lambda>n. n\<lparr>n_next := a_free_head a\<rparr>"]) (use i in auto)
  have "fseg ?st fs \<longleftrightarrow> fseg (a_storage a) fs"
    by (rule fseg_frame [OF relinks_touches [OF rl]]) (use i in auto)
  then have "free_ok (a\<lparr>a_storage := ?st, a_free_head := i, a_count := a_count a - 1\<rparr>) (i # fs)"
    using F i by (simp add: free_ok_def node_at_update)
  then show thesis using that rl i by (simp add: dealloc_def)
qed

text \<open>A slot unlinked from its queue and given back.\<close>

lemma release_ok:
  assumes f: "free_ok a fs" and rl: "relinks (set (us @ vs)) (a_storage a) st1"
    and lv: "level_ok st1 level (us @ vs)" and d: "distinct (us @ i # vs)"
    and nf: "set (us @ i # vs) \<inter> set fs = {}" and i: "unat i < length (a_storage a)"
  obtains a' where "dealloc (a\<lparr>a_storage := st1\<rparr>) i = Some a'" and "free_ok a' (i # fs)"
    and "relinks (set (us @ i # vs)) (a_storage a) (a_storage a')"
    and "level_ok (a_storage a') level (us @ vs)"
    and "a_count a' = a_count a - 1" and "a_capacity a' = a_capacity a"
proof -
  let ?a1 = "a\<lparr>a_storage := st1\<rparr>"
  have f1: "free_ok ?a1 fs"
    by (rule free_ok_frame [OF f relinks_touches [OF rl]]) (use nf in auto)
  obtain st2 where da: "dealloc ?a1 i = Some (?a1\<lparr>a_storage := st2, a_free_head := i, a_count := a_count ?a1 - 1\<rparr>)"
    and f2: "free_ok (?a1\<lparr>a_storage := st2, a_free_head := i, a_count := a_count ?a1 - 1\<rparr>) (i # fs)"
    and rl2: "relinks {i} st1 st2"
    using dealloc_ok [OF f1, of i] i nf relinks_length [OF rl] by auto
  have "relinks (set (us @ i # vs)) (a_storage a) st2"
  proof (rule relinks_trans)
    show "relinks (set (us @ i # vs)) (a_storage a) st1" by (rule relinks_mono [OF rl]) auto
    show "relinks (set (us @ i # vs)) st1 st2" by (rule relinks_mono [OF rl2]) auto
  qed
  moreover have "level_ok st2 level (us @ vs)"
    using level_ok_frame [OF relinks_touches [OF rl2], of "us @ vs"] lv d by auto
  ultimately show thesis using that [OF da f2] by simp
qed

text \<open>A new arena: every slot is on the free list, in order.\<close>

lemma arena_new_links:
  assumes "k < unat c"
  shows "n_next (a_storage (arena_new c) ! k) = (if Suc k < unat c then of_nat (Suc k) else ARENA_NULL)"
proof -
  have "unat (of_nat (Suc k) :: u32) = Suc k"
    using assms unat_lt2p [of c] by (intro unat_of_nat_id) simp
  then have "(of_nat k :: u32) + 1 < c \<longleftrightarrow> Suc k < unat c"
    by (simp add: word_less_nat_alt add.commute)
  with assms show ?thesis by (simp add: arena_new_def Let_def add.commute)
qed

lemma arena_new_ok: "free_ok (arena_new c) (map of_nat [0..<unat c])"
proof -
  let ?st = "a_storage (arena_new c)"
  have len: "length ?st = unat c" by (simp add: arena_new_def)
  have un: "unat (of_nat k :: u32) = k" if "k < unat c" for k
    using that unat_lt2p [of c] by (intro unat_of_nat_id) simp
  have seg: "k \<le> unat c \<Longrightarrow> fseg ?st (map of_nat [k..<unat c])" for k
  proof (induction k rule: inc_induct)
    case (step k)
    then show ?case
      using un [of k] arena_new_links [of k c] len
      by (cases "Suc k < unat c") (simp_all add: upt_conv_Cons)
  qed simp
  have "distinct (map (of_nat :: nat \<Rightarrow> u32) [0..<unat c])"
    by (auto simp: distinct_map intro!: inj_onI) (metis un)
  moreover have "hdn (map of_nat [0..<unat c]) ARENA_NULL = a_free_head (arena_new c)"
    using upt_conv_Cons [of 0 "unat c"]
    by (cases "unat c = 0") (simp_all add: arena_new_def word_gt_0 unsigned_eq_0_iff)
  ultimately show ?thesis
    using len seg [of 0] by (simp add: free_ok_def) (simp add: arena_new_def)
qed

section \<open>Many queues in one pool\<close>

text \<open>
  The order book keeps one queue per side and price in the same pool. All it relies on is that a
  step which touches none of a queue's slots leaves that queue as it was.
\<close>

locale keyed_queues =
  fixes rep :: "'st \<Rightarrow> 'lv \<Rightarrow> 'i list \<Rightarrow> bool"
    and touch :: "'i set \<Rightarrow> 'st \<Rightarrow> 'st \<Rightarrow> bool"
  assumes rep_frame: "touch X st st' \<Longrightarrow> X \<inter> set xs = {} \<Longrightarrow> rep st' l xs \<longleftrightarrow> rep st l xs"
begin

text \<open>A key has a level exactly when its queue is not empty, and the level stands for the queue.\<close>

definition family :: "'st \<Rightarrow> ('k \<Rightarrow> 'lv option) \<Rightarrow> ('k \<Rightarrow> 'i list) \<Rightarrow> bool" where
  "family st lv L \<longleftrightarrow>
     (\<forall>k. case lv k of None \<Rightarrow> L k = [] | Some l \<Rightarrow> L k \<noteq> [] \<and> rep st l (L k))"

lemma family_NoneD: "family st lv L \<Longrightarrow> lv k = None \<Longrightarrow> L k = []"
  by (auto simp: family_def dest: spec [of _ k])

lemma family_SomeD: "family st lv L \<Longrightarrow> lv k = Some l \<Longrightarrow> L k \<noteq> [] \<and> rep st l (L k)"
  by (auto simp: family_def dest: spec [of _ k])

lemma family_dom: "family st lv L \<Longrightarrow> L k \<noteq> [] \<longleftrightarrow> lv k \<noteq> None"
  by (auto dest: family_NoneD family_SomeD)

lemma family_upd:
  assumes fam: "family st lv L" and t: "touch X st st'"
    and dis: "\<And>k'. k' \<noteq> k \<Longrightarrow> X \<inter> set (L k') = {}"
    and l: "rep st' l xs" "xs \<noteq> []" and lv': "lv' = lv(k \<mapsto> l)"
  shows "family st' lv' (L(k := xs))"
  unfolding family_def
proof
  fix k'
  show "case lv' k' of None \<Rightarrow> (L(k := xs)) k' = []
      | Some l \<Rightarrow> (L(k := xs)) k' \<noteq> [] \<and> rep st' l ((L(k := xs)) k')"
    using family_NoneD [OF fam, of k'] family_SomeD [OF fam, of k'] l rep_frame [OF t dis]
    by (cases "k' = k") (auto simp: lv' split: option.splits)
qed

lemma family_drop:
  assumes fam: "family st lv L" and t: "touch X st st'"
    and dis: "\<And>k'. k' \<noteq> k \<Longrightarrow> X \<inter> set (L k') = {}" and lv': "lv' = lv(k := None)"
  shows "family st' lv' (L(k := []))"
  unfolding family_def
proof
  fix k'
  show "case lv' k' of None \<Rightarrow> (L(k := [])) k' = []
      | Some l \<Rightarrow> (L(k := [])) k' \<noteq> [] \<and> rep st' l ((L(k := [])) k')"
    using family_NoneD [OF fam, of k'] family_SomeD [OF fam, of k'] rep_frame [OF t dis]
    by (cases "k' = k") (auto simp: lv' split: option.splits)
qed

end

interpretation pool: keyed_queues level_ok touches
  by unfold_locales (rule level_ok_frame)

end
