(* ===== verification/Std_Maps.thy ===== *)
theory Std_Maps
  imports Prelude "HOL-Library.AList"
begin

text \<open>
  The two standard-library maps the sources use: \<open>BTreeMap\<close> (price levels, sorted by
  price) and \<open>HashMap\<close> (order id to arena slot). The locale \<open>map_adt\<close> is the contract under
  which the order book uses either; \<open>ordered_map_adt\<close> adds what it needs of the sorted one,
  the first and the last key. Both are interpreted on the models below.
\<close>

section \<open>BTreeMap: an association list sorted by key\<close>

type_synonym ('k, 'v) btree = "('k \<times> 'v) list"

definition bt_get :: "('k, 'v) btree \<Rightarrow> 'k \<Rightarrow> 'v option" where
  "bt_get m k = map_of m k"

fun bt_insert :: "('k::linorder, 'v) btree \<Rightarrow> 'k \<Rightarrow> 'v \<Rightarrow> ('k, 'v) btree" where
  "bt_insert [] k v = [(k, v)]"
| "bt_insert ((a, b) # m) k v =
     (if k < a then (k, v) # (a, b) # m
      else if k = a then (k, v) # m
      else (a, b) # bt_insert m k v)"

definition bt_remove :: "('k, 'v) btree \<Rightarrow> 'k \<Rightarrow> ('k, 'v) btree" where
  "bt_remove m k = filter (\<lambda>e. fst e \<noteq> k) m"

definition bt_keys :: "('k, 'v) btree \<Rightarrow> 'k list" where
  "bt_keys m = map fst m"

definition bt_values :: "('k, 'v) btree \<Rightarrow> 'v list" where
  "bt_values m = map snd m"

text \<open>\<open>keys().next().copied()\<close> and \<open>keys().next_back().copied()\<close>.\<close>

definition bt_first_key :: "('k, 'v) btree \<Rightarrow> 'k option" where
  "bt_first_key m = (case bt_keys m of [] \<Rightarrow> None | k # _ \<Rightarrow> Some k)"

definition bt_last_key :: "('k, 'v) btree \<Rightarrow> 'k option" where
  "bt_last_key m = (case rev (bt_keys m) of [] \<Rightarrow> None | k # _ \<Rightarrow> Some k)"

definition bt_inv :: "('k::linorder, 'v) btree \<Rightarrow> bool" where
  "bt_inv m \<longleftrightarrow> sorted_wrt (<) (bt_keys m)"

section \<open>HashMap: an association list without duplicate keys\<close>

type_synonym ('k, 'v) hashmap = "('k \<times> 'v) list"

definition hm_get :: "('k, 'v) hashmap \<Rightarrow> 'k \<Rightarrow> 'v option" where
  "hm_get m k = map_of m k"

definition hm_insert :: "('k, 'v) hashmap \<Rightarrow> 'k \<Rightarrow> 'v \<Rightarrow> ('k, 'v) hashmap" where
  "hm_insert m k v = AList.update k v m"

definition hm_remove :: "('k, 'v) hashmap \<Rightarrow> 'k \<Rightarrow> ('k, 'v) hashmap" where
  "hm_remove m k = AList.delete k m"

definition hm_keys :: "('k, 'v) hashmap \<Rightarrow> 'k list" where
  "hm_keys m = map fst m"

definition hm_len :: "('k, 'v) hashmap \<Rightarrow> nat" where
  "hm_len m = length m"

definition hm_inv :: "('k, 'v) hashmap \<Rightarrow> bool" where
  "hm_inv m \<longleftrightarrow> distinct (hm_keys m)"


section \<open>The contract of a map\<close>

locale map_adt =
  fixes empty :: "'m"
    and get :: "'m \<Rightarrow> 'k \<Rightarrow> 'v option"
    and ins :: "'m \<Rightarrow> 'k \<Rightarrow> 'v \<Rightarrow> 'm"
    and del :: "'m \<Rightarrow> 'k \<Rightarrow> 'm"
    and keys :: "'m \<Rightarrow> 'k list"
    and invar :: "'m \<Rightarrow> bool"
  assumes get_empty: "get empty k = None"
    and get_ins: "invar m \<Longrightarrow> get (ins m k v) k' = (if k' = k then Some v else get m k')"
    and get_del: "invar m \<Longrightarrow> get (del m k) k' = (if k' = k then None else get m k')"
    and set_keys: "invar m \<Longrightarrow> set (keys m) = {k. get m k \<noteq> None}"
    and distinct_keys: "invar m \<Longrightarrow> distinct (keys m)"
    and invar_empty: "invar empty"
    and invar_ins: "invar m \<Longrightarrow> invar (ins m k v)"
    and invar_del: "invar m \<Longrightarrow> invar (del m k)"
begin

lemma in_keys: "invar m \<Longrightarrow> k \<in> set (keys m) \<longleftrightarrow> get m k \<noteq> None"
  by (simp add: set_keys)

lemma set_keys_ins: "invar m \<Longrightarrow> set (keys (ins m k v)) = insert k (set (keys m))"
  by (auto simp: set_keys get_ins invar_ins)

lemma set_keys_del: "invar m \<Longrightarrow> set (keys (del m k)) = set (keys m) - {k}"
  by (auto simp: set_keys get_del invar_del)

text \<open>The number of keys, which the callers read as the size of the map.\<close>

lemma length_keys: "invar m \<Longrightarrow> length (keys m) = card (set (keys m))"
  by (simp add: distinct_keys distinct_card)

lemma length_keys_ins_new:
  "invar m \<Longrightarrow> get m k = None \<Longrightarrow> length (keys (ins m k v)) = Suc (length (keys m))"
  by (simp add: length_keys invar_ins set_keys_ins in_keys)

lemma length_keys_ins_old:
  "invar m \<Longrightarrow> get m k \<noteq> None \<Longrightarrow> length (keys (ins m k v)) = length (keys m)"
  by (simp add: length_keys invar_ins set_keys_ins in_keys insert_absorb)

lemma length_keys_del:
  "invar m \<Longrightarrow> get m k \<noteq> None \<Longrightarrow> Suc (length (keys (del m k))) = length (keys m)"
  by (metis card_Suc_Diff1 in_keys invar_del length_keys List.finite_set set_keys_del)

lemma empty_keys: "keys empty = []"
  using set_keys [OF invar_empty] by (simp add: get_empty)

end

text \<open>A sorted map also answers its least and its greatest key.\<close>

locale ordered_map_adt = map_adt empty get ins del keys invar
  for empty :: "'m"
    and get :: "'m \<Rightarrow> 'k::linorder \<Rightarrow> 'v option"
    and ins :: "'m \<Rightarrow> 'k \<Rightarrow> 'v \<Rightarrow> 'm"
    and del :: "'m \<Rightarrow> 'k \<Rightarrow> 'm"
    and keys :: "'m \<Rightarrow> 'k list"
    and invar :: "'m \<Rightarrow> bool" +
  fixes first_key :: "'m \<Rightarrow> 'k option"
    and last_key :: "'m \<Rightarrow> 'k option"
  assumes first_key: "invar m \<Longrightarrow> first_key m = (if keys m = [] then None else Some (hd (keys m)))"
    and last_key: "invar m \<Longrightarrow> last_key m = (if keys m = [] then None else Some (last (keys m)))"
    and sorted_keys: "invar m \<Longrightarrow> sorted (keys m)"
begin

lemma hd_keys_le: "invar m \<Longrightarrow> k \<in> set (keys m) \<Longrightarrow> hd (keys m) \<le> k"
  using sorted_keys [of m] by (cases "keys m") auto

lemma last_keys_ge: "invar m \<Longrightarrow> k \<in> set (keys m) \<Longrightarrow> k \<le> last (keys m)"
  using sorted_keys [of m] by (cases "keys m" rule: rev_cases) (auto simp: sorted_append)

lemma first_key_eq_Some:
  "invar m \<Longrightarrow> first_key m = Some p \<longleftrightarrow> get m p \<noteq> None \<and> (\<forall>k. get m k \<noteq> None \<longrightarrow> p \<le> k)"
  using hd_keys_le [of m] in_keys [of m]
  by (auto simp: first_key intro!: antisym) (metis hd_in_set in_keys)+

lemma last_key_eq_Some:
  "invar m \<Longrightarrow> last_key m = Some p \<longleftrightarrow> get m p \<noteq> None \<and> (\<forall>k. get m k \<noteq> None \<longrightarrow> k \<le> p)"
  using last_keys_ge [of m] in_keys [of m]
  by (auto simp: last_key intro!: antisym) (metis last_in_set in_keys)+

lemma first_key_eq_None: "invar m \<Longrightarrow> first_key m = None \<longleftrightarrow> (\<forall>k. get m k = None)"
  using in_keys [of m] by (auto simp: first_key) (metis hd_in_set)

lemma last_key_eq_None: "invar m \<Longrightarrow> last_key m = None \<longleftrightarrow> (\<forall>k. get m k = None)"
  using in_keys [of m] by (auto simp: last_key) (metis last_in_set)

end

section \<open>The models satisfy the contract\<close>

lemma set_bt_keys_insert [simp]: "set (bt_keys (bt_insert m k v)) = insert k (set (bt_keys m))"
  by (induction m k v rule: bt_insert.induct) (auto simp: bt_keys_def)

lemma bt_get_insert: "bt_get (bt_insert m k v) k' = (if k' = k then Some v else bt_get m k')"
  by (induction m k v rule: bt_insert.induct) (auto simp: bt_get_def)

lemma bt_inv_insert: "bt_inv m \<Longrightarrow> bt_inv (bt_insert m k v)"
proof (induction m k v rule: bt_insert.induct)
  case (1 k v)
  then show ?case by (simp add: bt_inv_def bt_keys_def)
next
  case (2 a b m k v)
  then show ?case
    using set_bt_keys_insert [of m k v]
    by (auto simp: bt_inv_def bt_keys_def)
qed

lemma bt_insert_twice [simp]: "bt_insert (bt_insert m k v) k w = bt_insert m k w"
  by (induction m k v rule: bt_insert.induct) auto

lemma bt_inv_distinct: "bt_inv m \<Longrightarrow> distinct (bt_keys m)"
  by (simp add: bt_inv_def strict_sorted_iff)

lemma bt_get_remove: "bt_get (bt_remove m k) k' = (if k' = k then None else bt_get m k')"
  by (induction m) (auto simp: bt_get_def bt_remove_def)

lemma bt_inv_remove: "bt_inv m \<Longrightarrow> bt_inv (bt_remove m k)"
  by (induction m) (auto simp: bt_inv_def bt_keys_def bt_remove_def)

interpretation btree: ordered_map_adt "[]" bt_get bt_insert bt_remove bt_keys bt_inv bt_first_key bt_last_key
proof unfold_locales
  fix m :: "('a::linorder \<times> 'b) list"
  show "set (bt_keys m) = {k. bt_get m k \<noteq> None}" if "bt_inv m"
    by (auto simp: bt_keys_def bt_get_def map_of_eq_None_iff)
  show "bt_first_key m = (if bt_keys m = [] then None else Some (hd (bt_keys m)))" if "bt_inv m"
    by (simp add: bt_first_key_def split: list.split)
  show "bt_last_key m = (if bt_keys m = [] then None else Some (last (bt_keys m)))" if "bt_inv m"
    by (cases "bt_keys m" rule: rev_cases) (simp_all add: bt_last_key_def)
  show "sorted (bt_keys m)" if "bt_inv m"
    using that by (simp add: bt_inv_def strict_sorted_iff)
qed (auto simp: bt_get_insert bt_get_remove bt_inv_insert bt_inv_remove bt_inv_distinct,
     auto simp: bt_get_def bt_inv_def bt_keys_def)

lemma hm_len_keys: "hm_len m = length (hm_keys m)"
  by (simp add: hm_len_def hm_keys_def)

interpretation hash: map_adt "[]" hm_get hm_insert hm_remove hm_keys hm_inv
proof unfold_locales
  fix m :: "('a \<times> 'b) list" and k k' v
  show "hm_get (hm_insert m k v) k' = (if k' = k then Some v else hm_get m k')"
    by (simp add: hm_get_def hm_insert_def update_conv')
  show "hm_get (hm_remove m k) k' = (if k' = k then None else hm_get m k')"
    by (simp add: hm_get_def hm_remove_def delete_conv')
  show "set (hm_keys m) = {k. hm_get m k \<noteq> None}"
    by (auto simp: hm_keys_def hm_get_def map_of_eq_None_iff)
  show "hm_inv m \<Longrightarrow> hm_inv (hm_insert m k v)"
    by (simp add: hm_inv_def hm_keys_def hm_insert_def distinct_update)
  show "hm_inv m \<Longrightarrow> hm_inv (hm_remove m k)"
    by (simp add: hm_inv_def hm_keys_def hm_remove_def distinct_delete)
qed (simp_all add: hm_get_def hm_inv_def hm_keys_def)

end
