(* ===== verification/Book.thy ===== *)
theory Book
  imports Arena Std_Maps
begin

text \<open>
  \<open>src/src/book.rs\<close>: the limit order book. Two sorted maps from price to price level (bids and
  asks), the cached best prices, an index from order id to arena slot, and the arena. The model
  follows the methods statement by statement; a panic (an arena index out of range) is
  \<open>None\<close>, a \<open>Result\<close> is a sum beside the book as the method leaves it.
\<close>

section \<open>Data\<close>

datatype book_error =
    DuplicateOrderId u64
  | OrderNotFound u64
  | PriceLevelNotFound i64
  | FillExceedsQuantity (available: u64) (requested: u64)
  | ArenaFull

fun book_error_of_arena :: "arena_error \<Rightarrow> book_error" where
  "book_error_of_arena Full = ArenaFull"

record order_book =
  b_bids :: "(i64, price_level) btree"
  b_asks :: "(i64, price_level) btree"
  b_best_bid :: "i64 option"
  b_best_ask :: "i64 option"
  b_order_index :: "(u64, u32) hashmap"
  b_arena :: arena

section \<open>Operations\<close>

definition book_with_capacity :: "u32 \<Rightarrow> order_book" where
  "book_with_capacity arena_capacity =
     \<lparr>b_bids = [], b_asks = [], b_best_bid = None, b_best_ask = None, b_order_index = [],
      b_arena = arena_new arena_capacity\<rparr>"

definition book_new :: order_book where
  "book_new = book_with_capacity DEFAULT_CAPACITY"

definition best_bid :: "order_book \<Rightarrow> i64 option" where
  "best_bid b = b_best_bid b"

definition best_ask :: "order_book \<Rightarrow> i64 option" where
  "best_ask b = b_best_ask b"

definition order_count :: "order_book \<Rightarrow> nat" where
  "order_count b = hm_len (b_order_index b)"

text \<open>The map of a side: \<open>match side { Bid => bids, Ask => asks }\<close>, read and written.\<close>

fun levels_of :: "order_book \<Rightarrow> side \<Rightarrow> (i64, price_level) btree" where
  "levels_of b Bid = b_bids b"
| "levels_of b Ask = b_asks b"

fun set_levels :: "order_book \<Rightarrow> side \<Rightarrow> (i64, price_level) btree \<Rightarrow> order_book" where
  "set_levels b Bid m = b\<lparr>b_bids := m\<rparr>"
| "set_levels b Ask m = b\<lparr>b_asks := m\<rparr>"

fun update_best_after_insert :: "order_book \<Rightarrow> side \<Rightarrow> i64 \<Rightarrow> order_book" where
  "update_best_after_insert b Bid price =
     b\<lparr>b_best_bid := Some (case b_best_bid b of None \<Rightarrow> price | Some c \<Rightarrow> max c price)\<rparr>"
| "update_best_after_insert b Ask price =
     b\<lparr>b_best_ask := Some (case b_best_ask b of None \<Rightarrow> price | Some c \<Rightarrow> min c price)\<rparr>"

definition insert_order :: "order_book \<Rightarrow> order \<Rightarrow> ((book_error + unit) \<times> order_book) option" where
  "insert_order b ord =
     (if hm_get (b_order_index b) (o_id ord) \<noteq> None then Some (Inl (DuplicateOrderId (o_id ord)), b)
      else do {
        let side = o_side ord;
        let price = o_price ord;
        (r, arena) \<leftarrow> alloc (b_arena b) ord;
        case r of
          Inl e \<Rightarrow> Some (Inl (book_error_of_arena e), b\<lparr>b_arena := arena\<rparr>)
        | Inr index \<Rightarrow> do {
            let level = (case bt_get (levels_of b side) price of None \<Rightarrow> price_level_new | Some l \<Rightarrow> l);
            (arena, level) \<leftarrow> push_back arena level index;
            let b = set_levels (b\<lparr>b_arena := arena\<rparr>) side (bt_insert (levels_of b side) price level);
            let b = b\<lparr>b_order_index := hm_insert (b_order_index b) (o_id ord) index\<rparr>;
            Some (Inr (), update_best_after_insert b side price)
          }
      })"

text \<open>The tail \<open>cancel_order\<close> and \<open>reduce_front_quantity\<close> share: an emptied level leaves its map.\<close>

fun drop_level :: "order_book \<Rightarrow> side \<Rightarrow> i64 \<Rightarrow> order_book" where
  "drop_level b Bid price =
     (let bids = bt_remove (b_bids b) price in b\<lparr>b_bids := bids, b_best_bid := bt_last_key bids\<rparr>)"
| "drop_level b Ask price =
     (let asks = bt_remove (b_asks b) price in b\<lparr>b_asks := asks, b_best_ask := bt_first_key asks\<rparr>)"

definition cancel_order :: "order_book \<Rightarrow> u64 \<Rightarrow> ((book_error + order) \<times> order_book) option" where
  "cancel_order b order_id =
     (case hm_get (b_order_index b) order_id of
        None \<Rightarrow> Some (Inl (OrderNotFound order_id), b)
      | Some index \<Rightarrow> do {
          let b = b\<lparr>b_order_index := hm_remove (b_order_index b) order_id\<rparr>;
          node \<leftarrow> get (b_arena b) index;
          let ord = to_order node;
          let side = o_side ord;
          let price = o_price ord;
          case bt_get (levels_of b side) price of
            None \<Rightarrow> Some (Inl (PriceLevelNotFound price), b)
          | Some level \<Rightarrow> do {
              (arena, level) \<leftarrow> remove (b_arena b) level index;
              arena \<leftarrow> dealloc arena index;
              let level_empty = (l_count level = 0);
              let b = set_levels (b\<lparr>b_arena := arena\<rparr>) side (bt_insert (levels_of b side) price level);
              let b = (if level_empty then drop_level b side price else b);
              Some (Inr ord, b)
            }
        })"

definition peek_front :: "order_book \<Rightarrow> side \<Rightarrow> i64 \<Rightarrow> order_node option option" where
  "peek_front b side price =
     (case bt_get (levels_of b side) price of
        None \<Rightarrow> Some None
      | Some level \<Rightarrow>
          (if l_head level = ARENA_NULL then Some None
           else do {
             node \<leftarrow> get (b_arena b) (l_head level);
             Some (Some node)
           }))"

definition reduce_front_quantity ::
  "order_book \<Rightarrow> side \<Rightarrow> i64 \<Rightarrow> u64 \<Rightarrow> ((book_error + u64) \<times> order_book) option" where
  "reduce_front_quantity b side price fill_qty =
     (case bt_get (levels_of b side) price of
        None \<Rightarrow> Some (Inl (PriceLevelNotFound price), b)
      | Some level \<Rightarrow>
          (if l_head level = ARENA_NULL then Some (Inl (PriceLevelNotFound price), b)
           else do {
             let head_idx = l_head level;
             front \<leftarrow> get (b_arena b) head_idx;
             if fill_qty > n_quantity front
             then Some (Inl (FillExceedsQuantity (n_quantity front) fill_qty), b)
             else do {
               arena \<leftarrow> get_mut (b_arena b) head_idx (\<lambda>n. n\<lparr>n_quantity := n_quantity n - fill_qty\<rparr>);
               let level = level\<lparr>l_qty := l_qty level - fill_qty\<rparr>;
               let remaining = n_quantity front - fill_qty;
               if remaining = 0 then do {
                 node \<leftarrow> get arena head_idx;
                 let removed_id = n_id node;
                 (_, arena, level) \<leftarrow> pop_front arena level;
                 arena \<leftarrow> dealloc arena head_idx;
                 let b = set_levels (b\<lparr>b_arena := arena\<rparr>) side (bt_insert (levels_of b side) price level);
                 let b = b\<lparr>b_order_index := hm_remove (b_order_index b) removed_id\<rparr>;
                 let b = (if l_count level = 0 then drop_level b side price else b);
                 Some (Inr 0, b)
               } else
                 Some (Inr remaining,
                       set_levels (b\<lparr>b_arena := arena\<rparr>) side (bt_insert (levels_of b side) price level))
             }
           }))"

text \<open>
  The walk along one level: a loop that follows \<open>next\<close> until the null link. On a cyclic list it
  would not return, so the result is an \<open>option\<close>: \<open>None\<close> is a panic or no return.
\<close>

partial_function (option) walk :: "arena \<Rightarrow> u32 \<Rightarrow> order list \<Rightarrow> order list option" where
  "walk a idx orders =
     (if idx = ARENA_NULL then Some orders
      else do {
        node \<leftarrow> get a idx;
        walk a (n_next node) (orders @ [to_order node])
      })"

fun walk_levels :: "arena \<Rightarrow> price_level list \<Rightarrow> order list \<Rightarrow> order list option" where
  "walk_levels a [] orders = Some orders"
| "walk_levels a (level # levels) orders = do {
     orders \<leftarrow> walk a (l_head level) orders;
     walk_levels a levels orders
   }"

definition all_resting_orders :: "order_book \<Rightarrow> order list option" where
  "all_resting_orders b = do {
     orders \<leftarrow> walk_levels (b_arena b) (bt_values (b_asks b)) [];
     walk_levels (b_arena b) (rev (bt_values (b_bids b))) orders
   }"

end
