(* ===== verification/Book_Spec.thy ===== *)
theory Book_Spec
  imports Orders "HOL-Library.Multiset"
begin

text \<open>
  The abstract order book: per side one list of resting orders in price-time priority (best
  price first, oldest first within a price). This is what the book of \<open>src/src/book.rs\<close> promises
  its clients; \<open>Book_Refine\<close> shows that the arena, the linked lists and the sorted maps implement it.
\<close>

section \<open>Definitions\<close>

text \<open>The rank of a price on a side: lower ranks trade first.\<close>

fun rank :: "side \<Rightarrow> i64 \<Rightarrow> int" where
  "rank Ask p = i64_val p"
| "rank Bid p = - i64_val p"

type_synonym abook = "side \<Rightarrow> order list"

definition in_priority :: "side \<Rightarrow> order list \<Rightarrow> bool" where
  "in_priority s Q \<longleftrightarrow> sorted (map (\<lambda>x. rank s (o_price x)) Q)"

definition at_price :: "i64 \<Rightarrow> order list \<Rightarrow> order list" where
  "at_price p Q = filter (\<lambda>x. o_price x = p) Q"

text \<open>A new order queues behind every order of its price or a better one.\<close>

definition enqueue :: "order \<Rightarrow> order list \<Rightarrow> order list" where
  "enqueue x Q =
     takeWhile (\<lambda>y. rank (o_side x) (o_price y) \<le> rank (o_side x) (o_price x)) Q @ [x] @
     dropWhile (\<lambda>y. rank (o_side x) (o_price y) \<le> rank (o_side x) (o_price x)) Q"

text \<open>A fill of \<open>q\<close> against the oldest order at a price.\<close>

fun fill_first :: "i64 \<Rightarrow> u64 \<Rightarrow> order list \<Rightarrow> order list" where
  "fill_first p q [] = []"
| "fill_first p q (x # Q) =
     (if o_price x = p
      then (if o_quantity x = q then Q else x\<lparr>o_quantity := o_quantity x - q\<rparr> # Q)
      else x # fill_first p q Q)"

definition without_id :: "u64 \<Rightarrow> order list \<Rightarrow> order list" where
  "without_id i Q = filter (\<lambda>x. o_id x \<noteq> i) Q"

definition best_price :: "order list \<Rightarrow> i64 option" where
  "best_price Q = (case Q of [] \<Rightarrow> None | x # _ \<Rightarrow> Some (o_price x))"

text \<open>All orders of the book, in the order a snapshot stores them.\<close>

definition resting :: "abook \<Rightarrow> order list" where
  "resting A = A Ask @ A Bid"

definition ids :: "abook \<Rightarrow> u64 list" where
  "ids A = map o_id (resting A)"

definition abook_ok :: "abook \<Rightarrow> bool" where
  "abook_ok A \<longleftrightarrow>
     (\<forall>s. in_priority s (A s) \<and> (\<forall>x \<in> set (A s). o_side x = s)) \<and> distinct (ids A)"

definition uncrossed :: "abook \<Rightarrow> bool" where
  "uncrossed A \<longleftrightarrow> (\<forall>x \<in> set (A Bid). \<forall>y \<in> set (A Ask). o_price x < o_price y)"

section \<open>Priority order\<close>

lemma rank_inj: "rank s p = rank s q \<longleftrightarrow> p = q"
  by (cases s) (auto simp: i64_val_inject)

lemma in_priority_simps [simp]:
  "in_priority s []"
  "in_priority s (x # Q) \<longleftrightarrow> (\<forall>y \<in> set Q. rank s (o_price x) \<le> rank s (o_price y)) \<and> in_priority s Q"
  by (auto simp: in_priority_def)

lemma in_priority_append:
  "in_priority s (Q @ R) \<longleftrightarrow> in_priority s Q \<and> in_priority s R \<and>
     (\<forall>x \<in> set Q. \<forall>y \<in> set R. rank s (o_price x) \<le> rank s (o_price y))"
  by (auto simp: in_priority_def sorted_append)

lemma at_price_simps [simp]:
  "at_price p [] = []"
  "at_price p (x # Q) = (if o_price x = p then x # at_price p Q else at_price p Q)"
  "at_price p (Q @ R) = at_price p Q @ at_price p R"
  by (simp_all add: at_price_def)

lemma set_at_price: "set (at_price p Q) = {x \<in> set Q. o_price x = p}"
  by (simp add: at_price_def)

lemma mem_at_price: "x \<in> set Q \<longleftrightarrow> x \<in> set (at_price (o_price x) Q)"
  by (simp add: set_at_price)

text \<open>Priority order and the queues at each price determine the list.\<close>

lemma priority_unique:
  "in_priority s Q \<Longrightarrow> in_priority s R \<Longrightarrow> (\<And>p. at_price p Q = at_price p R) \<Longrightarrow> Q = R"
proof (induction Q arbitrary: R)
  case Nil
  then show ?case by (cases R) (auto dest: meta_spec [of _ "o_price (hd R)"])
next
  case (Cons x Q)
  have sets: "set (x # Q) = set R"
  proof (rule set_eqI)
    fix y
    show "y \<in> set (x # Q) \<longleftrightarrow> y \<in> set R"
      using Cons.prems(3) [of "o_price y"] mem_at_price by metis
  qed
  then obtain y R' where R: "R = y # R'" by (cases R) auto
  have "rank s (o_price x) \<le> rank s (o_price y)" and "rank s (o_price y) \<le> rank s (o_price x)"
    using Cons.prems(1,2) sets R by auto
  then have px: "o_price x = o_price y" by (simp add: rank_inj flip: eq_iff)
  then have xy: "x = y" using Cons.prems(3) [of "o_price x"] R by simp
  have "at_price p Q = at_price p R'" for p
    using Cons.prems(3) [of p] R xy by (auto split: if_splits)
  with Cons.IH [of R'] Cons.prems R xy show ?case by simp
qed

lemma rank_dropWhile:
  "in_priority s Q \<Longrightarrow> y \<in> set (dropWhile (\<lambda>y. rank s (o_price y) \<le> r) Q) \<Longrightarrow> r < rank s (o_price y)"
  by (induction Q) (auto split: if_splits)

lemma enqueue_split:
  assumes "in_priority (o_side x) Q"
  obtains T D where "Q = T @ D" and "enqueue x Q = T @ x # D"
    and "\<forall>y \<in> set T. rank (o_side x) (o_price y) \<le> rank (o_side x) (o_price x)"
    and "\<forall>y \<in> set D. rank (o_side x) (o_price x) < rank (o_side x) (o_price y)"
proof (rule that)
  let ?P = "\<lambda>y. rank (o_side x) (o_price y) \<le> rank (o_side x) (o_price x)"
  show "Q = takeWhile ?P Q @ dropWhile ?P Q" by simp
qed (auto simp: enqueue_def dest: set_takeWhileD rank_dropWhile [OF assms])

lemma in_priority_enqueue:
  assumes "in_priority (o_side x) Q"
  shows "in_priority (o_side x) (enqueue x Q)"
proof -
  obtain T D where "Q = T @ D" "enqueue x Q = T @ x # D"
    "\<forall>y \<in> set T. rank (o_side x) (o_price y) \<le> rank (o_side x) (o_price x)"
    "\<forall>y \<in> set D. rank (o_side x) (o_price x) < rank (o_side x) (o_price y)"
    using enqueue_split [OF assms] by blast
  with assms show ?thesis by (auto simp: in_priority_append less_imp_le)
qed

lemma at_price_enqueue:
  assumes "in_priority (o_side x) Q"
  shows "at_price p (enqueue x Q) = (if o_price x = p then at_price p Q @ [x] else at_price p Q)"
proof -
  obtain T D where QTD: "Q = T @ D" "enqueue x Q = T @ x # D"
    and D: "\<forall>y \<in> set D. rank (o_side x) (o_price x) < rank (o_side x) (o_price y)"
    using enqueue_split [OF assms] by blast
  have "at_price (o_price x) D = []"
    using D by (auto simp: at_price_def filter_empty_conv)
  with QTD show ?thesis by auto
qed

lemma mset_enqueue: "mset (enqueue x Q) = add_mset x (mset Q)"
proof -
  let ?P = "\<lambda>y. rank (o_side x) (o_price y) \<le> rank (o_side x) (o_price x)"
  have "mset (enqueue x Q) = add_mset x (mset (takeWhile ?P Q @ dropWhile ?P Q))"
    unfolding enqueue_def by (simp del: takeWhile_dropWhile_id)
  then show ?thesis by simp
qed

lemma set_enqueue [simp]: "set (enqueue x Q) = insert x (set Q)"
  using arg_cong [OF mset_enqueue, of set_mset x Q] by simp

lemma length_enqueue [simp]: "length (enqueue x Q) = Suc (length Q)"
  using arg_cong [OF mset_enqueue, of size x Q] by simp

section \<open>Fills\<close>

lemma fill_first_hd:
  "fill_first (o_price x) q (x # Q) =
     (if o_quantity x = q then Q else x\<lparr>o_quantity := o_quantity x - q\<rparr> # Q)"
  by simp

lemma fill_first_split:
  assumes "at_price p Q = x # xs"
  obtains Q1 Q2 where "Q = Q1 @ x # Q2" and "at_price p Q1 = []" and "at_price p Q2 = xs" and "o_price x = p"
    and "\<And>q. fill_first p q Q =
      Q1 @ (if o_quantity x = q then Q2 else x\<lparr>o_quantity := o_quantity x - q\<rparr> # Q2)"
  using assms
proof (induction Q arbitrary: thesis)
  case Nil
  then show ?case by simp
next
  case (Cons y Q)
  show ?case
  proof (cases "o_price y = p")
    case True
    with Cons.prems(2) Cons.prems(1) [of "[]" Q] show ?thesis by auto
  next
    case False
    with Cons.prems(2) have "at_price p Q = x # xs" by simp
    then obtain Q1 Q2 where "Q = Q1 @ x # Q2" "at_price p Q1 = []" "at_price p Q2 = xs" "o_price x = p"
      "\<And>q. fill_first p q Q = Q1 @ (if o_quantity x = q then Q2 else x\<lparr>o_quantity := o_quantity x - q\<rparr> # Q2)"
      using Cons.IH by blast
    with False Cons.prems(1) [of "y # Q1" Q2] show ?thesis by simp
  qed
qed

lemma at_price_fill_first:
  assumes "at_price p Q = x # xs"
  shows "at_price p' (fill_first p q Q) =
    (if p' = p then (if o_quantity x = q then xs else x\<lparr>o_quantity := o_quantity x - q\<rparr> # xs)
     else at_price p' Q)"
proof -
  obtain Q1 Q2 where "Q = Q1 @ x # Q2" "at_price p Q1 = []" "at_price p Q2 = xs" "o_price x = p"
    and "fill_first p q Q = Q1 @ (if o_quantity x = q then Q2 else x\<lparr>o_quantity := o_quantity x - q\<rparr> # Q2)"
    using fill_first_split [OF assms] by metis
  then show ?thesis by auto
qed

lemma in_priority_fill_first: "in_priority s Q \<Longrightarrow> in_priority s (fill_first p q Q)"
proof (cases "at_price p Q")
  case Nil
  then have "fill_first p q Q = Q" by (induction Q) (auto split: if_splits)
  then show "in_priority s Q \<Longrightarrow> ?thesis" by simp
next
  case (Cons x xs)
  obtain Q1 Q2 where "Q = Q1 @ x # Q2"
    and "fill_first p q Q = Q1 @ (if o_quantity x = q then Q2 else x\<lparr>o_quantity := o_quantity x - q\<rparr> # Q2)"
    using fill_first_split [OF Cons] by metis
  then show "in_priority s Q \<Longrightarrow> ?thesis" by (auto simp: in_priority_append)
qed

lemma without_id_simps [simp]:
  "without_id d [] = []"
  "without_id d (x # Q) = (if o_id x = d then without_id d Q else x # without_id d Q)"
  "without_id d (Q @ R) = without_id d Q @ without_id d R"
  by (simp_all add: without_id_def)

lemma at_price_without_id: "at_price p (without_id d Q) = without_id d (at_price p Q)"
  by (simp add: at_price_def without_id_def conj_commute)

lemma in_priority_without_id: "in_priority s Q \<Longrightarrow> in_priority s (without_id d Q)"
  by (induction Q) (auto simp: without_id_def)

end
