(* ===== verification/Book_Refine.thy ===== *)
theory Book_Refine
  imports Book Book_Spec
begin

text \<open>
  The order book of \<open>Book\<close> implements the abstract book of \<open>Book_Spec\<close>. The representation
  invariant \<open>book_rep b L fs\<close> names the ghost data: \<open>L (s, p)\<close> is the list of arena slots that the
  level of side \<open>s\<close> and price \<open>p\<close> links, oldest first, and \<open>fs\<close> the free list. The abstraction
  \<open>represents b A\<close> reads the orders off the slots. Every operation is shown to return (no panic,
  no endless walk), to keep the invariant, and to act on \<open>A\<close> as the abstract operation does.
\<close>

section \<open>The invariant and the abstraction\<close>

abbreviation storage :: "order_book \<Rightarrow> order_node list" where
  "storage b \<equiv> a_storage (b_arena b)"

definition level_at :: "order_book \<Rightarrow> side \<times> i64 \<Rightarrow> price_level option" where
  "level_at b = (\<lambda>(s, p). bt_get (levels_of b s) p)"

definition live :: "(side \<times> i64 \<Rightarrow> u32 list) \<Rightarrow> u32 set" where
  "live L = (\<Union>k. set (L k))"

definition placed :: "order_node list \<Rightarrow> (side \<times> i64 \<Rightarrow> u32 list) \<Rightarrow> bool" where
  "placed st L \<longleftrightarrow>
     (\<forall>s p. \<forall>i \<in> set (L (s, p)). n_side (node_at st i) = s \<and> n_price (node_at st i) = p)"

definition indexed :: "order_node list \<Rightarrow> (u64, u32) hashmap \<Rightarrow> (side \<times> i64 \<Rightarrow> u32 list) \<Rightarrow> bool" where
  "indexed st m L \<longleftrightarrow>
     hm_inv m \<and> (\<forall>d i. hm_get m d = Some i \<longleftrightarrow> i \<in> live L \<and> n_id (node_at st i) = d)"

definition best_ok :: "order_book \<Rightarrow> bool" where
  "best_ok b \<longleftrightarrow>
     bt_inv (b_bids b) \<and> bt_inv (b_asks b) \<and>
     b_best_bid b = bt_last_key (b_bids b) \<and> b_best_ask b = bt_first_key (b_asks b)"

definition counted :: "arena \<Rightarrow> (u64, u32) hashmap \<Rightarrow> u32 list \<Rightarrow> bool" where
  "counted a m fs \<longleftrightarrow>
     hm_len m + length fs = length (a_storage a) \<and> a_count a = of_nat (hm_len m)"

definition book_rep :: "order_book \<Rightarrow> (side \<times> i64 \<Rightarrow> u32 list) \<Rightarrow> u32 list \<Rightarrow> bool" where
  "book_rep b L fs \<longleftrightarrow>
     best_ok b \<and> pool.family (storage b) (level_at b) L \<and> placed (storage b) L \<and>
     indexed (storage b) (b_order_index b) L \<and> free_ok (b_arena b) fs \<and>
     live L \<inter> set fs = {} \<and> counted (b_arena b) (b_order_index b) fs"

definition views :: "order_node list \<Rightarrow> (side \<times> i64 \<Rightarrow> u32 list) \<Rightarrow> abook \<Rightarrow> bool" where
  "views st L A \<longleftrightarrow>
     (\<forall>s. in_priority s (A s) \<and> (\<forall>p. at_price p (A s) = map (order_at st) (L (s, p))))"

definition represents :: "order_book \<Rightarrow> abook \<Rightarrow> bool" where
  "represents b A \<longleftrightarrow> (\<exists>L fs. book_rep b L fs \<and> views (storage b) L A)"

definition book_ok :: "order_book \<Rightarrow> bool" where
  "book_ok b \<longleftrightarrow> (\<exists>A. represents b A)"

section \<open>Fields\<close>

lemma levels_of_simps [simp]:
  "levels_of (b\<lparr>b_arena := a\<rparr>) s = levels_of b s"
  "levels_of (b\<lparr>b_order_index := m\<rparr>) s = levels_of b s"
  "levels_of (set_levels b s m') s' = (if s' = s then m' else levels_of b s')"
  "levels_of (update_best_after_insert b s q) s' = levels_of b s'"
  "levels_of (drop_level b s p) s' = (if s' = s then bt_remove (levels_of b s) p else levels_of b s')"
  by (cases s; cases s'; simp add: Let_def)+

lemma set_levels_simps [simp]:
  "b_arena (set_levels b s m) = b_arena b"
  "b_order_index (set_levels b s m) = b_order_index b"
  "b_best_bid (set_levels b s m) = b_best_bid b"
  "b_best_ask (set_levels b s m) = b_best_ask b"
  by (cases s; simp)+

lemma update_best_simps [simp]:
  "b_arena (update_best_after_insert b s q) = b_arena b"
  "b_order_index (update_best_after_insert b s q) = b_order_index b"
  by (cases s; simp)+

lemma drop_level_simps [simp]:
  "b_arena (drop_level b s p) = b_arena b"
  "b_order_index (drop_level b s p) = b_order_index b"
  by (cases s; simp add: Let_def)+

lemma bids_asks: "b_bids b = levels_of b Bid" "b_asks b = levels_of b Ask"
  by simp_all

lemma best_ok_inv: "best_ok b \<Longrightarrow> bt_inv (levels_of b s)"
  by (cases s) (simp_all add: best_ok_def)

lemma level_at_simps [simp]:
  "level_at (b\<lparr>b_arena := a\<rparr>) = level_at b"
  "level_at (b\<lparr>b_order_index := m\<rparr>) = level_at b"
  "level_at (update_best_after_insert b s q) = level_at b"
  by (simp_all add: level_at_def)

lemma level_at_insert:
  "level_at (set_levels b s (bt_insert (levels_of b s) p l)) = (level_at b)((s, p) \<mapsto> l)"
  by (auto simp: level_at_def fun_eq_iff bt_get_insert)

lemma level_at_drop: "level_at (drop_level b s p) = (level_at b)((s, p) := None)"
  by (auto simp: level_at_def fun_eq_iff bt_get_remove)

section \<open>The cached best prices\<close>

lemma bt_keys_insert_old:
  "bt_inv m \<Longrightarrow> bt_get m k \<noteq> None \<Longrightarrow> bt_keys (bt_insert m k v) = bt_keys m"
  by (induction m k v rule: bt_insert.induct)
    (auto simp: bt_inv_def bt_keys_def bt_get_def split: if_splits, metis map_of_SomeD fst_conv order.asym)

lemma best_key_cong:
  assumes "bt_keys m = bt_keys m'"
  shows "bt_first_key m = bt_first_key m'" "bt_last_key m = bt_last_key m'"
  using assms by (simp_all add: bt_first_key_def bt_last_key_def)

lemma best_ok_replace:
  assumes "best_ok b" and "level_at b (s, p) \<noteq> None"
  shows "best_ok (set_levels b s (bt_insert (levels_of b s) p l))"
proof -
  have "bt_keys (bt_insert (levels_of b s) p l) = bt_keys (levels_of b s)"
    by (rule bt_keys_insert_old) (use assms best_ok_inv in \<open>auto simp: level_at_def\<close>)
  note best_key_cong [OF this]
  with assms show ?thesis
    by (cases s) (auto simp: best_ok_def bt_inv_insert)
qed

lemma best_ok_drop: "best_ok b \<Longrightarrow> best_ok (drop_level b s p)"
  by (cases s) (auto simp: best_ok_def bt_inv_remove Let_def)

lemma bt_first_key_insert:
  assumes "bt_inv m"
  shows "bt_first_key (bt_insert m k v) =
     Some (case bt_first_key m of None \<Rightarrow> k | Some c \<Rightarrow> min c k)"
  using assms
  by (auto simp: btree.first_key_eq_Some btree.first_key_eq_None bt_inv_insert bt_get_insert min_def
      split: option.split)

lemma bt_last_key_insert:
  assumes "bt_inv m"
  shows "bt_last_key (bt_insert m k v) =
     Some (case bt_last_key m of None \<Rightarrow> k | Some c \<Rightarrow> max c k)"
  using assms
  by (auto simp: btree.last_key_eq_Some btree.last_key_eq_None bt_inv_insert bt_get_insert max_def
      split: option.split)

lemma best_ok_insert:
  assumes "best_ok b"
  shows "best_ok (update_best_after_insert
    ((set_levels (b\<lparr>b_arena := a\<rparr>) s (bt_insert (levels_of b s) p l))\<lparr>b_order_index := m\<rparr>) s p)"
  using assms
  by (cases s) (auto simp: best_ok_def bt_inv_insert bt_first_key_insert bt_last_key_insert)

lemma best_ok_simps [simp]:
  "best_ok (b\<lparr>b_arena := a\<rparr>) = best_ok b"
  "best_ok (b\<lparr>b_order_index := m\<rparr>) = best_ok b"
  by (simp_all add: best_ok_def)

section \<open>Slots and keys\<close>

lemma book_repD:
  assumes "book_rep b L fs"
  shows "best_ok b" "pool.family (storage b) (level_at b) L" "placed (storage b) L"
    "indexed (storage b) (b_order_index b) L" "free_ok (b_arena b) fs" "live L \<inter> set fs = {}"
    "counted (b_arena b) (b_order_index b) fs"
  using assms by (simp_all add: book_rep_def)

lemma live_iff: "i \<in> live L \<longleftrightarrow> (\<exists>s p. i \<in> set (L (s, p)))"
  by (auto simp: live_def)

lemma liveI: "i \<in> set (L k) \<Longrightarrow> i \<in> live L"
  unfolding live_def by blast

lemma placedD: "placed st L \<Longrightarrow> i \<in> set (L (s, p)) \<Longrightarrow> n_side (node_at st i) = s \<and> n_price (node_at st i) = p"
  by (auto simp: placed_def)

text \<open>A slot belongs to the queue of one side and price only: the node itself says which.\<close>

lemma slot_key: "placed st L \<Longrightarrow> i \<in> set (L k) \<Longrightarrow> i \<in> set (L k') \<Longrightarrow> k = k'"
  by (cases k; cases k') (auto dest: placedD)

lemma queues_disjoint: "placed st L \<Longrightarrow> k \<noteq> k' \<Longrightarrow> set (L k) \<inter> set (L k') = {}"
  by (auto dest: slot_key)

lemma live_upd:
  assumes "placed st L"
  shows "live (L(k := xs)) = (live L - set (L k)) \<union> set xs"
proof (rule set_eqI)
  fix i
  have "i \<in> live (L(k := xs)) \<longleftrightarrow> i \<in> set xs \<or> (\<exists>k'. k' \<noteq> k \<and> i \<in> set (L k'))"
    by (auto simp: live_def split: if_splits simp del: split_paired_Ex)
  then show "i \<in> live (L(k := xs)) \<longleftrightarrow> i \<in> (live L - set (L k)) \<union> set xs"
    using slot_key [OF assms, of i k] by (auto simp: live_def simp del: split_paired_Ex)
qed

lemma book_rep_level:
  assumes "book_rep b L fs" and "level_at b k = Some l"
  shows "L k \<noteq> []" "level_ok (storage b) l (L k)"
  using pool.family_SomeD [OF book_repD(2) [OF assms(1)] assms(2)] by auto

lemma book_rep_bound: "book_rep b L fs \<Longrightarrow> length (storage b) < 2 ^ 32"
  by (rule storage_bound [OF book_repD(5)])

lemma live_in_range:
  assumes "book_rep b L fs" and "i \<in> live L"
  shows "unat i < length (storage b)"
proof -
  from assms(2) obtain k where k: "i \<in> set (L k)" by (auto simp: live_def)
  then obtain l where "level_at b k = Some l"
    using pool.family_dom [OF book_repD(2) [OF assms(1)], of k] by fastforce
  from book_rep_level(2) [OF assms(1) this] k show ?thesis by (rule level_ok_in_range)
qed

section \<open>Inserting\<close>

lemma indexed_insert:
  assumes ix: "indexed st m L" and new: "hm_get m (n_id (node_at st' i)) = None"
    and pl: "placed st L" and i: "i \<notin> live L" and L': "L' = L(k := L k @ [i])"
    and same: "\<And>j. j \<in> live L \<Longrightarrow> n_id (node_at st' j) = n_id (node_at st j)"
  shows "indexed st' (hm_insert m (n_id (node_at st' i)) i) L'"
proof -
  have lv: "live L' = insert i (live L)"
    unfolding L' live_upd [OF pl] by (auto simp: live_def)
  show ?thesis
    using assms unfolding indexed_def lv
    by (auto simp: hash.get_ins hash.invar_ins split: if_splits) (metis option.distinct(1))
qed

lemma placed_upd:
  assumes "placed st L" and "\<And>i. i \<in> set xs \<Longrightarrow> n_side (node_at st' i) = s \<and> n_price (node_at st' i) = p"
    and "\<And>j. j \<in> live L \<Longrightarrow>
      n_side (node_at st' j) = n_side (node_at st j) \<and> n_price (node_at st' j) = n_price (node_at st j)"
  shows "placed st' (L((s, p) := xs))"
  unfolding placed_def
proof (intro allI ballI)
  fix s' p' i
  assume "i \<in> set ((L((s, p) := xs)) (s', p'))"
  then show "n_side (node_at st' i) = s' \<and> n_price (node_at st' i) = p'"
    using assms(2) [of i] assms(3) [of i] placedD [OF assms(1), of i s' p']
    by (auto simp: live_iff split: if_splits)
qed

text \<open>The slot of the new order: allocated, filled and linked at the end of its level.\<close>

lemma alloc_push:
  assumes rep: "book_rep b L (i # fs)" and lv: "lv = (case level_at b k of None \<Rightarrow> price_level_new | Some l \<Rightarrow> l)"
  obtains a1 a' l' where "alloc (b_arena b) ord = Some (Inr i, a1)" and "push_back a1 lv i = Some (a', l')"
    and "level_ok (a_storage a') l' (L k @ [i])" and "touches (insert i (set (L k))) (storage b) (a_storage a')"
    and "order_at (a_storage a') i = ord" and "\<And>j. j \<noteq> i \<Longrightarrow> order_at (a_storage a') j = order_at (storage b) j"
    and "free_ok a' fs" and "a_count a' = a_count (b_arena b) + 1" and "a_capacity a' = a_capacity (b_arena b)"
proof -
  note R = book_repD [OF rep]
  let ?st = "storage b"
  let ?st1 = "?st[unat i := from_order ord]"
  let ?a1 = "(b_arena b)\<lparr>a_free_head := hdn fs ARENA_NULL, a_storage := ?st1, a_count := a_count (b_arena b) + 1\<rparr>"
  note al = alloc_ok(1,2) [OF R(5), where ord = ord] alloc_ok(3) [OF R(5)]
  have ni: "i \<notin> live L" using R(6) by auto
  have t1: "touches {i} ?st ?st1" by (rule touches_update) (use al(3) in auto)
  have "level_ok ?st1 lv (L k)"
  proof (cases "level_at b k")
    case None
    with pool.family_NoneD [OF R(2)] show ?thesis by (simp add: lv level_ok_new)
  next
    case (Some l)
    have "{i} \<inter> set (L k) = {}" using ni by (auto dest: liveI)
    with book_rep_level [OF rep Some] level_ok_frame [OF t1] Some show ?thesis by (simp add: lv)
  qed
  then obtain st' l' where pb: "push_back ?a1 lv i = Some (?a1\<lparr>a_storage := st'\<rparr>, l')"
    "level_ok st' l' (L k @ [i])" and rl: "relinks (insert i (set (L k))) ?st1 st'"
    using push_back_ok [of ?a1 lv "L k" i] ni al(3) book_rep_bound [OF rep] by (auto dest: liveI)
  have ord: "order_at st' i = ord" "\<And>j. j \<noteq> i \<Longrightarrow> order_at st' j = order_at ?st j"
    using relinks_order [OF rl] al(3) by (simp_all add: to_order_from_order node_at_update)
  have t: "touches (insert i (set (L k))) ?st st'"
    by (rule touches_trans [OF touches_mono [OF t1] relinks_touches [OF rl]]) auto
  have free: "free_ok (?a1\<lparr>a_storage := st'\<rparr>) fs"
    using free_ok_frame [OF al(2), of _ st'] relinks_touches [OF rl] R(6) free_okD(1) [OF R(5)] by (auto dest: liveI)
  show thesis by (rule that [OF al(1) pb(1)]) (use pb(2) ord t free in simp_all)
qed

text \<open>The book around it.\<close>

lemma link_rep:
  assumes rep: "book_rep b L (i # fs)" and k: "k = (o_side ord, o_price ord)"
    and new: "hm_get (b_order_index b) (o_id ord) = None"
    and l': "level_ok (a_storage a') l' (L k @ [i])" and t: "touches (insert i (set (L k))) (storage b) (a_storage a')"
    and ord: "order_at (a_storage a') i = ord" "\<And>j. j \<noteq> i \<Longrightarrow> order_at (a_storage a') j = order_at (storage b) j"
    and free: "free_ok a' fs" and cnt: "a_count a' = a_count (b_arena b) + 1"
  defines "b1 \<equiv> set_levels (b\<lparr>b_arena := a'\<rparr>) (o_side ord) (bt_insert (levels_of b (o_side ord)) (o_price ord) l')"
  defines "b' \<equiv> update_best_after_insert (b1\<lparr>b_order_index := hm_insert (b_order_index b) (o_id ord) i\<rparr>)
    (o_side ord) (o_price ord)"
  shows "book_rep b' (L(k := L k @ [i])) fs"
proof -
  note R = book_repD [OF rep]
  let ?st' = "a_storage a'"
  have ni: "i \<notin> live L" using R(6) by auto
  have fld_i: "n_id (node_at ?st' i) = o_id ord" "n_side (node_at ?st' i) = o_side ord" "n_price (node_at ?st' i) = o_price ord"
    using ord(1) by (auto simp: to_order_def)
  have fld_j: "n_id (node_at ?st' j) = n_id (node_at (storage b) j) \<and> n_side (node_at ?st' j) = n_side (node_at (storage b) j)
      \<and> n_price (node_at ?st' j) = n_price (node_at (storage b) j)" if "j \<in> live L" for j
    using order_at_eqD [OF ord(2), of j] ni that by auto
  have dis: "insert i (set (L k)) \<inter> set (L k') = {}" if "k' \<noteq> k" for k'
    using queues_disjoint [OF R(3), of k k'] ni that by (auto dest: liveI)
  show ?thesis
    unfolding book_rep_def
  proof (intro conjI)
    show "best_ok b'" unfolding b'_def b1_def by (rule best_ok_insert [OF R(1)])
    show "pool.family (storage b') (level_at b') (L(k := L k @ [i]))"
      using pool.family_upd [OF R(2) t dis l'] level_at_insert [of "b\<lparr>b_arena := a'\<rparr>"] by (simp add: b'_def b1_def k)
    show "placed (storage b') (L(k := L k @ [i]))"
      unfolding k by (rule placed_upd [OF R(3)])
        (use fld_i fld_j placedD [OF R(3)] in \<open>auto simp: liveI b'_def b1_def\<close>)
    show "indexed (storage b') (b_order_index b') (L(k := L k @ [i]))"
      using indexed_insert [OF R(4) _ R(3) ni refl, of ?st' k] new fld_j by (simp add: fld_i b'_def b1_def)
    show "free_ok (b_arena b') fs" using free by (simp add: b'_def b1_def)
    show "live (L(k := L k @ [i])) \<inter> set fs = {}"
      using R(6) free_okD(1) [OF R(5)] by (auto simp: live_upd [OF R(3)] dest: liveI)
    show "counted (b_arena b') (b_order_index b') fs"
      using R(7) new R(4) touches_length [OF t] cnt hash.length_keys_ins_new [of "b_order_index b" "o_id ord" i]
      by (simp add: counted_def hm_len_keys indexed_def b'_def b1_def)
  qed
qed

lemma insert_order_rep:
  assumes rep: "book_rep b L (i # fs)" and new: "hm_get (b_order_index b) (o_id ord) = None"
  defines "k \<equiv> (o_side ord, o_price ord)"
  obtains b' where "insert_order b ord = Some (Inr (), b')"
    and "book_rep b' (L(k := L k @ [i])) fs"
    and "order_at (storage b') i = ord"
    and "\<And>j. j \<noteq> i \<Longrightarrow> order_at (storage b') j = order_at (storage b) j"
    and "a_capacity (b_arena b') = a_capacity (b_arena b)"
proof -
  let ?lv = "case level_at b k of None \<Rightarrow> price_level_new | Some l \<Rightarrow> l"
  obtain a1 a' l' where al: "alloc (b_arena b) ord = Some (Inr i, a1)" "push_back a1 ?lv i = Some (a', l')"
    and a': "level_ok (a_storage a') l' (L k @ [i])" "touches (insert i (set (L k))) (storage b) (a_storage a')"
      "order_at (a_storage a') i = ord" "\<And>j. j \<noteq> i \<Longrightarrow> order_at (a_storage a') j = order_at (storage b) j"
      "free_ok a' fs" "a_count a' = a_count (b_arena b) + 1" "a_capacity a' = a_capacity (b_arena b)"
    using alloc_push [OF rep refl, of ord] by blast
  let ?b1 = "set_levels (b\<lparr>b_arena := a'\<rparr>) (o_side ord) (bt_insert (levels_of b (o_side ord)) (o_price ord) l')"
  let ?b' = "update_best_after_insert (?b1\<lparr>b_order_index := hm_insert (b_order_index b) (o_id ord) i\<rparr>) (o_side ord) (o_price ord)"
  have "insert_order b ord = Some (Inr (), ?b')"
    using new al by (simp add: insert_order_def level_at_def k_def Let_def)
  moreover have "book_rep ?b' (L(k := L k @ [i])) fs"
    unfolding k_def by (rule link_rep [OF rep refl new a'(1,2) [unfolded k_def] a'(3-6)])
  ultimately show thesis using that [of ?b'] a' by simp
qed

section \<open>Unlinking one order\<close>

lemma indexed_remove:
  assumes ix: "indexed st m L" and pl: "placed st L" and i: "L k = us @ i # vs" "i \<notin> set (us @ vs)"
    and same: "\<And>j. n_id (node_at st' j) = n_id (node_at st j)"
  shows "indexed st' (hm_remove m (n_id (node_at st i))) (L(k := us @ vs))"
proof -
  let ?d = "n_id (node_at st i)"
  have lv: "live (L(k := us @ vs)) = live L - {i}" and il: "i \<in> live L"
    using i liveI [of _ L k] by (auto simp: live_upd [OF pl])
  have inv: "hm_inv m" and get: "\<And>d j. hm_get m d = Some j \<longleftrightarrow> j \<in> live L \<and> n_id (node_at st j) = d"
    using ix by (auto simp: indexed_def)
  have "j = i" if "j \<in> live L" "n_id (node_at st j) = ?d" for j
    using get [of ?d j] get [of ?d i] that il by simp
  then have "hm_get (hm_remove m ?d) d = Some j \<longleftrightarrow> j \<in> live L - {i} \<and> n_id (node_at st' j) = d" for d j
    unfolding same by (cases "d = ?d") (auto simp: hash.get_del [OF inv] get)
  then show ?thesis
    unfolding indexed_def lv by (simp add: hash.invar_del [OF inv])
qed

text \<open>The levels after a slot has left one of them, which drops out of its map when it is empty.\<close>

lemma unlink_family:
  assumes rep: "book_rep b L fs" and rl: "relinks (set (L k)) (storage b) st'" and l': "level_ok st' l' xs"
    and eq: "lv = (level_at b)(k := if xs = [] then None else Some l')"
  shows "pool.family st' lv (L(k := xs))"
proof -
  note R = book_repD [OF rep]
  have dis: "set (L k) \<inter> set (L k') = {}" if "k' \<noteq> k" for k' using queues_disjoint [OF R(3)] that by blast
  show ?thesis
  proof (cases "xs = []")
    case True
    with eq have "lv = (level_at b)(k := None)" by simp
    with True show ?thesis using pool.family_drop [OF R(2) relinks_touches [OF rl] dis] by simp
  next
    case False
    with eq have lv: "lv = (level_at b)(k \<mapsto> l')" by simp
    show ?thesis by (rule pool.family_upd [OF R(2) relinks_touches [OF rl] dis l' False lv])
  qed
qed

lemma unlink_rep:
  assumes rep: "book_rep b L fs" and k: "k = (s, p)" "L k = us @ i # vs"
    and rl: "relinks (set (L k)) (storage b) (a_storage a')" and free: "free_ok a' (i # fs)"
    and cnt: "a_count a' = a_count (b_arena b) - 1"
    and l': "level_ok (a_storage a') l' (us @ vs)"
  defines "b1 \<equiv> (set_levels (b\<lparr>b_arena := a'\<rparr>) s (bt_insert (levels_of b s) p l'))
    \<lparr>b_order_index := hm_remove (b_order_index b) (n_id (node_at (storage b) i))\<rparr>"
  defines "b' \<equiv> (if l_count l' = 0 then drop_level b1 s p else b1)"
  shows "book_rep b' (L(k := us @ vs)) (i # fs)"
proof -
  note R = book_repD [OF rep]
  let ?m = "b_order_index b" and ?st' = "a_storage a'"
  have b': "b_arena b' = a'" "b_order_index b' = hm_remove ?m (n_id (node_at (storage b) i))"
    by (simp_all add: b'_def b1_def)
  obtain l where lk: "level_at b k = Some l"
    using pool.family_dom [OF R(2), of k] k by auto
  have i: "i \<notin> set (us @ vs)" "i \<in> live L"
    using level_okD(1) [OF book_rep_level(2) [OF rep lk]] k liveI [of i L k] by auto
  have empty: "l_count l' = 0 \<longleftrightarrow> us @ vs = []"
    using level_empty_iff [OF l'] book_rep_bound [OF rep] relinks_length [OF rl] by simp
  have lv1: "level_at b1 = (level_at b)(k \<mapsto> l')"
    using level_at_insert [of "b\<lparr>b_arena := a'\<rparr>" s p l'] by (simp add: b1_def k)
  have idx: "indexed ?st' (b_order_index b') (L(k := us @ vs))"
    unfolding b' by (rule indexed_remove [OF R(4,3) k(2) i(1) relinks_fields(1) [OF rl]])
  have found: "hm_get ?m (n_id (node_at (storage b) i)) \<noteq> None" "hm_inv ?m"
    using R(4) i by (auto simp: indexed_def)
  have best1: "best_ok b1"
    using best_ok_replace [of "b\<lparr>b_arena := a'\<rparr>" s p l'] R(1) lk k by (simp add: b1_def)
  show ?thesis
    unfolding book_rep_def b'(1)
  proof (intro conjI)
    show "best_ok b'" using best1 by (simp add: b'_def best_ok_drop)
    show "pool.family ?st' (level_at b') (L(k := us @ vs))"
      using empty lv1 k by (intro unlink_family [OF rep rl l']) (auto simp: b'_def level_at_drop)
    show "placed ?st' (L(k := us @ vs))"
      unfolding k(1) by (rule placed_upd [OF R(3)])
        (use placedD [OF R(3), of _ s p] k in \<open>auto simp: relinks_fields [OF rl]\<close>)
    show "indexed ?st' (b_order_index b') (L(k := us @ vs))" by (rule idx)
    show "free_ok a' (i # fs)" by (rule free)
    show "live (L(k := us @ vs)) \<inter> set (i # fs) = {}"
      using R(6) i(1) k(2) liveI [of _ L k] by (auto simp: live_upd [OF R(3)])
    show "counted a' (b_order_index b') (i # fs)"
      using R(7) cnt relinks_length [OF rl] hash.length_keys_del [OF found(2,1), symmetric]
      by (auto simp: counted_def hm_len_keys b'(2))
  qed
qed

section \<open>Cancelling\<close>

lemma cancel_order_rep:
  assumes rep: "book_rep b L fs" and id: "hm_get (b_order_index b) d = Some i"
  obtains b' s p us vs where "cancel_order b d = Some (Inr (order_at (storage b) i), b')"
    and "L (s, p) = us @ i # vs" and "book_rep b' (L((s, p) := us @ vs)) (i # fs)"
    and "\<And>j. order_at (storage b') j = order_at (storage b) j"
    and "n_id (node_at (storage b) i) = d"
    and "a_capacity (b_arena b') = a_capacity (b_arena b)"
proof -
  note R = book_repD [OF rep]
  let ?st = "storage b"
  from R(4) id have i: "i \<in> live L" "n_id (node_at ?st i) = d" by (auto simp: indexed_def)
  then obtain s p where sp: "i \<in> set (L (s, p))" by (auto simp: live_iff)
  then obtain us vs where k: "L (s, p) = us @ i # vs" by (metis split_list)
  obtain l where lk: "level_at b (s, p) = Some l"
    using pool.family_dom [OF R(2), of "(s, p)"] k by auto
  have bt: "bt_get (levels_of b s) p = Some l" using lk by (simp add: level_at_def)
  note len = book_rep_bound [OF rep]
  have r: "unat i < length ?st" by (rule live_in_range [OF rep i(1)])
  obtain st1 l' where rm: "remove (b_arena b) l i = Some ((b_arena b)\<lparr>a_storage := st1\<rparr>, l')"
    and l1: "level_ok st1 l' (us @ vs)" and rl1: "relinks (set (us @ vs)) ?st st1"
    using remove_ok [OF _ len] book_rep_level(2) [OF rep lk] k by metis
  have d: "distinct (us @ i # vs)" using level_okD(1) [OF book_rep_level(2) [OF rep lk]] k by simp
  have nf: "set (us @ i # vs) \<inter> set fs = {}" using R(6) liveI [of _ L "(s, p)"] k by auto
  obtain a2 where da: "dealloc ((b_arena b)\<lparr>a_storage := st1\<rparr>) i = Some a2" and f2: "free_ok a2 (i # fs)"
    and rl: "relinks (set (us @ i # vs)) ?st (a_storage a2)"
    and l2: "level_ok (a_storage a2) l' (us @ vs)"
    and a2: "a_count a2 = a_count (b_arena b) - 1" "a_capacity a2 = a_capacity (b_arena b)"
    using release_ok [OF R(5) rl1 l1 d nf r] by blast
  let ?b1 = "(set_levels (b\<lparr>b_arena := a2\<rparr>) s (bt_insert (levels_of b s) p l'))
    \<lparr>b_order_index := hm_remove (b_order_index b) (n_id (node_at ?st i))\<rparr>"
  let ?b' = "if l_count l' = 0 then drop_level ?b1 s p else ?b1"
  have "book_rep ?b' (L((s, p) := us @ vs)) (i # fs)"
    by (rule unlink_rep [OF rep refl k rl [folded k] f2 a2(1) l2])
  moreover have "cancel_order b d = Some (Inr (order_at ?st i), ?b')"
    using id r bt rm da i(2) placedD [OF R(3) sp]
    by (cases s) (simp_all add: cancel_order_def get_def to_order_def Let_def)
  ultimately show thesis
    using that [of ?b'] k relinks_order [OF rl] i(2) a2(2) by simp
qed

section \<open>Filling the front of a level\<close>

lemma set_quantity_rep:
  fixes q :: u64
  assumes rep: "book_rep b L fs" and lk: "level_at b (s, p) = Some l" and k: "L (s, p) = i # xs"
  defines "n \<equiv> (node_at (storage b) i)\<lparr>n_quantity := n_quantity (node_at (storage b) i) - q\<rparr>"
  shows "book_rep (set_levels (b\<lparr>b_arena := (b_arena b)\<lparr>a_storage := (storage b)[unat i := n]\<rparr>\<rparr>) s
      (bt_insert (levels_of b s) p (l\<lparr>l_qty := l_qty l - q\<rparr>))) L fs"
    (is "book_rep ?b' L fs")
proof -
  note R = book_repD [OF rep]
  let ?st = "storage b" and ?st' = "(storage b)[unat i := n]"
  have i: "i \<in> live L" using liveI [of i L "(s, p)"] k by simp
  have r: "unat i < length ?st" by (rule live_in_range [OF rep i])
  have t: "touches {i} ?st ?st'" by (rule touches_update) (use r in auto)
  have fld: "n_id (node_at ?st' j) = n_id (node_at ?st j) \<and> n_side (node_at ?st' j) = n_side (node_at ?st j)
      \<and> n_price (node_at ?st' j) = n_price (node_at ?st j)" for j
    using r by (auto simp: node_at_update n_def)
  have lv: "level_ok ?st' (l\<lparr>l_qty := l_qty l - q\<rparr>) (i # xs)"
    unfolding n_def by (rule set_quantity_ok) (use book_rep_level(2) [OF rep lk] k in simp)
  have dis: "{i} \<inter> set (L k') = {}" if "k' \<noteq> (s, p)" for k'
    using slot_key [OF R(3), of i "(s, p)" k'] k that by auto
  have eq: "level_at ?b' = (level_at b)((s, p) \<mapsto> l\<lparr>l_qty := l_qty l - q\<rparr>)"
    using level_at_insert [of "b\<lparr>b_arena := (b_arena b)\<lparr>a_storage := ?st'\<rparr>\<rparr>"] by simp
  have "pool.family ?st' (level_at ?b') (L((s, p) := i # xs))"
    by (rule pool.family_upd [OF R(2) t _ lv _ eq]) (use dis in auto)
  then have fam: "pool.family ?st' (level_at ?b') L" by (simp add: k [symmetric])
  show ?thesis
    unfolding book_rep_def
  proof (intro conjI)
    show "best_ok ?b'"
      using best_ok_replace [of "b\<lparr>b_arena := (b_arena b)\<lparr>a_storage := ?st'\<rparr>\<rparr>" s p] R(1) lk by simp
    show "pool.family (storage ?b') (level_at ?b') L" using fam by simp
    show "placed (storage ?b') L" using R(3) fld by (simp add: placed_def)
    show "indexed (storage ?b') (b_order_index ?b') L" using R(4) fld by (simp add: indexed_def)
    show "free_ok (b_arena ?b') fs"
      using free_ok_frame [OF R(5) t] R(6) i by auto
    show "counted (b_arena ?b') (b_order_index ?b') fs" using R(7) by (simp add: counted_def)
  qed (rule R(6))
qed

lemma front_of_level:
  assumes rep: "book_rep b L fs" and k: "L (s, p) = i # xs"
  obtains l where "bt_get (levels_of b s) p = Some l" and "level_at b (s, p) = Some l"
    and "l_head l = i" and "i \<noteq> ARENA_NULL" and "unat i < length (storage b)"
    and "get (b_arena b) i = Some (node_at (storage b) i)"
proof -
  obtain l where lk: "level_at b (s, p) = Some l"
    using pool.family_dom [OF book_repD(2) [OF rep], of "(s, p)"] k by auto
  note lv = book_rep_level(2) [OF rep lk]
  have r: "unat i < length (storage b)" using level_ok_in_range [OF lv] k by simp
  have "l_head l = i" using level_okD(3) [OF lv] k by simp
  with that lk r in_range_not_null [OF r book_rep_bound [OF rep]] show thesis
    by (simp add: level_at_def get_def)
qed

lemma reduce_partial_rep:
  assumes rep: "book_rep b L fs" and k: "L (s, p) = i # xs" and q: "q < n_quantity (node_at (storage b) i)"
  obtains b' where
    "reduce_front_quantity b s p q = Some (Inr (n_quantity (node_at (storage b) i) - q), b')"
    and "book_rep b' L fs"
    and "\<And>j. j \<noteq> i \<Longrightarrow> order_at (storage b') j = order_at (storage b) j"
    and "order_at (storage b') i = (order_at (storage b) i)\<lparr>o_quantity := n_quantity (node_at (storage b) i) - q\<rparr>"
    and "a_capacity (b_arena b') = a_capacity (b_arena b)"
proof -
  obtain l where l: "bt_get (levels_of b s) p = Some l" "level_at b (s, p) = Some l" "l_head l = i"
    "i \<noteq> ARENA_NULL" "unat i < length (storage b)" "get (b_arena b) i = Some (node_at (storage b) i)"
    using front_of_level [OF rep k] by blast
  let ?n = "(node_at (storage b) i)\<lparr>n_quantity := n_quantity (node_at (storage b) i) - q\<rparr>"
  let ?b' = "set_levels (b\<lparr>b_arena := (b_arena b)\<lparr>a_storage := (storage b)[unat i := ?n]\<rparr>\<rparr>) s
      (bt_insert (levels_of b s) p (l\<lparr>l_qty := l_qty l - q\<rparr>))"
  have ne: "n_quantity (node_at (storage b) i) - q \<noteq> 0" "\<not> n_quantity (node_at (storage b) i) < q"
    using q by auto
  have "reduce_front_quantity b s p q = Some (Inr (n_quantity (node_at (storage b) i) - q), ?b')"
    using l ne by (simp add: reduce_front_quantity_def get_mut_def Let_def)
  then show thesis
    using that [of ?b'] set_quantity_rep [OF rep l(2) k, of q] l(5)
    by (simp add: node_at_update to_order_def)
qed

lemma reduce_full_rep:
  assumes rep: "book_rep b L fs" and k: "L (s, p) = i # xs"
  obtains b' where
    "reduce_front_quantity b s p (n_quantity (node_at (storage b) i)) = Some (Inr 0, b')"
    and "book_rep b' (L((s, p) := xs)) (i # fs)"
    and "\<And>j. j \<noteq> i \<Longrightarrow> order_at (storage b') j = order_at (storage b) j"
    and "a_capacity (b_arena b') = a_capacity (b_arena b)"
proof -
  let ?q = "n_quantity (node_at (storage b) i)"
  obtain l where l: "bt_get (levels_of b s) p = Some l" "level_at b (s, p) = Some l" "l_head l = i"
    "i \<noteq> ARENA_NULL" "unat i < length (storage b)" "get (b_arena b) i = Some (node_at (storage b) i)"
    using front_of_level [OF rep k] by blast
  let ?n = "(node_at (storage b) i)\<lparr>n_quantity := ?q - ?q\<rparr>"
  let ?a1 = "(b_arena b)\<lparr>a_storage := (storage b)[unat i := ?n]\<rparr>" and ?l1 = "l\<lparr>l_qty := l_qty l - ?q\<rparr>"
  let ?b1 = "set_levels (b\<lparr>b_arena := ?a1\<rparr>) s (bt_insert (levels_of b s) p ?l1)"
  have rep1: "book_rep ?b1 L fs" by (rule set_quantity_rep [OF rep l(2) k])
  note R = book_repD [OF rep1] and len = book_rep_bound [OF rep1]
  have lk1: "level_at ?b1 (s, p) = Some ?l1" by (simp add: level_at_def bt_get_insert)
  have lv1: "level_ok (a_storage ?a1) ?l1 (i # xs)"
    using book_rep_level(2) [OF rep1 lk1] k by simp
  obtain st2 l2 where pf: "pop_front ?a1 ?l1 = Some (Some i, ?a1\<lparr>a_storage := st2\<rparr>, l2)"
    and lv2: "level_ok st2 l2 ([] @ xs)" and rl2: "relinks (set ([] @ xs)) (a_storage ?a1) st2"
    using pop_front_ok [OF lv1] len by auto
  have d: "distinct ([] @ i # xs)" using level_okD(1) [OF lv1] by simp
  have nf: "set ([] @ i # xs) \<inter> set fs = {}" using R(6) liveI [of _ L "(s, p)"] k by auto
  obtain a3 where da: "dealloc (?a1\<lparr>a_storage := st2\<rparr>) i = Some a3" and f3: "free_ok a3 (i # fs)"
    and rl: "relinks (set ([] @ i # xs)) (a_storage ?a1) (a_storage a3)"
    and l3: "level_ok (a_storage a3) l2 ([] @ xs)"
    and a3: "a_count a3 = a_count ?a1 - 1" "a_capacity a3 = a_capacity ?a1"
    using release_ok [OF _ rl2 lv2 d nf] R(5) l(5) by auto
  let ?b2 = "(set_levels (?b1\<lparr>b_arena := a3\<rparr>) s (bt_insert (levels_of ?b1 s) p l2))
    \<lparr>b_order_index := hm_remove (b_order_index ?b1) (n_id (node_at (storage ?b1) i))\<rparr>"
  let ?b' = "if l_count l2 = 0 then drop_level ?b2 s p else ?b2"
  have "book_rep ?b' (L((s, p) := [] @ xs)) (i # fs)"
    by (rule unlink_rep [OF rep1 refl _ _ f3 _ l3]) (use k rl a3 in simp_all)
  moreover have "reduce_front_quantity b s p ?q = Some (Inr 0, ?b')"
    using l pf da by (cases s) (simp_all add: reduce_front_quantity_def get_mut_def get_def Let_def)
  moreover have "order_at (storage ?b') j = order_at (storage b) j" if "j \<noteq> i" for j
    using relinks_order [OF rl, of j] l(5) that by (simp add: node_at_update)
  ultimately show thesis using that [of ?b'] a3(2) by simp
qed

section \<open>The abstract queues, slot by slot\<close>

text \<open>The prices of a side, best first, and the slots of its orders in priority order.\<close>

fun prices :: "order_book \<Rightarrow> side \<Rightarrow> i64 list" where
  "prices b Ask = bt_keys (b_asks b)"
| "prices b Bid = rev (bt_keys (b_bids b))"

definition slots :: "order_book \<Rightarrow> (side \<times> i64 \<Rightarrow> u32 list) \<Rightarrow> side \<Rightarrow> u32 list" where
  "slots b L s = concat (map (\<lambda>p. L (s, p)) (prices b s))"

lemma prices_sorted: "best_ok b \<Longrightarrow> sorted_wrt (\<lambda>p q. rank s p < rank s q) (prices b s)"
  by (cases s) (auto simp: best_ok_def bt_inv_def sorted_wrt_rev less_i64_def elim: sorted_wrt_mono_rel [rotated])

lemma set_prices: "set (prices b s) = set (bt_keys (levels_of b s))"
  by (cases s) auto

lemma in_prices:
  assumes "book_rep b L fs"
  shows "p \<in> set (prices b s) \<longleftrightarrow> L (s, p) \<noteq> []"
  using pool.family_dom [OF book_repD(2) [OF assms], of "(s, p)"] best_ok_inv [OF book_repD(1) [OF assms]]
  by (simp add: set_prices btree.in_keys level_at_def)

lemma at_price_concat:
  assumes "distinct ks" and "\<And>p i. i \<in> set (f p) \<Longrightarrow> o_price (g i) = p"
  shows "at_price p (map g (concat (map f ks))) = (if p \<in> set ks then map g (f p) else [])"
proof -
  have one: "at_price p (map g (f q)) = (if p = q then map g (f q) else [])" for q
    using assms(2) by (auto simp: at_price_def filter_empty_conv intro!: filter_True)
  show ?thesis using assms(1) by (induction ks) (auto simp: one)
qed

lemma in_priority_concat:
  assumes "sorted_wrt (\<lambda>p q. rank s p < rank s q) ks" and "\<And>p i. i \<in> set (f p) \<Longrightarrow> o_price (g i) = p"
  shows "in_priority s (map g (concat (map f ks)))"
proof -
  have one: "in_priority s (map g (f q))" for q
    using assms(2) [of _ q] by (auto simp: in_priority_def sorted_wrt_map intro: sorted_wrt_mono_rel [of _ "\<lambda>_ _. True"])
  show ?thesis
    using assms(1) by (induction ks) (auto simp: one in_priority_append dest!: assms(2) intro: less_imp_le)
qed

lemma slots_view:
  assumes rep: "book_rep b L fs" and v: "views (storage b) L A"
  shows "A s = map (order_at (storage b)) (slots b L s)"
proof (rule priority_unique)
  note R = book_repD [OF rep]
  have price: "o_price (order_at (storage b) i) = p" if "i \<in> set (L (s, p))" for i p
    using placedD [OF R(3) that] by (simp add: to_order_def)
  have "distinct (prices b s)"
    using R(1) by (cases s) (auto simp: best_ok_def bt_inv_distinct)
  then show "at_price p (A s) = at_price p (map (order_at (storage b)) (slots b L s))" for p
    using v in_prices [OF rep, of p s] price
    unfolding slots_def by (subst at_price_concat) (auto simp: views_def)
  show "in_priority s (map (order_at (storage b)) (slots b L s))"
    unfolding slots_def by (rule in_priority_concat [OF prices_sorted [OF R(1)] price])
  show "in_priority s (A s)" using v by (simp add: views_def)
qed

lemma set_slots: "book_rep b L fs \<Longrightarrow> set (slots b L s) = (\<Union>p. set (L (s, p)))"
  using in_prices [of b L fs _ s] by (auto simp: slots_def) (metis empty_iff list.set(1))

lemma live_slots: "book_rep b L fs \<Longrightarrow> live L = set (slots b L Ask) \<union> set (slots b L Bid)"
  by (auto simp: set_slots live_iff) (metis side.exhaust)+

lemma distinct_slots:
  assumes rep: "book_rep b L fs"
  shows "distinct (slots b L Ask @ slots b L Bid)"
proof -
  note R = book_repD [OF rep]
  have one: "distinct (L k)" for k
    using pool.family_NoneD [OF R(2), of k] pool.family_SomeD [OF R(2), of k]
    by (cases "level_at b k") (auto dest: level_okD(1))
  have con: "distinct ks \<Longrightarrow> distinct (concat (map (\<lambda>p. L (s, p)) ks))" for ks s
    by (induction ks) (auto simp: one dest: slot_key [OF R(3)])
  have "distinct (slots b L s)" for s
    unfolding slots_def using R(1) by (intro con) (cases s; auto simp: best_ok_def bt_inv_distinct)
  then show ?thesis
    by (auto simp: set_slots [OF rep] dest: slot_key [OF R(3)])
qed

lemma inj_ids: "indexed st m L \<Longrightarrow> inj_on (\<lambda>i. n_id (node_at st i)) (live L)"
  unfolding indexed_def inj_on_def by (metis option.inject)

lemma resting_slots:
  assumes "book_rep b L fs" and "views (storage b) L A"
  shows "resting A = map (order_at (storage b)) (slots b L Ask @ slots b L Bid)"
  using slots_view [OF assms] by (simp add: resting_def)

lemma ids_index:
  assumes rep: "book_rep b L fs" and v: "views (storage b) L A"
  shows "d \<in> set (ids A) \<longleftrightarrow> hm_get (b_order_index b) d \<noteq> None"
proof -
  have "set (ids A) = (\<lambda>i. n_id (node_at (storage b) i)) ` live L"
    unfolding ids_def resting_slots [OF rep v] live_slots [OF rep] by (auto simp: to_order_def)
  then show ?thesis using book_repD(4) [OF rep] by (auto simp: indexed_def)
qed

section \<open>What a represented book looks like\<close>

lemma represents_abook_ok:
  assumes "represents b A"
  shows "abook_ok A"
proof -
  from assms obtain L fs where rep: "book_rep b L fs" and v: "views (storage b) L A"
    by (auto simp: represents_def)
  note R = book_repD [OF rep]
  have "distinct (ids A)"
    using distinct_slots [OF rep] inj_on_subset [OF inj_ids [OF R(4)]] live_slots [OF rep]
    unfolding ids_def resting_slots [OF rep v] by (auto simp: distinct_map comp_def to_order_def)
  moreover have "o_side x = s" if "x \<in> set (A s)" for x s
    using that placedD [OF R(3)] unfolding slots_view [OF rep v]
    by (auto simp: set_slots [OF rep] to_order_def)
  ultimately show ?thesis using v by (auto simp: abook_ok_def views_def)
qed

lemma represents_count:
  assumes "represents b A"
  shows "order_count b = length (resting A)"
proof -
  from assms obtain L fs where rep: "book_rep b L fs" and v: "views (storage b) L A"
    by (auto simp: represents_def)
  have "hm_inv (b_order_index b)" using book_repD(4) [OF rep] by (simp add: indexed_def)
  moreover from this have "set (hm_keys (b_order_index b)) = set (ids A)"
    using ids_index [OF rep v] by (auto simp: hash.set_keys)
  ultimately have "hm_len (b_order_index b) = card (set (ids A))"
    by (simp add: hm_len_keys hash.length_keys)
  also have "\<dots> = length (ids A)"
    using represents_abook_ok [OF assms] by (simp add: abook_ok_def distinct_card)
  finally show ?thesis by (simp add: order_count_def ids_def)
qed

section \<open>Counts and totals\<close>

lemma unat_sum_list: "unat (sum_list (xs :: 'a::len word list)) = sum_list (map unat xs) mod 2 ^ LENGTH('a)"
  by (induction xs) (simp_all add: unat_word_ariths mod_simps)

lemma level_totals_represents:
  assumes "represents b A"
  shows "case bt_get (levels_of b s) p of
      None \<Rightarrow> at_price p (A s) = []
    | Some l \<Rightarrow> at_price p (A s) \<noteq> [] \<and> unat (l_count l) = length (at_price p (A s)) \<and>
        unat (l_qty l) = sum_list (map (\<lambda>x. unat (o_quantity x)) (at_price p (A s))) mod 2 ^ 64"
    and "unat (a_count (b_arena b)) = order_count b"
proof -
  from assms obtain L fs where rep: "book_rep b L fs" and v: "views (storage b) L A"
    by (auto simp: represents_def)
  note R = book_repD [OF rep] and len = book_rep_bound [OF rep]
  have at: "at_price p (A s) = map (order_at (storage b)) (L (s, p))" using v by (simp add: views_def)
  have cnt: "hm_len (b_order_index b) \<le> length (storage b)" "a_count (b_arena b) = of_nat (hm_len (b_order_index b))"
    using R(7) by (auto simp: counted_def)
  then show "unat (a_count (b_arena b)) = order_count b"
    using len by (simp add: order_count_def unat_of_nat_id)
  show "case bt_get (levels_of b s) p of
      None \<Rightarrow> at_price p (A s) = []
    | Some l \<Rightarrow> at_price p (A s) \<noteq> [] \<and> unat (l_count l) = length (at_price p (A s)) \<and>
        unat (l_qty l) = sum_list (map (\<lambda>x. unat (o_quantity x)) (at_price p (A s))) mod 2 ^ 64"
  proof (cases "bt_get (levels_of b s) p")
    case None
    then show ?thesis using pool.family_NoneD [OF R(2), of "(s, p)"] at by (simp add: level_at_def)
  next
    case (Some l)
    then have l: "L (s, p) \<noteq> []" "level_ok (storage b) l (L (s, p))"
      using pool.family_SomeD [OF R(2), of "(s, p)" l] by (auto simp: level_at_def)
    have "length (L (s, p)) \<le> length (storage b)" using level_ok_length [OF l(2)] .
    then have "unat (l_count l) = length (L (s, p))"
      using l(2) len by (simp add: level_ok_def unat_of_nat_id)
    moreover have "unat (l_qty l) = sum_list (map (\<lambda>i. unat (n_quantity (node_at (storage b) i))) (L (s, p))) mod 2 ^ 64"
      using l(2) unat_sum_list [where 'a = 64] by (simp add: level_ok_def comp_def)
    ultimately show ?thesis using Some l(1) at by (simp add: comp_def to_order_def)
  qed
qed

definition capacity_of :: "order_book \<Rightarrow> nat" where
  "capacity_of b = unat (a_capacity (b_arena b))"

section \<open>Walking the levels\<close>

lemma walk_segment:
  "dseg (a_storage a) p xs ARENA_NULL \<Longrightarrow> length (a_storage a) < 2 ^ 32 \<Longrightarrow>
   walk a (hdn xs ARENA_NULL) orders = Some (orders @ map (order_at (a_storage a)) xs)"
proof (induction xs arbitrary: p orders)
  case Nil
  then show ?case by (simp add: walk.simps)
next
  case (Cons x xs)
  then have "unat x < length (a_storage a)" "x \<noteq> ARENA_NULL"
    using in_range_not_null [of x "a_storage a"] by auto
  with Cons.prems Cons.IH [of x] show ?case by (subst walk.simps) (simp add: get_def)
qed

lemma walk_levels_concat:
  assumes "length (a_storage a) < 2 ^ 32" and "\<And>p l. (p, l) \<in> set m \<Longrightarrow> level_ok (a_storage a) l (f p)"
  shows "walk_levels a (map snd m) orders =
    Some (orders @ map (order_at (a_storage a)) (concat (map f (map fst m))))"
  using assms(2)
proof (induction m arbitrary: orders)
  case (Cons e m)
  obtain p l where e: "e = (p, l)" by (cases e)
  then have lv: "level_ok (a_storage a) l (f p)" using Cons.prems by simp
  have "walk a (l_head l) orders = Some (orders @ map (order_at (a_storage a)) (f p))"
    using walk_segment [OF level_okD(2) [OF lv] assms(1)] level_okD(3) [OF lv] by simp
  with Cons e show ?case by simp
qed simp

lemma all_resting_orders_view:
  assumes "represents b A"
  shows "all_resting_orders b = Some (resting A)"
proof -
  from assms obtain L fs where rep: "book_rep b L fs" and v: "views (storage b) L A"
    by (auto simp: represents_def)
  note R = book_repD [OF rep] and len = book_rep_bound [OF rep]
  have lv: "level_ok (storage b) l (L (s, p))" if "(p, l) \<in> set (levels_of b s)" for s p l
    using that book_rep_level(2) [OF rep, of "(s, p)" l] bt_inv_distinct [OF best_ok_inv [OF R(1), of s]]
    by (simp add: level_at_def bt_get_def bt_keys_def)
  have asks: "walk_levels (b_arena b) (bt_values (b_asks b)) [] =
      Some ([] @ map (order_at (storage b)) (slots b L Ask))"
    unfolding bt_values_def slots_def prices.simps bt_keys_def
    by (rule walk_levels_concat [OF len]) (use lv [of _ _ Ask] in simp)
  have bids: "walk_levels (b_arena b) (rev (bt_values (b_bids b))) os =
      Some (os @ map (order_at (storage b)) (slots b L Bid))" for os
    unfolding bt_values_def slots_def prices.simps bt_keys_def rev_map
    by (rule walk_levels_concat [OF len]) (use lv [of _ _ Bid] in simp)
  show ?thesis
    by (simp add: all_resting_orders_def asks bids resting_slots [OF rep v])
qed

lemma side_of_resting:
  assumes "abook_ok A"
  shows "A s = filter (\<lambda>x. o_side x = s) (resting A)"
  using assms by (cases s) (auto simp: abook_ok_def resting_def filter_empty_conv intro!: filter_True [symmetric])

lemma represents_unique:
  assumes "represents b A" and "represents b A'"
  shows "A = A'"
proof
  fix s
  have "resting A = resting A'"
    using all_resting_orders_view [OF assms(1)] all_resting_orders_view [OF assms(2)] by simp
  then show "A s = A' s"
    using side_of_resting [OF represents_abook_ok [OF assms(1)]]
      side_of_resting [OF represents_abook_ok [OF assms(2)]] by metis
qed

section \<open>The operations on the abstract book\<close>

fun best_of :: "order_book \<Rightarrow> side \<Rightarrow> i64 option" where
  "best_of b Bid = best_bid b"
| "best_of b Ask = best_ask b"

lemma best_of_prices:
  "book_rep b L fs \<Longrightarrow> best_of b s = (case prices b s of [] \<Rightarrow> None | p # _ \<Rightarrow> Some p)"
  using book_repD(1) [of b L fs]
  by (cases s) (simp_all add: best_ok_def best_bid_def best_ask_def bt_first_key_def bt_last_key_def)

lemma best_represents:
  assumes "represents b A"
  shows "best_of b s = best_price (A s)"
proof -
  from assms obtain L fs where rep: "book_rep b L fs" and v: "views (storage b) L A"
    by (auto simp: represents_def)
  show ?thesis
  proof (cases "prices b s")
    case Nil
    then show ?thesis
      by (simp add: best_of_prices [OF rep] slots_view [OF rep v] slots_def best_price_def)
  next
    case (Cons p ps)
    then obtain i js where k: "L (s, p) = i # js"
      using in_prices [OF rep, of p s] by (auto simp: neq_Nil_conv)
    have "n_price (node_at (storage b) i) = p"
      using placedD [OF book_repD(3) [OF rep], of i s p] k by simp
    then show ?thesis
      by (simp add: best_of_prices [OF rep] slots_view [OF rep v] slots_def best_price_def Cons k to_order_def)
  qed
qed

lemma peek_represents:
  assumes "represents b A"
  obtains n where "peek_front b s p = Some n"
    and "map_option to_order n = (case at_price p (A s) of [] \<Rightarrow> None | x # _ \<Rightarrow> Some x)"
proof -
  from assms obtain L fs where rep: "book_rep b L fs" and v: "views (storage b) L A"
    by (auto simp: represents_def)
  have at: "at_price p (A s) = map (order_at (storage b)) (L (s, p))" using v by (simp add: views_def)
  show thesis
  proof (cases "L (s, p)")
    case Nil
    then have "bt_get (levels_of b s) p = None"
      using pool.family_dom [OF book_repD(2) [OF rep], of "(s, p)"] by (simp add: level_at_def)
    then show thesis using that [of None] Nil at by (simp add: peek_front_def)
  next
    case (Cons i xs)
    obtain l where "bt_get (levels_of b s) p = Some l" "l_head l = i" "i \<noteq> ARENA_NULL"
      "get (b_arena b) i = Some (node_at (storage b) i)"
      using front_of_level [OF rep Cons] by blast
    then show thesis
      using that [of "Some (node_at (storage b) i)"] Cons at by (simp add: peek_front_def)
  qed
qed

lemma views_insert:
  assumes v: "views st L A" and i: "i \<notin> live L" and ord: "order_at st' i = ord"
    and same: "\<And>j. j \<noteq> i \<Longrightarrow> order_at st' j = order_at st j"
  shows "views st' (L((o_side ord, o_price ord) := L (o_side ord, o_price ord) @ [i]))
    (A(o_side ord := enqueue ord (A (o_side ord))))"
proof -
  have "map (order_at st') (L k) = map (order_at st) (L k)" for k
    by (rule map_cong [OF refl]) (use i same liveI [of _ L k] in metis)
  then show ?thesis
    using v ord by (auto simp: views_def in_priority_enqueue at_price_enqueue)
qed

lemma insert_represents:
  assumes "represents b A"
  shows "o_id ord \<in> set (ids A) \<Longrightarrow> insert_order b ord = Some (Inl (DuplicateOrderId (o_id ord)), b)"
    and "o_id ord \<notin> set (ids A) \<Longrightarrow> length (resting A) = capacity_of b \<Longrightarrow>
      insert_order b ord = Some (Inl ArenaFull, b)"
    and "o_id ord \<notin> set (ids A) \<Longrightarrow> length (resting A) < capacity_of b \<Longrightarrow>
      \<exists>b'. insert_order b ord = Some (Inr (), b') \<and> capacity_of b' = capacity_of b \<and>
        represents b' (A(o_side ord := enqueue ord (A (o_side ord))))"
    and "length (resting A) \<le> capacity_of b"
proof -
  from assms obtain L fs where rep: "book_rep b L fs" and v: "views (storage b) L A"
    by (auto simp: represents_def)
  note R = book_repD [OF rep] and ix = ids_index [OF rep v, of "o_id ord"]
  have cap: "length (resting A) + length fs = capacity_of b"
    using R(7) represents_count [OF assms] free_okD(4) [OF R(5)]
    by (simp add: counted_def order_count_def capacity_of_def)
  then show "length (resting A) \<le> capacity_of b" by simp
  show "o_id ord \<in> set (ids A) \<Longrightarrow> insert_order b ord = Some (Inl (DuplicateOrderId (o_id ord)), b)"
    using ix by (simp add: insert_order_def)
  show "insert_order b ord = Some (Inl ArenaFull, b)"
    if "o_id ord \<notin> set (ids A)" "length (resting A) = capacity_of b"
    using ix that cap alloc_full [of "b_arena b" ord] R(5) by (simp add: insert_order_def Let_def)
  show "\<exists>b'. insert_order b ord = Some (Inr (), b') \<and> capacity_of b' = capacity_of b \<and>
        represents b' (A(o_side ord := enqueue ord (A (o_side ord))))"
    if new: "o_id ord \<notin> set (ids A)" "length (resting A) < capacity_of b"
  proof -
    obtain i fs' where fs: "fs = i # fs'" using new(2) cap by (cases fs) auto
    have ni: "i \<notin> live L" using R(6) fs by auto
    show ?thesis
      using insert_order_rep [OF rep [unfolded fs], of ord] ix new(1) views_insert [OF v ni]
      unfolding represents_def capacity_of_def by (metis not_None_eq)
  qed
qed

lemma views_cancel:
  assumes rep: "book_rep b L fs" and v: "views (storage b) L A" and k: "L (s, p) = us @ i # vs"
    and d: "n_id (node_at (storage b) i) = d" and same: "\<And>j. order_at st' j = order_at (storage b) j"
  shows "views st' (L((s, p) := us @ vs)) (A(s := without_id d (A s)))"
proof -
  note R = book_repD [OF rep]
  obtain l where lk: "level_at b (s, p) = Some l"
    using pool.family_dom [OF R(2), of "(s, p)"] k by auto
  have i: "i \<notin> set us" "i \<notin> set vs"
    using level_okD(1) [OF book_rep_level(2) [OF rep lk]] k by auto
  have ne: "n_id (node_at (storage b) j) \<noteq> d" if "j \<in> set (L k')" "j \<noteq> i" for j k'
    using inj_onD [OF inj_ids [OF R(4)], of j i] that d k liveI [of j L k'] liveI [of i L "(s, p)"] by auto
  have keep: "without_id d (map (order_at (storage b)) xs) = map (order_at (storage b)) xs"
    if "\<And>j. j \<in> set xs \<Longrightarrow> n_id (node_at (storage b) j) \<noteq> d" for xs
    using that by (auto simp: without_id_def to_order_def intro!: filter_True)
  have "at_price p' (without_id d (A s)) = map (order_at st') ((L((s, p) := us @ vs)) (s, p'))" for p'
  proof (cases "p' = p")
    case True
    have "without_id d (map (order_at (storage b)) us) = map (order_at (storage b)) us"
      "without_id d (map (order_at (storage b)) vs) = map (order_at (storage b)) vs"
      using ne [of _ "(s, p)"] i k by (auto intro!: keep)
    moreover have "at_price p (A s) = map (order_at (storage b)) (us @ i # vs)"
      using v k by (simp add: views_def)
    moreover have "o_id (order_at (storage b) i) = d" using d by (simp add: to_order_def)
    ultimately show ?thesis
      using True same by (simp add: at_price_without_id)
  next
    case False
    then have "i \<notin> set (L (s, p'))" using slot_key [OF R(3), of i "(s, p)" "(s, p')"] k by auto
    then have "without_id d (map (order_at (storage b)) (L (s, p'))) = map (order_at (storage b)) (L (s, p'))"
      using ne by (intro keep) blast
    then show ?thesis using False v same by (simp add: at_price_without_id views_def)
  qed
  then show ?thesis
    using v same by (auto simp: views_def in_priority_without_id)
qed

lemma cancel_represents:
  assumes r: "represents b A"
  shows "d \<notin> set (ids A) \<Longrightarrow> cancel_order b d = Some (Inl (OrderNotFound d), b)"
    and "d \<in> set (ids A) \<Longrightarrow>
      \<exists>b' x. cancel_order b d = Some (Inr x, b') \<and> x \<in> set (A (o_side x)) \<and> o_id x = d \<and>
        capacity_of b' = capacity_of b \<and>
        represents b' (A(o_side x := without_id d (A (o_side x))))"
proof -
  from r obtain L fs where rep: "book_rep b L fs" and v: "views (storage b) L A"
    by (auto simp: represents_def)
  note ix = ids_index [OF rep v, of d]
  show "d \<notin> set (ids A) \<Longrightarrow> cancel_order b d = Some (Inl (OrderNotFound d), b)"
    using ix by (simp add: cancel_order_def)
  assume "d \<in> set (ids A)"
  then obtain i where i: "hm_get (b_order_index b) d = Some i" using ix by auto
  obtain b' s p us vs where c: "cancel_order b d = Some (Inr (order_at (storage b) i), b')"
    and k: "L (s, p) = us @ i # vs" and rep': "book_rep b' (L((s, p) := us @ vs)) (i # fs)"
    and same: "\<And>j. order_at (storage b') j = order_at (storage b) j"
    and d: "n_id (node_at (storage b) i) = d" and cap: "a_capacity (b_arena b') = a_capacity (b_arena b)"
    using cancel_order_rep [OF rep i] by blast
  let ?x = "order_at (storage b) i"
  have x: "o_side ?x = s" "o_id ?x = d" "o_price ?x = p"
    using placedD [OF book_repD(3) [OF rep], of i s p] k d by (auto simp: to_order_def)
  have "?x \<in> set (at_price p (A s))" using v k by (simp add: views_def)
  then have "?x \<in> set (A (o_side ?x))" by (simp add: set_at_price x)
  moreover have "represents b' (A(o_side ?x := without_id d (A (o_side ?x))))"
    unfolding represents_def x using rep' views_cancel [OF rep v k d same] by blast
  ultimately show "\<exists>b' x. cancel_order b d = Some (Inr x, b') \<and> x \<in> set (A (o_side x)) \<and> o_id x = d \<and>
      capacity_of b' = capacity_of b \<and> represents b' (A(o_side x := without_id d (A (o_side x))))"
    using c x cap by (auto simp: capacity_of_def)
qed

lemma views_fill:
  assumes v: "views st L A" and k: "L (s, p) = i # xs"
    and same: "\<And>j. j \<noteq> i \<Longrightarrow> order_at st' j = order_at st j" and i: "\<And>k'. k' \<noteq> (s, p) \<Longrightarrow> i \<notin> set (L k')" "i \<notin> set xs"
    and ks: "ks = (if o_quantity (order_at st i) = q then xs else i # xs)"
    and x': "o_quantity (order_at st i) \<noteq> q \<Longrightarrow>
      order_at st' i = (order_at st i)\<lparr>o_quantity := o_quantity (order_at st i) - q\<rparr>"
  shows "views st' (L((s, p) := ks)) (A(s := fill_first p q (A s)))"
proof -
  have at: "at_price p (A s) = order_at st i # map (order_at st) xs" using v k by (simp add: views_def)
  have keep: "map (order_at st') (L k') = map (order_at st) (L k')" if "k' \<noteq> (s, p)" for k'
    by (rule map_cong [OF refl]) (use i(1) [OF that] same in metis)
  have keepxs: "map (order_at st') xs = map (order_at st) xs"
    by (rule map_cong [OF refl]) (use i(2) same in metis)
  have "at_price p' (fill_first p q (A s)) = map (order_at st') ((L((s, p) := ks)) (s, p'))" for p'
    using v x' keep [of "(s, p')"] keepxs
    by (auto simp: at_price_fill_first [OF at] views_def ks)
  moreover have "at_price p' (A s') = map (order_at st') (L (s', p'))" if "s' \<noteq> s" for s' p'
    using v keep [of "(s', p')"] that by (simp add: views_def)
  ultimately show ?thesis
    using v by (auto simp: views_def in_priority_fill_first)
qed

lemma views_front:
  assumes "views (storage b) L A" and "at_price p (A s) = x # xs"
  obtains i js where "L (s, p) = i # js" and "x = order_at (storage b) i"
  using assms by (cases "L (s, p)") (auto simp: views_def)

text \<open>A fill of the front order, whole or in part.\<close>

lemma fill_front_represents:
  assumes rep: "book_rep b L fs" and v: "views (storage b) L A"
    and at: "at_price p (A s) = x # xs" and q: "q \<le> o_quantity x"
  shows "\<exists>b'. reduce_front_quantity b s p q = Some (Inr (o_quantity x - q), b') \<and>
    capacity_of b' = capacity_of b \<and> represents b' (A(s := fill_first p q (A s)))"
proof -
  note R = book_repD [OF rep]
  obtain i js where k: "L (s, p) = i # js" and x: "x = order_at (storage b) i" by (rule views_front [OF v at])
  have qx: "o_quantity x = n_quantity (node_at (storage b) i)" by (simp add: x to_order_def)
  obtain l where lk: "level_at b (s, p) = Some l" using pool.family_dom [OF R(2), of "(s, p)"] k by auto
  have i: "i \<notin> set (L k')" if "k' \<noteq> (s, p)" for k' using slot_key [OF R(3), of i "(s, p)" k'] k that by auto
  have i': "i \<notin> set js" using level_okD(1) [OF book_rep_level(2) [OF rep lk]] k by auto
  show ?thesis
  proof (cases "o_quantity x = q")
    case True
    obtain b' where b': "reduce_front_quantity b s p q = Some (Inr 0, b')"
      "book_rep b' (L((s, p) := js)) (i # fs)" "\<And>j. j \<noteq> i \<Longrightarrow> order_at (storage b') j = order_at (storage b) j"
      "a_capacity (b_arena b') = a_capacity (b_arena b)"
      using reduce_full_rep [OF rep k] True qx by metis
    have "views (storage b') (L((s, p) := js)) (A(s := fill_first p q (A s)))"
      by (rule views_fill [OF v k b'(3) i i']) (use True x in auto)
    then show ?thesis using b' True by (auto simp: represents_def capacity_of_def)
  next
    case False
    with q qx have lt: "q < n_quantity (node_at (storage b) i)" by simp
    obtain b' where b': "reduce_front_quantity b s p q = Some (Inr (o_quantity x - q), b')"
      "book_rep b' L fs" "\<And>j. j \<noteq> i \<Longrightarrow> order_at (storage b') j = order_at (storage b) j"
      "order_at (storage b') i = x\<lparr>o_quantity := o_quantity x - q\<rparr>" "a_capacity (b_arena b') = a_capacity (b_arena b)"
      using reduce_partial_rep [OF rep k lt] x qx by metis
    have "views (storage b') (L((s, p) := i # js)) (A(s := fill_first p q (A s)))"
      by (rule views_fill [OF v k b'(3) i i']) (use False x b'(4) in auto)
    moreover have "L((s, p) := i # js) = L" using k by (simp add: fun_upd_idem)
    ultimately show ?thesis using b' by (auto simp: represents_def capacity_of_def)
  qed
qed

lemma reduce_represents:
  assumes r: "represents b A"
  shows "at_price p (A s) = [] \<Longrightarrow> reduce_front_quantity b s p q = Some (Inl (PriceLevelNotFound p), b)"
    and "at_price p (A s) = x # xs \<Longrightarrow> o_quantity x < q \<Longrightarrow>
      reduce_front_quantity b s p q = Some (Inl (FillExceedsQuantity (o_quantity x) q), b)"
    and "at_price p (A s) = x # xs \<Longrightarrow> q \<le> o_quantity x \<Longrightarrow>
      \<exists>b'. reduce_front_quantity b s p q = Some (Inr (o_quantity x - q), b') \<and>
        capacity_of b' = capacity_of b \<and> represents b' (A(s := fill_first p q (A s)))"
proof -
  from r obtain L fs where rep: "book_rep b L fs" and v: "views (storage b) L A"
    by (auto simp: represents_def)
  have at: "at_price p (A s) = map (order_at (storage b)) (L (s, p))" using v by (simp add: views_def)
  show "reduce_front_quantity b s p q = Some (Inl (PriceLevelNotFound p), b)" if "at_price p (A s) = []"
    using that at pool.family_dom [OF book_repD(2) [OF rep], of "(s, p)"]
    by (simp add: reduce_front_quantity_def level_at_def)
  show "reduce_front_quantity b s p q = Some (Inl (FillExceedsQuantity (o_quantity x) q), b)"
    if at_x: "at_price p (A s) = x # xs" and lt: "o_quantity x < q"
  proof -
    obtain i js where k: "L (s, p) = i # js" and x: "x = order_at (storage b) i" by (rule views_front [OF v at_x])
    obtain l where "bt_get (levels_of b s) p = Some l" "l_head l = i" "i \<noteq> ARENA_NULL"
      "get (b_arena b) i = Some (node_at (storage b) i)"
      using front_of_level [OF rep k] by blast
    with lt x show ?thesis by (simp add: reduce_front_quantity_def to_order_def Let_def)
  qed
  show "\<exists>b'. reduce_front_quantity b s p q = Some (Inr (o_quantity x - q), b') \<and>
      capacity_of b' = capacity_of b \<and> represents b' (A(s := fill_first p q (A s)))"
    if "at_price p (A s) = x # xs" "q \<le> o_quantity x"
    by (rule fill_front_represents [OF rep v that])
qed

lemma new_represents: "represents (book_with_capacity c) (\<lambda>_. [])"
proof -
  let ?b = "book_with_capacity c"
  have lv: "level_at ?b = (\<lambda>_. None)"
    by (auto simp: level_at_def book_with_capacity_def bt_get_def fun_eq_iff) (metis levels_of.simps map_of.simps(1) order_book.select_convs(1,2) side.exhaust)
  have "book_rep ?b (\<lambda>_. []) (map of_nat [0..<unat c])"
    unfolding book_rep_def lv
    using arena_new_ok [of c] free_okD(4) [OF arena_new_ok, of c]
    by (auto simp: pool.family_def best_ok_def placed_def indexed_def live_def counted_def
        book_with_capacity_def bt_inv_def bt_keys_def bt_first_key_def bt_last_key_def
        hm_inv_def hm_keys_def hm_get_def hm_len_def arena_new_def)
  moreover have "views (storage ?b) (\<lambda>_. []) (\<lambda>_. [])" by (simp add: views_def)
  ultimately show ?thesis unfolding represents_def by blast
qed

lemma capacity_new: "capacity_of (book_with_capacity c) = unat c"
  by (simp add: capacity_of_def book_with_capacity_def arena_new_def)

end
