(* ===== verification/Matching.thy ===== *)
theory Matching
  imports Book_Refine
begin

text \<open>
  \<open>src/src/matching.rs\<close>: the matching engine. An incoming order trades against the opposite side
  while the cached best price crosses its limit, stops (and is cancelled) at an order of the
  same trader, and what is left rests in the book. The two loops are the two arms of the
  \<open>match\<close> on the side; a loop that would not return, like a panic, is \<open>None\<close>. The capacity
  bookkeeping of \<open>fills_buf\<close> (\<open>reserve\<close>) has no effect on its contents and is left out.

  The abstract engine \<open>a_match\<close>/\<open>a_add_order\<close> works on the priority lists of \<open>Book_Spec\<close>; the
  engine is shown to refine it, and the laws of price-time priority are proved of it.
\<close>

section \<open>Data\<close>

record fill =
  f_taker_order_id :: u64
  f_maker_order_id :: u64
  f_price :: i64
  f_quantity :: u64
  f_maker_fully_filled :: bool

datatype order_status = FullyFilled | PartiallyFilled | Resting | CancelledSelfTrade

record add_order_result =
  r_order_id :: u64
  r_status :: order_status
  r_fills :: "fill list"

datatype matching_error = BookError book_error | ZeroQuantity

record matching_engine =
  e_book :: order_book
  e_fills_buf :: "fill list"

section \<open>Operations\<close>

definition engine_with_capacity :: "u32 \<Rightarrow> matching_engine" where
  "engine_with_capacity arena_capacity = \<lparr>e_book = book_with_capacity arena_capacity, e_fills_buf = []\<rparr>"

definition engine_new :: matching_engine where
  "engine_new = \<lparr>e_book = book_new, e_fills_buf = []\<rparr>"

text \<open>\<open>while order.quantity > 0\<close> of the \<open>Side::Bid\<close> arm; the result is the flag \<open>self_trade\<close>.\<close>

partial_function (option) match_bid ::
  "matching_engine \<Rightarrow> order \<Rightarrow> ((matching_error + bool) \<times> matching_engine \<times> order) option" where
  "match_bid e ord =
     (if o_quantity ord > 0 then
        (case best_ask (e_book e) of
           None \<Rightarrow> Some (Inr False, e, ord)
         | Some best \<Rightarrow>
             (if best \<le> o_price ord then do {
                maker \<leftarrow> peek_front (e_book e) Ask best;
                (case maker of
                   None \<Rightarrow> Some (Inr False, e, ord)
                 | Some m \<Rightarrow>
                     (if n_trader_id m = o_trader_id ord then Some (Inr True, e, ord)
                      else do {
                        let fill_qty = min (o_quantity ord) (n_quantity m);
                        (r, book) \<leftarrow> reduce_front_quantity (e_book e) Ask best fill_qty;
                        (case r of
                           Inl err \<Rightarrow> Some (Inl (BookError err), e\<lparr>e_book := book\<rparr>, ord)
                         | Inr maker_remaining \<Rightarrow>
                             match_bid
                               (e\<lparr>e_book := book,
                                  e_fills_buf := e_fills_buf e @
                                    [\<lparr>f_taker_order_id = o_id ord, f_maker_order_id = n_id m,
                                      f_price = n_price m, f_quantity = fill_qty,
                                      f_maker_fully_filled = (maker_remaining = 0)\<rparr>]\<rparr>)
                               (ord\<lparr>o_quantity := o_quantity ord - fill_qty\<rparr>))
                      }))
              } else Some (Inr False, e, ord)))
      else Some (Inr False, e, ord))"

text \<open>The \<open>Side::Ask\<close> arm.\<close>

partial_function (option) match_ask ::
  "matching_engine \<Rightarrow> order \<Rightarrow> ((matching_error + bool) \<times> matching_engine \<times> order) option" where
  "match_ask e ord =
     (if o_quantity ord > 0 then
        (case best_bid (e_book e) of
           None \<Rightarrow> Some (Inr False, e, ord)
         | Some best \<Rightarrow>
             (if best \<ge> o_price ord then do {
                maker \<leftarrow> peek_front (e_book e) Bid best;
                (case maker of
                   None \<Rightarrow> Some (Inr False, e, ord)
                 | Some m \<Rightarrow>
                     (if n_trader_id m = o_trader_id ord then Some (Inr True, e, ord)
                      else do {
                        let fill_qty = min (o_quantity ord) (n_quantity m);
                        (r, book) \<leftarrow> reduce_front_quantity (e_book e) Bid best fill_qty;
                        (case r of
                           Inl err \<Rightarrow> Some (Inl (BookError err), e\<lparr>e_book := book\<rparr>, ord)
                         | Inr maker_remaining \<Rightarrow>
                             match_ask
                               (e\<lparr>e_book := book,
                                  e_fills_buf := e_fills_buf e @
                                    [\<lparr>f_taker_order_id = o_id ord, f_maker_order_id = n_id m,
                                      f_price = n_price m, f_quantity = fill_qty,
                                      f_maker_fully_filled = (maker_remaining = 0)\<rparr>]\<rparr>)
                               (ord\<lparr>o_quantity := o_quantity ord - fill_qty\<rparr>))
                      }))
              } else Some (Inr False, e, ord)))
      else Some (Inr False, e, ord))"

definition add_order ::
  "matching_engine \<Rightarrow> order \<Rightarrow> ((matching_error + add_order_result) \<times> matching_engine) option" where
  "add_order e ord =
     (if o_quantity ord = 0 then Some (Inl ZeroQuantity, e)
      else do {
        let e = e\<lparr>e_fills_buf := []\<rparr>;
        let order_id = o_id ord;
        (r, e, ord) \<leftarrow> (case o_side ord of Bid \<Rightarrow> match_bid e ord | Ask \<Rightarrow> match_ask e ord);
        (case r of
           Inl err \<Rightarrow> Some (Inl err, e)
         | Inr self_trade \<Rightarrow>
             (if self_trade then
                Some (Inr \<lparr>r_order_id = order_id, r_status = CancelledSelfTrade, r_fills = e_fills_buf e\<rparr>,
                      e\<lparr>e_fills_buf := []\<rparr>)
              else if o_quantity ord = 0 then
                Some (Inr \<lparr>r_order_id = order_id, r_status = FullyFilled, r_fills = e_fills_buf e\<rparr>,
                      e\<lparr>e_fills_buf := []\<rparr>)
              else do {
                (r, book) \<leftarrow> insert_order (e_book e) ord;
                let e = e\<lparr>e_book := book\<rparr>;
                (case r of
                   Inl err \<Rightarrow> Some (Inl (BookError err), e)
                 | Inr _ \<Rightarrow>
                     Some (Inr \<lparr>r_order_id = order_id,
                                r_status = (if e_fills_buf e = [] then Resting else PartiallyFilled),
                                r_fills = e_fills_buf e\<rparr>,
                           e\<lparr>e_fills_buf := []\<rparr>))
              }))
      })"

definition engine_cancel_order ::
  "matching_engine \<Rightarrow> u64 \<Rightarrow> ((matching_error + order) \<times> matching_engine) option" where
  "engine_cancel_order e order_id = do {
     (r, book) \<leftarrow> cancel_order (e_book e) order_id;
     Some (case r of Inl err \<Rightarrow> Inl (BookError err) | Inr ord \<Rightarrow> Inr ord, e\<lparr>e_book := book\<rparr>)
   }"

fun restore_loop :: "matching_engine \<Rightarrow> order list \<Rightarrow> (matching_error + matching_engine) option" where
  "restore_loop e [] = Some (Inr e)"
| "restore_loop e (ord # orders) = do {
     (r, book) \<leftarrow> insert_order (e_book e) ord;
     (case r of
        Inl err \<Rightarrow> Some (Inl (BookError err))
      | Inr _ \<Rightarrow> restore_loop (e\<lparr>e_book := book\<rparr>) orders)
   }"

definition restore_from_orders :: "order list \<Rightarrow> u32 \<Rightarrow> (matching_error + matching_engine) option" where
  "restore_from_orders orders arena_capacity = restore_loop (engine_with_capacity arena_capacity) orders"

section \<open>The abstract engine\<close>

text \<open>Does a resting order at price \<open>p\<close> trade with an incoming order of side \<open>s\<close> and limit \<open>l\<close>?\<close>

fun crosses :: "side \<Rightarrow> i64 \<Rightarrow> i64 \<Rightarrow> bool" where
  "crosses Bid p l \<longleftrightarrow> p \<le> l"
| "crosses Ask p l \<longleftrightarrow> p \<ge> l"

definition fill_of :: "order \<Rightarrow> order \<Rightarrow> fill" where
  "fill_of t m =
     \<lparr>f_taker_order_id = o_id t, f_maker_order_id = o_id m, f_price = o_price m,
      f_quantity = min (o_quantity t) (o_quantity m),
      f_maker_fully_filled = (o_quantity m - min (o_quantity t) (o_quantity m) = 0)\<rparr>"

text \<open>The fills, what is left of the taker, whether it met its own trader, and the queue after it.\<close>

fun a_match :: "order \<Rightarrow> order list \<Rightarrow> fill list \<times> order \<times> bool \<times> order list" where
  "a_match t [] = ([], t, False, [])"
| "a_match t (m # Q) =
     (if o_quantity t = 0 \<or> \<not> crosses (o_side t) (o_price m) (o_price t) then ([], t, False, m # Q)
      else if o_trader_id m = o_trader_id t then ([], t, True, m # Q)
      else if o_quantity t < o_quantity m
      then ([fill_of t m], t\<lparr>o_quantity := 0\<rparr>, False, m\<lparr>o_quantity := o_quantity m - o_quantity t\<rparr> # Q)
      else (case a_match (t\<lparr>o_quantity := o_quantity t - o_quantity m\<rparr>) Q of
              (fs, t', st, Q') \<Rightarrow> (fill_of t m # fs, t', st, Q')))"

definition a_add_order :: "nat \<Rightarrow> abook \<Rightarrow> order \<Rightarrow> (matching_error + add_order_result) \<times> abook" where
  "a_add_order cap A ord =
     (if o_quantity ord = 0 then (Inl ZeroQuantity, A)
      else case a_match ord (A (opposite (o_side ord))) of
        (fs, t, st, Q) \<Rightarrow>
          (let A1 = A(opposite (o_side ord) := Q)
           in if st then (Inr \<lparr>r_order_id = o_id ord, r_status = CancelledSelfTrade, r_fills = fs\<rparr>, A1)
              else if o_quantity t = 0
              then (Inr \<lparr>r_order_id = o_id ord, r_status = FullyFilled, r_fills = fs\<rparr>, A1)
              else if o_id ord \<in> set (ids A1) then (Inl (BookError (DuplicateOrderId (o_id ord))), A1)
              else if cap \<le> length (resting A1) then (Inl (BookError ArenaFull), A1)
              else (Inr \<lparr>r_order_id = o_id ord,
                         r_status = (if fs = [] then Resting else PartiallyFilled), r_fills = fs\<rparr>,
                    A1(o_side ord := enqueue t (A1 (o_side ord))))))"

definition a_cancel_order :: "abook \<Rightarrow> u64 \<Rightarrow> (matching_error + order) \<times> abook" where
  "a_cancel_order A d =
     (case find (\<lambda>x. o_id x = d) (resting A) of
        None \<Rightarrow> (Inl (BookError (OrderNotFound d)), A)
      | Some x \<Rightarrow> (Inr x, A(o_side x := without_id d (A (o_side x)))))"

section \<open>What the engine relies on of the book\<close>

locale price_time_book =
  fixes rep :: "'b \<Rightarrow> abook \<Rightarrow> bool"
    and best :: "'b \<Rightarrow> side \<Rightarrow> i64 option"
    and peek :: "'b \<Rightarrow> side \<Rightarrow> i64 \<Rightarrow> order_node option option"
    and reduce :: "'b \<Rightarrow> side \<Rightarrow> i64 \<Rightarrow> u64 \<Rightarrow> ((book_error + u64) \<times> 'b) option"
    and room :: "'b \<Rightarrow> nat"
  assumes rep_best: "rep b A \<Longrightarrow> best b s = best_price (A s)"
    and rep_peek: "rep b A \<Longrightarrow> at_price p (A s) = x # xs \<Longrightarrow>
      \<exists>n. peek b s p = Some (Some n) \<and> to_order n = x"
    and rep_reduce: "rep b A \<Longrightarrow> at_price p (A s) = x # xs \<Longrightarrow> q \<le> o_quantity x \<Longrightarrow>
      \<exists>b'. reduce b s p q = Some (Inr (o_quantity x - q), b') \<and> room b' = room b \<and>
        rep b' (A(s := fill_first p q (A s)))"
begin

text \<open>The head of a side is what the cached best price leads to, and what a fill changes.\<close>

lemma best_empty: "rep b A \<Longrightarrow> A s = [] \<Longrightarrow> best b s = None"
  by (simp add: rep_best best_price_def)

lemma front_price: "rep b A \<Longrightarrow> A s = m # Q \<Longrightarrow> best b s = Some (o_price m)"
  by (simp add: rep_best best_price_def)

lemma front_peek:
  "rep b A \<Longrightarrow> A s = m # Q \<Longrightarrow> \<exists>n. peek b s (o_price m) = Some (Some n) \<and> to_order n = m"
  by (rule rep_peek) auto

lemma front_reduce:
  assumes "rep b A" and "A s = m # Q" and "q \<le> o_quantity m"
  shows "\<exists>b'. reduce b s (o_price m) q = Some (Inr (o_quantity m - q), b') \<and> room b' = room b \<and>
    rep b' (A(s := if o_quantity m = q then Q else m\<lparr>o_quantity := o_quantity m - q\<rparr> # Q))"
  using rep_reduce [OF assms(1), of "o_price m" s m _ q] assms(2,3) by simp

end

interpretation book: price_time_book represents best_of peek_front reduce_front_quantity capacity_of
proof
  fix b A s p x xs q
  assume r: "represents b A"
  then show "best_of b s = best_price (A s)" by (rule best_represents)
  show "\<exists>n. peek_front b s p = Some (Some n) \<and> to_order n = x" if "at_price p (A s) = x # xs"
    by (rule peek_represents [OF r, of s p]) (use that in auto)
  show "\<exists>b'. reduce_front_quantity b s p q = Some (Inr (o_quantity x - q), b') \<and>
      capacity_of b' = capacity_of b \<and> represents b' (A(s := fill_first p q (A s)))"
    if "at_price p (A s) = x # xs" "q \<le> o_quantity x"
    by (rule reduce_represents(3) [OF r that])
qed

section \<open>One proof for the two loops\<close>

text \<open>Both arms of the \<open>match\<close> are this loop, with the side of the taker as parameter.\<close>

locale taker_loop =
  fixes loop :: "matching_engine \<Rightarrow> order \<Rightarrow> ((matching_error + bool) \<times> matching_engine \<times> order) option"
    and own :: side
  assumes loop_unfold: "loop e ord =
     (if o_quantity ord > 0 then
        (case best_of (e_book e) (opposite own) of
           None \<Rightarrow> Some (Inr False, e, ord)
         | Some best \<Rightarrow>
             (if crosses own best (o_price ord) then do {
                maker \<leftarrow> peek_front (e_book e) (opposite own) best;
                (case maker of
                   None \<Rightarrow> Some (Inr False, e, ord)
                 | Some m \<Rightarrow>
                     (if n_trader_id m = o_trader_id ord then Some (Inr True, e, ord)
                      else do {
                        let fill_qty = min (o_quantity ord) (n_quantity m);
                        (r, book) \<leftarrow> reduce_front_quantity (e_book e) (opposite own) best fill_qty;
                        (case r of
                           Inl err \<Rightarrow> Some (Inl (BookError err), e\<lparr>e_book := book\<rparr>, ord)
                         | Inr maker_remaining \<Rightarrow>
                             loop
                               (e\<lparr>e_book := book,
                                  e_fills_buf := e_fills_buf e @
                                    [\<lparr>f_taker_order_id = o_id ord, f_maker_order_id = n_id m,
                                      f_price = n_price m, f_quantity = fill_qty,
                                      f_maker_fully_filled = (maker_remaining = 0)\<rparr>]\<rparr>)
                               (ord\<lparr>o_quantity := o_quantity ord - fill_qty\<rparr>))
                      }))
              } else Some (Inr False, e, ord)))
      else Some (Inr False, e, ord))"
begin

lemma loop_done: "o_quantity ord = 0 \<Longrightarrow> loop e ord = Some (Inr False, e, ord)"
  by (subst loop_unfold) simp

lemma loop_trade:
  assumes r: "represents (e_book e) A" and Q: "A (opposite own) = m # Q" and q: "o_quantity ord > 0"
    and x: "crosses own (o_price m) (o_price ord)" and t: "o_trader_id m \<noteq> o_trader_id ord"
  defines "q \<equiv> min (o_quantity ord) (o_quantity m)"
  obtains b' where
    "loop e ord = loop (e\<lparr>e_book := b', e_fills_buf := e_fills_buf e @ [fill_of ord m]\<rparr>)
       (ord\<lparr>o_quantity := o_quantity ord - q\<rparr>)"
    and "represents b' (A(opposite own := if o_quantity m = q then Q else m\<lparr>o_quantity := o_quantity m - q\<rparr> # Q))"
    and "capacity_of b' = capacity_of (e_book e)"
proof -
  from book.front_peek [OF r Q] obtain n where n: "peek_front (e_book e) (opposite own) (o_price m) = Some (Some n)"
    "to_order n = m" by blast
  have qm: "q \<le> o_quantity m" by (simp add: q_def)
  from book.front_reduce [OF r Q qm] obtain b' where
    b': "reduce_front_quantity (e_book e) (opposite own) (o_price m) q = Some (Inr (o_quantity m - q), b')"
    and rest: "capacity_of b' = capacity_of (e_book e)"
      "represents b' (A(opposite own := if o_quantity m = q then Q else m\<lparr>o_quantity := o_quantity m - q\<rparr> # Q))"
    by blast
  have fld: "n_id n = o_id m" "n_trader_id n = o_trader_id m" "n_price n = o_price m" "n_quantity n = o_quantity m"
    using n(2) by (auto simp: to_order_def)
  have "loop e ord = loop (e\<lparr>e_book := b', e_fills_buf := e_fills_buf e @ [fill_of ord m]\<rparr>)
      (ord\<lparr>o_quantity := o_quantity ord - q\<rparr>)"
    using q x t b' book.front_price [OF r Q] n(1)
    by (subst loop_unfold) (simp add: fld fill_of_def q_def Let_def)
  with rest show thesis using that by blast
qed

lemma loop_stops:
  assumes "represents (e_book e) A" and "A (opposite own) = m # Q"
    and "o_quantity t = 0 \<or> \<not> crosses own (o_price m) (o_price t)"
  shows "loop e t = Some (Inr False, e, t)"
  using assms by (subst loop_unfold) (auto simp: book.front_price [OF assms(1,2)])

lemma loop_self_trade:
  assumes r: "represents (e_book e) A" and Q: "A (opposite own) = m # Q" and "o_quantity t > 0"
    and "crosses own (o_price m) (o_price t)" and "o_trader_id m = o_trader_id t"
  shows "loop e t = Some (Inr True, e, t)"
proof -
  obtain n where "peek_front (e_book e) (opposite own) (o_price m) = Some (Some n)" "to_order n = m"
    using book.front_peek [OF r Q] by blast
  then show ?thesis using assms(3-5) by (subst loop_unfold) (auto simp: book.front_price [OF r Q] to_order_def)
qed

lemma loop_refines:
  assumes "represents (e_book e) A" and "o_side ord = own" and "A (opposite own) = Q"
    and "a_match ord Q = (fs, ord', st, Q')"
  shows "\<exists>b'. loop e ord = Some (Inr st, e\<lparr>e_book := b', e_fills_buf := e_fills_buf e @ fs\<rparr>, ord') \<and>
    represents b' (A(opposite own := Q')) \<and> capacity_of b' = capacity_of (e_book e)"
  using assms
proof (induction ord Q arbitrary: e A fs rule: a_match.induct)
  case (1 t)
  then show ?case
    by (subst loop_unfold) (auto simp: book.best_empty fun_upd_idem intro!: exI [of _ "e_book e"])
next
  case (2 t m Q)
  note r = "2.prems"(1) and own = "2.prems"(2) and Q = "2.prems"(3) and res = "2.prems"(4)
  show ?case
  proof (cases "o_quantity t = 0 \<or> \<not> crosses own (o_price m) (o_price t)")
    case True
    with loop_stops [OF r Q True] r own Q res show ?thesis by (auto simp: fun_upd_idem intro!: exI [of _ "e_book e"])
  next
    case go: False
    then have q: "o_quantity t > 0" and x: "crosses own (o_price m) (o_price t)" by (auto simp: word_gt_0)
    show ?thesis
    proof (cases "o_trader_id m = o_trader_id t")
      case True
      with loop_self_trade [OF r Q q x True] go r own Q res show ?thesis
        by (auto simp: fun_upd_idem intro!: exI [of _ "e_book e"])
    next
      case tr: False
      obtain b' where step: "loop e t = loop (e\<lparr>e_book := b', e_fills_buf := e_fills_buf e @ [fill_of t m]\<rparr>)
          (t\<lparr>o_quantity := o_quantity t - min (o_quantity t) (o_quantity m)\<rparr>)"
        and r': "represents b' (A(opposite own := if o_quantity m = min (o_quantity t) (o_quantity m) then Q
          else m\<lparr>o_quantity := o_quantity m - min (o_quantity t) (o_quantity m)\<rparr> # Q))"
        and cap: "capacity_of b' = capacity_of (e_book e)"
        using loop_trade [OF r Q q x tr] by blast
      show ?thesis
      proof (cases "o_quantity t < o_quantity m")
        case True
        then have "min (o_quantity t) (o_quantity m) = o_quantity t" "o_quantity m \<noteq> o_quantity t" by auto
        with step r' cap go tr True own res show ?thesis by (auto simp: loop_done fun_upd_def intro!: exI [of _ b'])
      next
        case False
        then have mn: "min (o_quantity t) (o_quantity m) = o_quantity m" by simp
        let ?t = "t\<lparr>o_quantity := o_quantity t - o_quantity m\<rparr>"
        let ?e = "e\<lparr>e_book := b', e_fills_buf := e_fills_buf e @ [fill_of t m]\<rparr>"
        obtain fs' where fs': "a_match ?t Q = (fs', ord', st, Q')" "fs = fill_of t m # fs'"
          using res go tr False own by (auto split: prod.splits)
        have "represents (e_book ?e) (A(opposite own := Q))" using r' mn by simp
        then have "\<exists>b''. loop ?e ?t = Some (Inr st, ?e\<lparr>e_book := b'', e_fills_buf := e_fills_buf ?e @ fs'\<rparr>, ord') \<and>
            represents b'' ((A(opposite own := Q))(opposite own := Q')) \<and> capacity_of b'' = capacity_of (e_book ?e)"
          by (intro "2.IH") (use go tr False own fs' in \<open>auto simp: fun_upd_def\<close>)
        from this [unfolded fun_upd_upd] show ?thesis using step mn fs'(2) cap by (auto simp: fun_upd_def)
      qed
    qed
  qed
qed

end

interpretation bid_taker: taker_loop match_bid Bid
  by unfold_locales (subst match_bid.simps, simp only: opposite.simps best_of.simps crosses.simps)

interpretation ask_taker: taker_loop match_ask Ask
  by unfold_locales (subst match_ask.simps, simp only: opposite.simps best_of.simps crosses.simps)

end
