(* ===== verification/Matching_Laws.thy ===== *)
theory Matching_Laws
  imports Matching
begin

text \<open>
  What the matching engine guarantees. First the laws of the abstract match (conservation of
  quantity, price-time priority, the reason it stopped), then that \<open>add_order\<close>, \<open>cancel_order\<close>
  and \<open>restore_from_orders\<close> of \<open>src/src/matching.rs\<close> implement the abstract engine on every
  branch and never panic, and the invariants of the abstract engine.
\<close>

section \<open>The abstract match\<close>

definition volume :: "order list \<Rightarrow> nat" where
  "volume Q = (\<Sum>x\<leftarrow>Q. unat (o_quantity x))"

definition filled :: "fill list \<Rightarrow> nat" where
  "filled fs = (\<Sum>f\<leftarrow>fs. unat (f_quantity f))"

lemma volume_simps [simp]:
  "volume [] = 0" "volume (x # Q) = unat (o_quantity x) + volume Q" "volume (Q @ R) = volume Q + volume R"
  by (simp_all add: volume_def)

lemma filled_simps [simp]:
  "filled [] = 0" "filled (f # fs) = unat (f_quantity f) + filled fs" "filled (fs @ gs) = filled fs + filled gs"
  by (simp_all add: filled_def)

text \<open>The fill that takes the whole of a maker, and one that takes \<open>q\<close> of it.\<close>

definition takes :: "u64 \<Rightarrow> u64 \<Rightarrow> order \<Rightarrow> fill" where
  "takes d q m = \<lparr>f_taker_order_id = d, f_maker_order_id = o_id m, f_price = o_price m, f_quantity = q,
     f_maker_fully_filled = (q = o_quantity m)\<rparr>"

abbreviation takes_all :: "u64 \<Rightarrow> order \<Rightarrow> fill" where
  "takes_all d m \<equiv> takes d (o_quantity m) m"

lemma takes_sel [simp]:
  "f_taker_order_id (takes d q m) = d" "f_maker_order_id (takes d q m) = o_id m"
  "f_price (takes d q m) = o_price m" "f_quantity (takes d q m) = q"
  "f_maker_fully_filled (takes d q m) \<longleftrightarrow> q = o_quantity m"
  by (simp_all add: takes_def)

lemma fill_of_takes: "fill_of t m = takes (o_id t) (min (o_quantity t) (o_quantity m)) m"
  by (auto simp: fill_of_def takes_def)

lemma filled_takes_all [simp]: "filled (map (takes_all d) Q) = volume Q"
  by (simp add: filled_def volume_def comp_def)

definition fillable :: "order \<Rightarrow> order \<Rightarrow> bool" where
  "fillable t m \<longleftrightarrow> crosses (o_side t) (o_price m) (o_price t) \<and> o_trader_id m \<noteq> o_trader_id t"

lemma fillable_quantity [simp]: "fillable (t\<lparr>o_quantity := q\<rparr>) m = fillable t m"
  by (simp add: fillable_def)

text \<open>
  The outcome of a match: a prefix of the queue is taken whole, in order and at the makers'
  prices; then either part of the next maker is taken and the taker is done, or nothing more is
  and the reason is one of three: the taker is done, its own trader is next, or no price crosses.
\<close>

fun stop_reason :: "order \<Rightarrow> u64 \<Rightarrow> bool \<Rightarrow> order list \<Rightarrow> bool" where
  "stop_reason t left True R \<longleftrightarrow> left \<noteq> 0 \<and> R \<noteq> [] \<and> o_trader_id (hd R) = o_trader_id t \<and>
     crosses (o_side t) (o_price (hd R)) (o_price t)"
| "stop_reason t left False R \<longleftrightarrow>
     left = 0 \<or> R = [] \<or> \<not> crosses (o_side t) (o_price (hd R)) (o_price t)"

inductive match_outcome :: "order \<Rightarrow> order list \<Rightarrow> fill list \<Rightarrow> u64 \<Rightarrow> bool \<Rightarrow> order list \<Rightarrow> bool" where
  whole: "\<forall>m \<in> set Q1. fillable t m \<Longrightarrow> stop_reason t left st R \<Longrightarrow>
    match_outcome t (Q1 @ R) (map (takes_all (o_id t)) Q1) left st R"
| part: "\<forall>m \<in> set Q1. fillable t m \<Longrightarrow> fillable t m \<Longrightarrow> 0 < q \<Longrightarrow> q < o_quantity m \<Longrightarrow>
    match_outcome t (Q1 @ m # R) (map (takes_all (o_id t)) Q1 @ [takes (o_id t) q m]) 0 False
      (m\<lparr>o_quantity := o_quantity m - q\<rparr> # R)"

lemma stop_reason_quantity [simp]: "stop_reason (t\<lparr>o_quantity := q\<rparr>) left st R = stop_reason t left st R"
  by (cases st) simp_all

lemma match_outcome_Cons:
  assumes "match_outcome (t\<lparr>o_quantity := r\<rparr>) Q fs left st Q'" and "fillable t m"
  shows "match_outcome t (m # Q) (takes_all (o_id t) m # fs) left st Q'"
  using assms
proof cases
  case (whole Q1)
  then show ?thesis using match_outcome.whole [of "m # Q1" t left st Q'] assms(2) by simp
next
  case (part Q1 n q R)
  then show ?thesis using match_outcome.part [of "m # Q1" t n q R] assms(2) by simp
qed

lemma a_match_outcome: "a_match t Q = (fs, t', st, Q') \<Longrightarrow> match_outcome t Q fs (o_quantity t') st Q'"
proof (induction t Q arbitrary: fs rule: a_match.induct)
  case (1 t)
  then show ?case using match_outcome.whole [of "[]" t "o_quantity t" False "[]"] by auto
next
  case (2 t m Q)
  consider (stop) "o_quantity t = 0 \<or> \<not> crosses (o_side t) (o_price m) (o_price t)"
    | (self) "o_quantity t \<noteq> 0" "crosses (o_side t) (o_price m) (o_price t)" "o_trader_id m = o_trader_id t"
    | (part) "o_quantity t \<noteq> 0" "fillable t m" "o_quantity t < o_quantity m"
    | (all) "o_quantity t \<noteq> 0" "fillable t m" "\<not> o_quantity t < o_quantity m"
    by (auto simp: fillable_def)
  then show ?case
  proof cases
    case stop
    with "2.prems" show ?thesis
      using match_outcome.whole [of "[]" t "o_quantity t" False "m # Q"] by auto
  next
    case self
    with "2.prems" show ?thesis
      using match_outcome.whole [of "[]" t "o_quantity t" True "m # Q"] by auto
  next
    case part
    with "2.prems" show ?thesis
      using match_outcome.part [of "[]" t m "o_quantity t" Q]
      by (auto simp: fillable_def fill_of_takes min_def word_gt_0)
  next
    case all
    then obtain fs' where "a_match (t\<lparr>o_quantity := o_quantity t - o_quantity m\<rparr>) Q = (fs', t', st, Q')"
      "fs = takes_all (o_id t) m # fs'"
      using "2.prems" by (auto simp: fillable_def fill_of_takes min_def split: prod.splits if_splits)
    then show ?thesis
      using "2.IH" [of fs'] all by (auto simp: fillable_def intro!: match_outcome_Cons)
  qed
qed

lemma a_match_quantity:
  "a_match t Q = (fs, t', st, Q') \<Longrightarrow>
     t' = t\<lparr>o_quantity := o_quantity t'\<rparr> \<and> unat (o_quantity t) = filled fs + unat (o_quantity t')"
proof (induction t Q arbitrary: fs rule: a_match.induct)
  case (1 t)
  then show ?case by simp
next
  case (2 t m Q)
  show ?case
  proof (cases "o_quantity t > 0 \<and> fillable t m \<and> \<not> o_quantity t < o_quantity m")
    case True
    then obtain fs' where fs': "a_match (t\<lparr>o_quantity := o_quantity t - o_quantity m\<rparr>) Q = (fs', t', st, Q')"
      "fs = takes_all (o_id t) m # fs'"
      using "2.prems" by (auto simp: fillable_def fill_of_takes min_def split: prod.splits if_splits)
    then have "t' = t\<lparr>o_quantity := o_quantity t'\<rparr> \<and>
        unat (o_quantity t - o_quantity m) = filled fs' + unat (o_quantity t')"
      using "2.IH" [of fs'] True by (auto simp: fillable_def word_gt_0)
    then show ?thesis using fs'(2) True by (auto simp: unat_sub not_less word_le_nat_alt)
  next
    case False
    then show ?thesis
      using "2.prems" by (auto simp: fillable_def word_gt_0 fill_of_def min_def split: if_splits prod.splits)
  qed
qed

lemma match_outcome_volume:
  "match_outcome t Q fs left st Q' \<Longrightarrow> volume Q = filled fs + volume Q'"
proof (induction rule: match_outcome.induct)
  case (part Q1 t m q R)
  then have "q \<le> o_quantity m" by simp
  then have "unat (o_quantity m - q) = unat (o_quantity m) - unat q" "unat q \<le> unat (o_quantity m)"
    by (simp_all add: unat_sub word_le_nat_alt)
  then show ?case by simp
qed simp

section \<open>The engine implements the abstract engine\<close>

lemma match_loop_refines:
  assumes "represents (e_book e) A" and "a_match ord (A (opposite (o_side ord))) = (fs, t, st, Q)"
  shows "\<exists>b. (case o_side ord of Bid \<Rightarrow> match_bid e ord | Ask \<Rightarrow> match_ask e ord) =
      Some (Inr st, e\<lparr>e_book := b, e_fills_buf := e_fills_buf e @ fs\<rparr>, t) \<and>
    represents b (A(opposite (o_side ord) := Q)) \<and> capacity_of b = capacity_of (e_book e)"
proof (cases "o_side ord")
  case Bid
  with bid_taker.loop_refines [OF assms(1) Bid refl, of fs t st Q] assms(2) show ?thesis by simp
next
  case Ask
  with ask_taker.loop_refines [OF assms(1) Ask refl, of fs t st Q] assms(2) show ?thesis by simp
qed

lemma add_order_refines:
  assumes r: "represents (e_book e) A" and a: "a_add_order (capacity_of (e_book e)) A ord = (r, A')"
  shows "\<exists>e'. add_order e ord = Some (r, e') \<and> represents (e_book e') A' \<and>
    capacity_of (e_book e') = capacity_of (e_book e)"
proof (cases "o_quantity ord = 0")
  case True
  with r a show ?thesis by (auto simp: add_order_def a_add_order_def)
next
  case q: False
  obtain fs t st Q where m: "a_match ord (A (opposite (o_side ord))) = (fs, t, st, Q)"
    by (metis prod_cases4)
  define A1 where "A1 = A(opposite (o_side ord) := Q)"
  obtain b where loop: "(case o_side ord of Bid \<Rightarrow> match_bid (e\<lparr>e_fills_buf := []\<rparr>) ord
      | Ask \<Rightarrow> match_ask (e\<lparr>e_fills_buf := []\<rparr>) ord) = Some (Inr st, e\<lparr>e_book := b, e_fills_buf := fs\<rparr>, t)"
    and r1: "represents b A1" and cap: "capacity_of b = capacity_of (e_book e)"
    using match_loop_refines [of "e\<lparr>e_fills_buf := []\<rparr>" A ord fs t st Q] r m by (auto simp: A1_def)
  have t: "o_id t = o_id ord" "o_side t = o_side ord"
    using arg_cong [OF conjunct1 [OF a_match_quantity [OF m]], of o_id]
      arg_cong [OF conjunct1 [OF a_match_quantity [OF m]], of o_side]
    by auto
  note ins = insert_represents(1-3) [OF r1, of t, unfolded t cap] insert_represents(4) [OF r1, unfolded cap]
  note unf = add_order_def a_add_order_def Let_def A1_def [symmetric]
  consider (gone) "st \<or> o_quantity t = 0"
    | (dup) "\<not> st" "o_quantity t \<noteq> 0" "o_id ord \<in> set (ids A1)"
    | (full) "\<not> st" "o_quantity t \<noteq> 0" "o_id ord \<notin> set (ids A1)" "capacity_of (e_book e) = length (resting A1)"
    | (rest) "\<not> st" "o_quantity t \<noteq> 0" "o_id ord \<notin> set (ids A1)" "length (resting A1) < capacity_of (e_book e)"
    using ins(4) by linarith
  then show ?thesis
  proof cases
    case gone
    then show ?thesis using q a loop m r1 cap by (auto simp: unf)
  next
    case dup
    then show ?thesis using q a loop m r1 cap ins(1) by (auto simp: unf)
  next
    case full
    then show ?thesis using q a loop m r1 cap ins(2) by (auto simp: unf)
  next
    case rest
    obtain b' where "insert_order b t = Some (Inr (), b')" "capacity_of b' = capacity_of (e_book e)"
      "represents b' (A1(o_side ord := enqueue t (A1 (o_side ord))))"
      using ins(3) rest(3,4) by blast
    then show ?thesis using rest q a loop m r1 cap by (auto simp: unf)
  qed
qed

lemma find_resting:
  assumes "abook_ok A" and "x \<in> set (A (o_side x))"
  shows "find (\<lambda>y. o_id y = o_id x) (resting A) = Some x"
proof -
  have d: "distinct (map o_id (resting A))" using assms(1) by (simp add: abook_ok_def ids_def)
  have x: "x \<in> set (resting A)" using assms(2) by (cases "o_side x") (auto simp: resting_def)
  obtain y where y: "find (\<lambda>y. o_id y = o_id x) (resting A) = Some y"
    using x by (cases "find (\<lambda>y. o_id y = o_id x) (resting A)") (auto simp: find_None_iff)
  then have "y \<in> set (resting A)" "o_id y = o_id x" by (auto simp: find_Some_iff)
  with d x have "y = x" by (metis distinct_map inj_onD)
  with y show ?thesis by simp
qed

lemma cancel_order_refines:
  assumes r: "represents (e_book e) A" and a: "a_cancel_order A d = (r, A')"
  shows "\<exists>e'. engine_cancel_order e d = Some (r, e') \<and> represents (e_book e') A' \<and>
    capacity_of (e_book e') = capacity_of (e_book e)"
proof (cases "d \<in> set (ids A)")
  case True
  then obtain b' x where "cancel_order (e_book e) d = Some (Inr x, b')" and x: "x \<in> set (A (o_side x))" "o_id x = d"
    and "capacity_of b' = capacity_of (e_book e)" "represents b' (A(o_side x := without_id d (A (o_side x))))"
    using cancel_represents(2) [OF r] by blast
  moreover have "find (\<lambda>y. o_id y = d) (resting A) = Some x"
    using find_resting [OF represents_abook_ok [OF r] x(1)] x(2) by simp
  ultimately show ?thesis using a by (auto simp: engine_cancel_order_def a_cancel_order_def)
next
  case False
  then have "find (\<lambda>y. o_id y = d) (resting A) = None" by (auto simp: find_None_iff ids_def)
  with False show ?thesis
    using a r cancel_represents(1) [OF r False] by (auto simp: engine_cancel_order_def a_cancel_order_def)
qed

section \<open>Invariants of the abstract engine\<close>

definition positive :: "abook \<Rightarrow> bool" where
  "positive A \<longleftrightarrow> (\<forall>x \<in> set (resting A). o_quantity x \<noteq> 0)"

lemma set_resting: "set (resting A) = set (A s) \<union> set (A (opposite s))"
  by (cases s) (auto simp: resting_def)

lemma crosses_mono:
  "\<not> crosses s p l \<Longrightarrow> rank (opposite s) p \<le> rank (opposite s) p' \<Longrightarrow> \<not> crosses s p' l"
  by (cases s) (auto simp: less_eq_i64_def)

text \<open>What a match can leave behind on the makers' side.\<close>

lemma match_outcome_leaves:
  "match_outcome t Q fs left st Q' \<Longrightarrow> x \<in> set Q' \<Longrightarrow>
     \<exists>y \<in> set Q. x = y\<lparr>o_quantity := o_quantity x\<rparr> \<and> (o_quantity y \<noteq> 0 \<longrightarrow> o_quantity x \<noteq> 0)"
proof (induction rule: match_outcome.induct)
  case (part Q1 t m q R)
  then have "o_quantity m - q \<noteq> 0" by simp
  with part show ?case
    by (cases "x \<in> set R") (auto intro: bexI [of _ x] bexI [of _ m])
qed (auto intro!: bexI)

lemma match_outcome_ids:
  "match_outcome t Q fs left st Q' \<Longrightarrow> \<exists>Q1. map o_id Q = Q1 @ map o_id Q'"
  by (induction rule: match_outcome.induct) auto

lemma match_outcome_rest:
  assumes "match_outcome t Q fs left False Q'" and "left \<noteq> 0" and "in_priority (opposite (o_side t)) Q"
    and "x \<in> set Q'"
  shows "\<not> crosses (o_side t) (o_price x) (o_price t)"
  using assms
proof cases
  case (whole Q1)
  with assms(2,4) have "\<not> crosses (o_side t) (o_price (hd Q')) (o_price t)" by auto
  moreover have "rank (opposite (o_side t)) (o_price (hd Q')) \<le> rank (opposite (o_side t)) (o_price x)"
    using assms(3,4) whole(1) by (cases Q') (auto simp: in_priority_append)
  ultimately show ?thesis by (rule crosses_mono)
qed simp

lemma match_outcome_length:
  "match_outcome t Q fs left st Q' \<Longrightarrow> left \<noteq> 0 \<Longrightarrow> length Q = length fs + length Q'"
  by (induction rule: match_outcome.induct) auto

lemma match_outcome_none: "match_outcome t Q [] left st Q' \<Longrightarrow> Q' = Q"
  by (cases rule: match_outcome.cases) auto

text \<open>The cases of \<open>a_add_order\<close>, with what the match did.\<close>

lemma a_add_order_cases [consumes 1, case_names zero matched duplicate full rested]:
  assumes "a_add_order cap A ord = (r, A')"
  obtains (zero) "o_quantity ord = 0" "r = Inl ZeroQuantity" "A' = A"
  | (matched) fs left st Q where "match_outcome ord (A (opposite (o_side ord))) fs left st Q"
      "unat (o_quantity ord) = filled fs + unat left" "st \<or> left = 0" "o_quantity ord \<noteq> 0"
      "r = Inr \<lparr>r_order_id = o_id ord, r_status = (if st then CancelledSelfTrade else FullyFilled), r_fills = fs\<rparr>"
      "A' = A(opposite (o_side ord) := Q)"
  | (duplicate) fs left Q where "match_outcome ord (A (opposite (o_side ord))) fs left False Q"
      "unat (o_quantity ord) = filled fs + unat left" "left \<noteq> 0" "A' = A(opposite (o_side ord) := Q)"
      "o_id ord \<in> set (ids A')" "r = Inl (BookError (DuplicateOrderId (o_id ord)))"
  | (full) fs left Q where "match_outcome ord (A (opposite (o_side ord))) fs left False Q"
      "unat (o_quantity ord) = filled fs + unat left" "left \<noteq> 0" "A' = A(opposite (o_side ord) := Q)"
      "o_id ord \<notin> set (ids A')" "cap \<le> length (resting A')" "r = Inl (BookError ArenaFull)"
  | (rested) fs left Q A1 where "match_outcome ord (A (opposite (o_side ord))) fs left False Q"
      "unat (o_quantity ord) = filled fs + unat left" "left \<noteq> 0" "A1 = A(opposite (o_side ord) := Q)"
      "o_id ord \<notin> set (ids A1)" "length (resting A1) < cap"
      "A' = A1(o_side ord := enqueue (ord\<lparr>o_quantity := left\<rparr>) (A (o_side ord)))"
      "r = Inr \<lparr>r_order_id = o_id ord, r_status = (if fs = [] then Resting else PartiallyFilled), r_fills = fs\<rparr>"
proof (cases "o_quantity ord = 0")
  case True
  with assms show thesis by (intro zero) (auto simp: a_add_order_def)
next
  case q: False
  obtain fs t st Q where m: "a_match ord (A (opposite (o_side ord))) = (fs, t, st, Q)"
    by (metis prod_cases4)
  define A1 where "A1 = A(opposite (o_side ord) := Q)"
  note out = a_match_outcome [OF m] and qty = conjunct2 [OF a_match_quantity [OF m]]
    and t = conjunct1 [OF a_match_quantity [OF m]]
  note unf = a_add_order_def Let_def A1_def m
  consider "st \<or> o_quantity t = 0" | "\<not> st" "o_quantity t \<noteq> 0" "o_id ord \<in> set (ids A1)"
    | "\<not> st" "o_quantity t \<noteq> 0" "o_id ord \<notin> set (ids A1)" "cap \<le> length (resting A1)"
    | "\<not> st" "o_quantity t \<noteq> 0" "o_id ord \<notin> set (ids A1)" "length (resting A1) < cap"
    by linarith
  then show thesis
  proof cases
    case 1
    then show ?thesis using q assms by (intro matched [OF out qty]) (auto simp: unf split: if_splits)
  next
    case 2
    then show ?thesis
      using q assms out by (intro duplicate [of fs "o_quantity t" Q]) (auto simp: unf qty)
  next
    case 3
    then show ?thesis
      using q assms out by (intro full [of fs "o_quantity t" Q]) (auto simp: unf qty)
  next
    case 4
    then show ?thesis
      using q assms out t by (intro rested [of fs "o_quantity t" Q A1]) (auto simp: unf qty)
  qed
qed

lemma a_add_order_length:
  assumes "a_add_order cap A ord = (r, A')" and "length (resting A) \<le> cap"
  shows "r = Inl (BookError ArenaFull) \<Longrightarrow> A' = A"
  using assms(1)
proof (cases rule: a_add_order_cases)
  case (full fs left Q)
  have len: "length (resting B) = length (B (o_side ord)) + length (B (opposite (o_side ord)))" for B
    by (cases "o_side ord") (auto simp: resting_def)
  have "length (A (opposite (o_side ord))) = length fs + length Q"
    using match_outcome_length [OF full(1,3)] .
  then have "length fs = 0" using full(4,6) assms(2) by (simp add: len del: length_0_conv)
  then have "fs = []" by simp
  with full(1,4) show "A' = A" using match_outcome_none by fastforce
qed auto

lemma a_add_order_positive:
  assumes "a_add_order cap A ord = (r, A')" and "positive A"
  shows "positive A'"
proof -
  let ?o = "opposite (o_side ord)"
  have *: "positive (A(?o := Q))" if "match_outcome ord (A ?o) fs left st Q" for fs left st Q
    using match_outcome_leaves [OF that] assms(2)
    by (auto simp: positive_def set_resting [of _ "o_side ord"])
  show ?thesis
    using assms(1)
  proof (cases rule: a_add_order_cases)
    case (rested fs left Q A1)
    with * [OF rested(1)] show ?thesis by (auto simp: positive_def set_resting [of _ "o_side ord"])
  qed (use * assms(2) in auto)
qed

lemma uncrossed_alt:
  "uncrossed A \<longleftrightarrow> (\<forall>x \<in> set (A s). \<forall>y \<in> set (A (opposite s)). \<not> crosses s (o_price y) (o_price x))"
  by (cases s) (auto simp: uncrossed_def not_le)

lemma a_add_order_uncrossed:
  assumes "a_add_order cap A ord = (r, A')" and "abook_ok A" and "uncrossed A"
  shows "uncrossed A'"
proof -
  let ?s = "o_side ord" and ?o = "opposite (o_side ord)"
  have *: "uncrossed (A(?o := Q))" if m: "match_outcome ord (A ?o) fs left st Q" for fs left st Q
    unfolding uncrossed_alt [of _ ?s]
  proof (intro ballI)
    fix x y
    assume x: "x \<in> set ((A(?o := Q)) ?s)" and y: "y \<in> set ((A(?o := Q)) ?o)"
    then obtain y' where "y' \<in> set (A ?o)" "y = y'\<lparr>o_quantity := o_quantity y\<rparr>"
      using match_outcome_leaves [OF m, of y] by auto
    then have "y' \<in> set (A ?o)" "o_price y = o_price y'" by (auto dest: arg_cong [of _ _ o_price])
    with x assms(3) show "\<not> crosses ?s (o_price y) (o_price x)" by (auto simp: uncrossed_alt [of _ ?s])
  qed
  show ?thesis
    using assms(1)
  proof (cases rule: a_add_order_cases)
    case (rested fs left Q A1)
    have "in_priority ?o (A ?o)" using assms(2) by (simp add: abook_ok_def)
    then have "\<not> crosses ?s (o_price y) (o_price ord)" if "y \<in> set Q" for y
      using match_outcome_rest [OF rested(1,3) _ that] by simp
    with * [OF rested(1)] show ?thesis
      unfolding rested(7) rested(4) by (auto simp: uncrossed_alt [of _ ?s])
  qed (use * assms(3) in auto)
qed

lemma a_cancel_order_sub:
  "a_cancel_order A d = (r, A') \<Longrightarrow> set (A' s) \<subseteq> set (A s)"
  by (auto simp: a_cancel_order_def without_id_def split: option.splits if_splits)

lemma a_cancel_order_positive: "a_cancel_order A d = (r, A') \<Longrightarrow> positive A \<Longrightarrow> positive A'"
  using a_cancel_order_sub [of A d r A'] by (auto simp: positive_def resting_def)

lemma a_cancel_order_uncrossed: "a_cancel_order A d = (r, A') \<Longrightarrow> uncrossed A \<Longrightarrow> uncrossed A'"
  using a_cancel_order_sub [of A d r A'] by (auto simp: uncrossed_def)

section \<open>Restoring a book from its orders\<close>

definition rest_order :: "abook \<Rightarrow> order \<Rightarrow> abook" where
  "rest_order A x = A(o_side x := enqueue x (A (o_side x)))"

lemma rest_order_length: "length (resting (rest_order A x)) = Suc (length (resting A))"
  by (cases "o_side x") (auto simp: rest_order_def resting_def)

lemma rest_order_ids: "set (ids (rest_order A x)) = insert (o_id x) (set (ids A))"
  by (cases "o_side x") (auto simp: rest_order_def ids_def resting_def)

lemma restore_loop_refines:
  assumes "represents (e_book e) A"
  shows "if distinct (map o_id os) \<and> set (map o_id os) \<inter> set (ids A) = {} \<and>
      length (resting A) + length os \<le> capacity_of (e_book e)
    then \<exists>e'. restore_loop e os = Some (Inr e') \<and> represents (e_book e') (foldl rest_order A os) \<and>
      capacity_of (e_book e') = capacity_of (e_book e)
    else \<exists>err. restore_loop e os = Some (Inl err)"
  using assms
proof (induction os arbitrary: e A)
  case Nil
  then show ?case using insert_represents(4) by auto
next
  case (Cons x os)
  note ins = insert_represents [OF Cons.prems]
  consider (dup) "o_id x \<in> set (ids A)"
    | (full) "o_id x \<notin> set (ids A)" "length (resting A) = capacity_of (e_book e)"
    | (ok) "o_id x \<notin> set (ids A)" "length (resting A) < capacity_of (e_book e)"
    using ins(4) by linarith
  then show ?case
  proof cases
    case dup
    with ins(1) show ?thesis by auto
  next
    case full
    with ins(2) [of x] show ?thesis by auto
  next
    case ok
    then obtain b where b: "insert_order (e_book e) x = Some (Inr (), b)" "capacity_of b = capacity_of (e_book e)"
      "represents b (rest_order A x)"
      using ins(3) [of x] by (auto simp: rest_order_def)
    let ?e = "e\<lparr>e_book := b\<rparr>"
    have "represents (e_book ?e) (rest_order A x)" using b(3) by simp
    from Cons.IH [OF this] b ok show ?thesis
      by (auto simp: rest_order_length rest_order_ids split: if_splits)
  qed
qed

lemma enqueue_last:
  assumes "in_priority (o_side x) (Q @ [x])"
  shows "enqueue x Q = Q @ [x]"
proof -
  have "\<forall>y \<in> set Q. rank (o_side x) (o_price y) \<le> rank (o_side x) (o_price x)"
    using assms by (auto simp: in_priority_append)
  then show ?thesis by (simp add: enqueue_def takeWhile_eq_all_conv dropWhile_eq_Nil_conv)
qed

lemma rest_all:
  assumes "in_priority s Q" and "\<forall>x \<in> set Q. o_side x = s" and "A s = []"
  shows "foldl rest_order A Q = A(s := Q)"
  using assms
proof (induction Q rule: rev_induct)
  case Nil
  then show ?case by (simp add: fun_upd_idem)
next
  case (snoc x Q)
  then have "foldl rest_order A Q = A(s := Q)" by (simp add: in_priority_append fun_upd_def)
  then have "foldl rest_order A (Q @ [x]) = rest_order (A(s := Q)) x" by simp
  also have "\<dots> = A(s := Q @ [x])"
    using snoc.prems enqueue_last [of x Q] unfolding rest_order_def by simp
  finally show ?case by (simp add: fun_upd_def)
qed

lemma rest_resting:
  assumes "abook_ok A"
  shows "foldl rest_order (\<lambda>_. []) (resting A) = A"
proof -
  have "foldl rest_order (\<lambda>_. []) (resting A) = foldl rest_order ((\<lambda>_. [])(Ask := A Ask)) (A Bid)"
    using assms by (simp add: resting_def rest_all [of Ask "A Ask" "\<lambda>_. []"] abook_ok_def)
  also have "\<dots> = ((\<lambda>_. [])(Ask := A Ask))(Bid := A Bid)"
    using assms by (intro rest_all) (auto simp: abook_ok_def)
  also have "\<dots> = A" by (rule ext) (metis fun_upd_apply side.exhaust)
  finally show ?thesis .
qed

lemma engine_new_represents:
  "represents (e_book (engine_with_capacity c)) (\<lambda>_. [])" "capacity_of (e_book (engine_with_capacity c)) = unat c"
  by (simp_all add: engine_with_capacity_def new_represents capacity_new)

end
