(* ===== verification/Snapshot.thy ===== *)
theory Snapshot
  imports Matching_Laws "HOL-Library.List_Lexorder" "HOL-Library.Char_ord"
begin

text \<open>
  \<open>src/src/snapshot.rs\<close>: snapshots of the book, their files and their checksums. A directory is a
  map from file names to contents, \<open>None\<close> where it does not exist. The packages \<open>bincode\<close> and
  \<open>crc32fast\<close> are parameters, and so are the answers of the file system: which file can be read,
  whether a directory can be listed, and where a save fails. An error that carries a rendered
  message carries the error itself.
\<close>

section \<open>Data\<close>

text \<open>Which \<open>io::Error\<close> it was, and the text \<open>bincode\<close> gave, are not kept.\<close>

datatype snapshot_error = SnapIo | Serialize | Deserialize | ChecksumMismatch u32 u32 | Restore matching_error

record snapshot =
  sn_wal_record_count :: nat
  sn_orders :: "order list"
  sn_best_bid :: "i64 option"
  sn_best_ask :: "i64 option"
  sn_checksum :: u32

type_synonym directory = "(string, u8 list) hashmap"

text \<open>\<open>bincode::serialize\<close> of a snapshot and of a slice of orders, \<open>bincode::deserialize\<close>, and \<open>crc32fast::hash\<close>.\<close>

record codecs =
  bin_serialize :: "snapshot \<Rightarrow> u8 list option"
  bin_orders :: "order list \<Rightarrow> u8 list"
  bin_deserialize :: "u8 list \<Rightarrow> snapshot option"
  crc_hash :: "u8 list \<Rightarrow> u32"

text \<open>Where a save stops: it may fail to create the directory, to write the temporary file (leaving some prefix of it) or to rename it.\<close>

datatype save_io = SaveOk | MkdirFails | WriteFails nat | RenameFails

section \<open>File names\<close>

definition digit :: "nat \<Rightarrow> char" where
  "digit n = char_of (48 + n)"

fun decimal :: "nat \<Rightarrow> string" where
  "decimal n = (if n < 10 then [digit n] else decimal (n div 10) @ [digit (n mod 10)])"

declare decimal.simps [simp del]

text \<open>\<open>format!("snapshot_{:010}.bin", n)\<close>\<close>

definition pad10 :: "string \<Rightarrow> string" where
  "pad10 s = replicate (10 - length s) (digit 0) @ s"

definition snapshot_filename :: "nat \<Rightarrow> string" where
  "snapshot_filename n = ''snapshot_'' @ pad10 (decimal n) @ ''.bin''"

definition starts_with :: "string \<Rightarrow> string \<Rightarrow> bool" where
  "starts_with n p \<longleftrightarrow> take (length p) n = p"

definition ends_with :: "string \<Rightarrow> string \<Rightarrow> bool" where
  "ends_with n s \<longleftrightarrow> length s \<le> length n \<and> drop (length n - length s) n = s"

text \<open>
  \<open>to_str\<close> of a file name, which is any sequence of bytes: it must be UTF-8. The first byte of a character
  tells how many more belong to it, and the range of the second keeps out overlong forms, surrogates and
  what is beyond the last code point.
\<close>

definition continues :: "nat \<Rightarrow> nat \<Rightarrow> char \<Rightarrow> bool" where
  "continues lo hi c \<longleftrightarrow> lo \<le> of_char c \<and> of_char c \<le> hi"

definition second_byte :: "nat \<Rightarrow> char \<Rightarrow> bool" where
  "second_byte b = (if b = 0xE0 then continues 0xA0 0xBF else if b = 0xED then continues 0x80 0x9F
     else if b = 0xF0 then continues 0x90 0xBF else if b = 0xF4 then continues 0x80 0x8F else continues 0x80 0xBF)"

fun is_utf8 :: "string \<Rightarrow> bool" where
  "is_utf8 [] \<longleftrightarrow> True"
| "is_utf8 (c # cs) \<longleftrightarrow> (let b = of_char c :: nat in
     if b < 0x80 then is_utf8 cs
     else (case cs of
         [] \<Rightarrow> False
       | c1 # cs1 \<Rightarrow> second_byte b c1 \<and>
           (if 0xC2 \<le> b \<and> b \<le> 0xDF then is_utf8 cs1
            else (case cs1 of
                [] \<Rightarrow> False
              | c2 # cs2 \<Rightarrow> continues 0x80 0xBF c2 \<and>
                  (if 0xE0 \<le> b \<and> b \<le> 0xEF then is_utf8 cs2
                   else (case cs2 of
                       [] \<Rightarrow> False
                     | c3 # cs3 \<Rightarrow> 0xF0 \<le> b \<and> b \<le> 0xF4 \<and> continues 0x80 0xBF c3 \<and> is_utf8 cs3))))))"

definition to_str :: "string \<Rightarrow> string option" where
  "to_str n = (if is_utf8 n then Some n else None)"

definition is_snapshot_name :: "string \<Rightarrow> bool" where
  "is_snapshot_name n \<longleftrightarrow>
     (case to_str n of Some n \<Rightarrow> starts_with n ''snapshot_'' \<and> ends_with n ''.bin'' | None \<Rightarrow> False)"

section \<open>Operations\<close>

definition compute_checksum :: "codecs \<Rightarrow> order list \<Rightarrow> u32" where
  "compute_checksum k orders = crc_hash k (bin_orders k orders)"

definition capture :: "codecs \<Rightarrow> matching_engine \<Rightarrow> nat \<Rightarrow> snapshot option" where
  "capture k e wal_record_count = do {
     orders \<leftarrow> all_resting_orders (e_book e);
     Some \<lparr>sn_wal_record_count = wal_record_count, sn_orders = orders, sn_best_bid = best_bid (e_book e),
           sn_best_ask = best_ask (e_book e), sn_checksum = compute_checksum k orders\<rparr>
   }"

definition save :: "codecs \<Rightarrow> snapshot \<Rightarrow> directory option \<Rightarrow> save_io \<Rightarrow> (snapshot_error + string) \<times> directory option" where
  "save k snap dir io =
     (if io = MkdirFails then (Inl SnapIo, dir)
      else
        let dir = (case dir of None \<Rightarrow> [] | Some d \<Rightarrow> d);
            final_path = snapshot_filename (sn_wal_record_count snap);
            tmp_path = final_path @ ''.tmp''
        in (case bin_serialize k snap of
              None \<Rightarrow> (Inl Serialize, Some dir)
            | Some data \<Rightarrow>
                (case io of
                   WriteFails n \<Rightarrow> (Inl SnapIo, Some (hm_insert dir tmp_path (take n data)))
                 | RenameFails \<Rightarrow> (Inl SnapIo, Some (hm_insert dir tmp_path data))
                 | _ \<Rightarrow> (Inr final_path, Some (hm_insert (hm_remove (hm_insert dir tmp_path data) tmp_path) final_path data)))))"

definition load_from_file :: "codecs \<Rightarrow> (string \<Rightarrow> bool) \<Rightarrow> directory \<Rightarrow> string \<Rightarrow> snapshot_error + snapshot" where
  "load_from_file k readable dir path =
     (case hm_get dir path of
        None \<Rightarrow> Inl SnapIo
      | Some data \<Rightarrow>
          if \<not> readable path then Inl SnapIo
          else (case bin_deserialize k data of None \<Rightarrow> Inl Deserialize | Some snap \<Rightarrow> Inr snap))"

definition verify_checksum :: "codecs \<Rightarrow> snapshot \<Rightarrow> snapshot_error + unit" where
  "verify_checksum k snap =
     (let actual = compute_checksum k (sn_orders snap) in
      if sn_checksum snap = actual then Inr () else Inl (ChecksumMismatch (sn_checksum snap) actual))"

text \<open>The \<open>while let Some(path) = snapshot_files.pop()\<close> loop, on the files with the last one first.\<close>

fun load_loop :: "codecs \<Rightarrow> (string \<Rightarrow> bool) \<Rightarrow> directory \<Rightarrow> string list \<Rightarrow> snapshot option" where
  "load_loop k readable dir [] = None"
| "load_loop k readable dir (path # files) =
     (case load_from_file k readable dir path of
        Inr snap \<Rightarrow> (case verify_checksum k snap of Inr _ \<Rightarrow> Some snap | Inl _ \<Rightarrow> load_loop k readable dir files)
      | Inl _ \<Rightarrow> load_loop k readable dir files)"

definition load_latest ::
  "codecs \<Rightarrow> bool \<Rightarrow> (string \<Rightarrow> bool) \<Rightarrow> directory option \<Rightarrow> snapshot_error + snapshot option" where
  "load_latest k listable readable dir =
     (case dir of
        None \<Rightarrow> Inr None
      | Some d \<Rightarrow>
          if \<not> listable then Inl SnapIo
          else Inr (load_loop k readable d (rev (sort (filter is_snapshot_name (hm_keys d))))))"

definition restore :: "snapshot \<Rightarrow> u32 \<Rightarrow> (snapshot_error + matching_engine) option" where
  "restore snap arena_capacity = do {
     r \<leftarrow> restore_from_orders (sn_orders snap) arena_capacity;
     Some (case r of Inl e \<Rightarrow> Inl (Restore e) | Inr engine \<Rightarrow> Inr engine)
   }"

end
