(* ===== verification/Snapshot_Laws.thy ===== *)
theory Snapshot_Laws
  imports Snapshot
begin

text \<open>
  What snapshots guarantee: a captured book is restored as it was; the loader returns the newest
  file that deserialises and whose checksum fits; a save that fails half-way changes nothing the
  loader sees; and, below ten thousand million records, the newest is the one saved last.
\<close>

section \<open>Capture and restore\<close>

lemma restore_refines:
  shows "if distinct (map o_id os) \<and> length os \<le> unat c
    then \<exists>e'. restore_from_orders os c = Some (Inr e') \<and> represents (e_book e') (foldl rest_order (\<lambda>_. []) os) \<and>
      capacity_of (e_book e') = unat c
    else \<exists>err. restore_from_orders os c = Some (Inl err)"
  using restore_loop_refines [OF engine_new_represents(1) [of c], of os] engine_new_represents(2) [of c]
  by (auto simp: restore_from_orders_def ids_def resting_def split: if_splits)

lemma capture_spec:
  assumes "represents (e_book e) A"
  shows "capture k e n = Some \<lparr>sn_wal_record_count = n, sn_orders = resting A, sn_best_bid = best_price (A Bid),
    sn_best_ask = best_price (A Ask), sn_checksum = compute_checksum k (resting A)\<rparr>"
  using all_resting_orders_view [OF assms] best_represents [OF assms, of Bid] best_represents [OF assms, of Ask]
  by (simp add: capture_def)

lemma restore_spec:
  assumes "represents b A" and "length (resting A) \<le> unat c" and "sn_orders snap = resting A"
  shows "\<exists>e'. restore snap c = Some (Inr e') \<and> represents (e_book e') A \<and> capacity_of (e_book e') = unat c"
proof -
  have ok: "abook_ok A" by (rule represents_abook_ok [OF assms(1)])
  then have "distinct (map o_id (resting A))" by (simp add: abook_ok_def ids_def)
  then show ?thesis
    using restore_refines [of "resting A" c] assms(2,3) rest_resting [OF ok] by (auto simp: restore_def)
qed

section \<open>Loading\<close>

definition valid_file :: "codecs \<Rightarrow> (string \<Rightarrow> bool) \<Rightarrow> directory \<Rightarrow> string \<Rightarrow> snapshot \<Rightarrow> bool" where
  "valid_file k readable d path snap \<longleftrightarrow> load_from_file k readable d path = Inr snap \<and> verify_checksum k snap = Inr ()"

lemma load_loop_spec:
  shows "load_loop k readable d files = None \<Longrightarrow> path \<in> set files \<Longrightarrow> \<not> valid_file k readable d path snap"
    and "load_loop k readable d files = Some snap \<Longrightarrow>
      \<exists>us path vs. files = us @ path # vs \<and> valid_file k readable d path snap \<and>
        (\<forall>u \<in> set us. \<forall>s. \<not> valid_file k readable d u s)"
proof -
  have skip: "load_loop k readable d (f # files) = load_loop k readable d files"
    if "\<forall>s. \<not> valid_file k readable d f s" for f files
    using that by (auto simp: valid_file_def split: sum.splits)
  have hit: "load_loop k readable d (f # files) = Some s" if "valid_file k readable d f s" for f files s
    using that by (simp add: valid_file_def)
  show "load_loop k readable d files = None \<Longrightarrow> path \<in> set files \<Longrightarrow> \<not> valid_file k readable d path snap"
    by (induction files) (use hit skip in fastforce)+
  show "load_loop k readable d files = Some snap \<Longrightarrow>
      \<exists>us path vs. files = us @ path # vs \<and> valid_file k readable d path snap \<and>
        (\<forall>u \<in> set us. \<forall>s. \<not> valid_file k readable d u s)"
  proof (induction files)
    case (Cons f files)
    show ?case
    proof (cases "\<exists>s. valid_file k readable d f s")
      case True
      then have "valid_file k readable d f snap" using hit [of f] Cons.prems by fastforce
      then show ?thesis by (intro exI [of _ "[]"] exI [of _ f] exI [of _ files]) simp
    next
      case False
      then obtain us path vs where "files = us @ path # vs" "valid_file k readable d path snap"
        "\<forall>u \<in> set us. \<forall>s. \<not> valid_file k readable d u s"
        using Cons.IH Cons.prems skip [of f files] by auto
      with False show ?thesis by (intro exI [of _ "f # us"] exI [of _ path] exI [of _ vs]) simp
    qed
  qed simp
qed

lemma load_loop_cong:
  "(\<And>f. f \<in> set files \<Longrightarrow> hm_get d f = hm_get d' f) \<Longrightarrow> load_loop k readable d files = load_loop k readable d' files"
  by (induction files) (auto simp: load_from_file_def split: option.splits sum.splits)

section \<open>The order of the file names\<close>

lemma digit_less: "a < 10 \<Longrightarrow> b < 10 \<Longrightarrow> digit a < digit b \<longleftrightarrow> a < b"
  by (simp add: digit_def less_char_def)

lemma digit_inj: "a < 10 \<Longrightarrow> b < 10 \<Longrightarrow> digit a = digit b \<longleftrightarrow> a = b"
  using digit_less [of a b] digit_less [of b a] by (metis less_irrefl linorder_neqE_nat)

text \<open>The last \<open>w\<close> decimal digits.\<close>

fun digits :: "nat \<Rightarrow> nat \<Rightarrow> string" where
  "digits 0 n = []"
| "digits (Suc w) n = digits w (n div 10) @ [digit (n mod 10)]"

lemma length_digits [simp]: "length (digits w n) = w"
  by (induction w arbitrary: n) auto

lemma digits_zero: "digits w 0 = replicate w (digit 0)"
  by (induction w) (auto simp: replicate_append_same)

lemma decimal_digits: "n < 10 ^ w \<Longrightarrow> 0 < w \<Longrightarrow> length (decimal n) \<le> w \<and>
    replicate (w - length (decimal n)) (digit 0) @ decimal n = digits w n"
proof (induction n arbitrary: w rule: decimal.induct)
  case (1 n)
  then obtain v where w: "w = Suc v" by (cases w) auto
  show ?case
  proof (cases "n < 10")
    case True
    then show ?thesis using w by (simp add: decimal.simps [of n] digits_zero)
  next
    case False
    then have v: "0 < v" using 1(2) w by (cases v) auto
    have "n div 10 < 10 ^ v" using 1(2) w by (simp add: less_mult_imp_div_less mult.commute)
    from 1(1) [OF False this v] show ?thesis
      using False w by (simp add: decimal.simps [of n] flip: append_assoc)
  qed
qed

lemma snoc_less:
  fixes xs ys :: string
  assumes "length xs = length ys"
  shows "xs @ [a] < ys @ [b] \<longleftrightarrow> xs < ys \<or> xs = ys \<and> a < b"
  using assms by (induction xs ys rule: list_induct2) auto

lemma lex10:
  fixes a b r s :: nat
  assumes "r < 10" and "s < 10"
  shows "a < b \<or> a = b \<and> r < s \<longleftrightarrow> 10 * a + r < 10 * b + s"
  using assms by auto

lemma digits_less: "n < 10 ^ w \<Longrightarrow> m < 10 ^ w \<Longrightarrow> digits w n < digits w m \<longleftrightarrow> n < m"
proof (induction w arbitrary: n m)
  case (Suc w)
  have d: "n div 10 < 10 ^ w" "m div 10 < 10 ^ w"
    using Suc.prems by (simp_all add: less_mult_imp_div_less mult.commute)
  have inj: "digits w (n div 10) = digits w (m div 10) \<longleftrightarrow> n div 10 = m div 10"
    using Suc.IH [OF d] Suc.IH [OF d(2,1)] by (metis less_irrefl linorder_neqE_nat)
  have "digits (Suc w) n < digits (Suc w) m \<longleftrightarrow> n div 10 < m div 10 \<or> n div 10 = m div 10 \<and> n mod 10 < m mod 10"
    using Suc.IH [OF d] inj by (simp add: snoc_less digit_less)
  also have "\<dots> \<longleftrightarrow> n < m"
    using lex10 [of "n mod 10" "m mod 10" "n div 10" "m div 10"] by simp
  finally show ?case .
qed simp

lemma append_less:
  fixes xs ys zs :: string
  shows "zs @ xs < zs @ ys \<longleftrightarrow> xs < ys"
  by (induction zs) auto

lemma append_less_right:
  fixes xs ys zs :: string
  assumes "length xs = length ys"
  shows "xs @ zs < ys @ zs \<longleftrightarrow> xs < ys"
  using assms by (induction xs ys rule: list_induct2) auto

lemma filename_less:
  assumes "n < 10 ^ 10" and "m < 10 ^ 10"
  shows "snapshot_filename n < snapshot_filename m \<longleftrightarrow> n < m"
proof -
  have p: "pad10 (decimal x) = digits 10 x" if "x < 10 ^ 10" for x
    using decimal_digits [OF that] by (simp add: pad10_def)
  show ?thesis
    unfolding snapshot_filename_def append_less p [OF assms(1)] p [OF assms(2)]
    by (simp add: append_less_right digits_less [OF assms])
qed

lemma of_char_digit: "d < 10 \<Longrightarrow> of_char (digit d) = 48 + d"
  by (simp add: digit_def)

lemma decimal_chars: "c \<in> set (decimal n) \<Longrightarrow> 48 \<le> (of_char c :: nat) \<and> (of_char c :: nat) < 58"
proof (induction n rule: decimal.induct)
  case (1 n)
  then show ?case by (auto simp: decimal.simps [of n] of_char_digit split: if_splits)
qed

lemma ascii_is_utf8: "\<forall>c \<in> set s. (of_char c :: nat) < 128 \<Longrightarrow> is_utf8 s"
  by (induction s) (simp_all add: Let_def)

lemma filename_is_utf8: "is_utf8 (snapshot_filename n)"
proof (rule ascii_is_utf8, rule ballI)
  fix c
  assume "c \<in> set (snapshot_filename n)"
  then have "c \<in> set ''snapshot_.bin'' \<or> c = digit 0 \<or> c \<in> set (decimal n)"
    by (auto simp: snapshot_filename_def pad10_def)
  then show "(of_char c :: nat) < 128" using decimal_chars [of c n] by (auto simp: of_char_digit)
qed

lemma filename_is_snapshot: "is_snapshot_name (snapshot_filename n)"
  using filename_is_utf8 [of n]
  by (simp add: is_snapshot_name_def to_str_def) (simp add: snapshot_filename_def starts_with_def ends_with_def)

lemma tmp_is_not_snapshot: "\<not> is_snapshot_name (f @ ''.tmp'')"
  by (simp add: is_snapshot_name_def to_str_def ends_with_def)

section \<open>Saving\<close>

definition snapshot_files :: "directory \<Rightarrow> string list" where
  "snapshot_files d = rev (sort (filter is_snapshot_name (hm_keys d)))"

lemma set_snapshot_files: "set (snapshot_files d) = {f \<in> set (hm_keys d). is_snapshot_name f}"
  by (simp add: snapshot_files_def)

lemma load_latest_files:
  "load_latest k True readable (Some d) = Inr (load_loop k readable d (snapshot_files d))"
  by (simp add: load_latest_def snapshot_files_def)

lemma hm_keys_insert_other:
  "\<not> P f \<Longrightarrow> filter P (hm_keys (hm_insert d f x)) = filter P (hm_keys d)"
  unfolding hm_keys_def hm_insert_def by (induction d) auto

lemma save_tmp_unseen:
  assumes "f = snapshot_filename n @ ''.tmp''" and "hm_inv d"
  shows "load_latest k True readable (Some (hm_insert d f x)) = load_latest k True readable (Some d)"
proof -
  have f: "\<not> is_snapshot_name f" by (simp add: assms(1) tmp_is_not_snapshot)
  then have "snapshot_files (hm_insert d f x) = snapshot_files d"
    by (simp add: snapshot_files_def hm_keys_insert_other)
  moreover have "load_loop k readable (hm_insert d f x) (snapshot_files d) = load_loop k readable d (snapshot_files d)"
    using f by (intro load_loop_cong) (auto simp: set_snapshot_files hash.get_ins [OF assms(2)])
  ultimately show ?thesis by (simp add: load_latest_files)
qed

lemma rev_sort_hd:
  fixes xs :: "string list"
  assumes "x \<in> set xs" and "\<forall>y \<in> set xs. y \<le> x"
  obtains ys where "rev (sort xs) = x # ys"
proof -
  have "rev (sort xs) \<noteq> []" using assms(1) by (metis empty_iff list.set(1) set_rev set_sort)
  then obtain y ys where ys: "rev (sort xs) = y # ys" by (meson neq_Nil_conv)
  then have s: "sort xs = rev ys @ [y]" by (metis rev.simps(2) rev_rev_ident)
  have "sorted (rev ys @ [y])" using s by (metis sorted_sort)
  moreover have "x \<in> set (rev ys @ [y])" "y \<in> set xs" using assms(1) s by (metis set_sort, metis in_set_conv_decomp set_sort)
  ultimately have "x \<le> y" "y \<le> x" using assms(2) by (auto simp: sorted_append)
  with ys that show thesis by simp
qed

lemma save_ok:
  assumes "bin_serialize k snap = Some data" and "hm_inv d"
  shows "\<exists>d'. save k snap (Some d) SaveOk = (Inr (snapshot_filename (sn_wal_record_count snap)), Some d') \<and> hm_inv d' \<and>
    (\<forall>f. hm_get d' f = (if f = snapshot_filename (sn_wal_record_count snap) then Some data
       else if f = snapshot_filename (sn_wal_record_count snap) @ ''.tmp'' then None else hm_get d f))"
  using assms by (auto simp: save_def Let_def hash.get_ins hash.get_del hash.invar_ins hash.invar_del)

end
