(* ===== verification/Protocol.thy ===== *)
theory Protocol
  imports Matching
begin

text \<open>
  \<open>src/src/protocol.rs\<close>: the fixed-layout binary messages. A buffer is a list of bytes; a writer
  returns its \<open>Result\<close> and the buffer as it left it. Reads and writes go through \<open>get\<close> and
  \<open>get_mut\<close>, so out of range is the error \<open>BufferTooShort\<close>, not a panic. The three message
  formats share one contract, the locale \<open>codec\<close>.
\<close>

section \<open>Data\<close>

definition MSG_NEW_ORDER :: u8 where "MSG_NEW_ORDER = 1"
definition MSG_CANCEL_ORDER :: u8 where "MSG_CANCEL_ORDER = 2"
definition MSG_EXECUTION_REPORT :: u8 where "MSG_EXECUTION_REPORT = 3"

definition NEW_ORDER_SIZE :: nat where "NEW_ORDER_SIZE = 40"
definition CANCEL_ORDER_SIZE :: nat where "CANCEL_ORDER_SIZE = 16"
definition EXECUTION_REPORT_SIZE :: nat where "EXECUTION_REPORT_SIZE = 48"

datatype engine_command = NewOrder order | CancelOrder u64

record execution_report =
  x_seq_num :: u32
  x_taker_order_id :: u64
  x_maker_order_id :: u64
  x_price :: i64
  x_quantity :: u64
  x_timestamp :: u64

datatype protocol_error = BufferTooShort | UnknownMessageType u8 | InvalidSide u8 | ZeroQuantityMsg

section \<open>The \<open>?\<close> operator\<close>

text \<open>On a \<open>Result\<close>, and on the \<open>Result\<close> of a call that also changed a buffer.\<close>

fun try_then :: "'e + 'a \<Rightarrow> ('a \<Rightarrow> 'e + 'b) \<Rightarrow> 'e + 'b" where
  "try_then (Inl e) f = Inl e"
| "try_then (Inr x) f = f x"

fun and_then :: "('e + unit) \<times> 's \<Rightarrow> ('s \<Rightarrow> ('e + 'b) \<times> 's) \<Rightarrow> ('e + 'b) \<times> 's" where
  "and_then (Inl e, s) f = (Inl e, s)"
| "and_then (Inr _, s) f = f s"

section \<open>Fields\<close>

definition read_u8 :: "u8 list \<Rightarrow> nat \<Rightarrow> protocol_error + u8" where
  "read_u8 buf offset = (if offset < length buf then Inr (buf ! offset) else Inl BufferTooShort)"

definition read_u32 :: "u8 list \<Rightarrow> nat \<Rightarrow> protocol_error + u32" where
  "read_u32 buf offset =
     (case slice buf offset (offset + 4) of None \<Rightarrow> Inl BufferTooShort | Some bytes \<Rightarrow> Inr (from_le bytes))"

definition read_u64 :: "u8 list \<Rightarrow> nat \<Rightarrow> protocol_error + u64" where
  "read_u64 buf offset =
     (case slice buf offset (offset + 8) of None \<Rightarrow> Inl BufferTooShort | Some bytes \<Rightarrow> Inr (from_le bytes))"

definition read_i64 :: "u8 list \<Rightarrow> nat \<Rightarrow> protocol_error + i64" where
  "read_i64 buf offset =
     (case slice buf offset (offset + 8) of None \<Rightarrow> Inl BufferTooShort | Some bytes \<Rightarrow> Inr (I64 (from_le bytes)))"

definition write_u8 :: "u8 list \<Rightarrow> nat \<Rightarrow> u8 \<Rightarrow> (protocol_error + unit) \<times> u8 list" where
  "write_u8 buf offset val =
     (case vec_set buf offset val of None \<Rightarrow> (Inl BufferTooShort, buf) | Some buf' \<Rightarrow> (Inr (), buf'))"

definition write_u32 :: "u8 list \<Rightarrow> nat \<Rightarrow> u32 \<Rightarrow> (protocol_error + unit) \<times> u8 list" where
  "write_u32 buf offset val =
     (case copy_into buf offset (to_le 4 val) of None \<Rightarrow> (Inl BufferTooShort, buf) | Some buf' \<Rightarrow> (Inr (), buf'))"

definition write_u64 :: "u8 list \<Rightarrow> nat \<Rightarrow> u64 \<Rightarrow> (protocol_error + unit) \<times> u8 list" where
  "write_u64 buf offset val =
     (case copy_into buf offset (to_le 8 val) of None \<Rightarrow> (Inl BufferTooShort, buf) | Some buf' \<Rightarrow> (Inr (), buf'))"

definition write_i64 :: "u8 list \<Rightarrow> nat \<Rightarrow> i64 \<Rightarrow> (protocol_error + unit) \<times> u8 list" where
  "write_i64 buf offset val =
     (case copy_into buf offset (to_le 8 (i64_bits val)) of
        None \<Rightarrow> (Inl BufferTooShort, buf) | Some buf' \<Rightarrow> (Inr (), buf'))"

definition decode_side :: "u8 \<Rightarrow> protocol_error + side" where
  "decode_side val = (if val = 0 then Inr Bid else if val = 1 then Inr Ask else Inl (InvalidSide val))"

fun encode_side :: "side \<Rightarrow> u8" where
  "encode_side Bid = 0"
| "encode_side Ask = 1"

text \<open>\<open>buf[..n].fill(0)\<close>; every caller has checked that \<open>buf\<close> has \<open>n\<close> bytes.\<close>

definition fill_zero :: "u8 list \<Rightarrow> nat \<Rightarrow> u8 list" where
  "fill_zero buf n = splice buf 0 (replicate n 0)"

section \<open>Messages\<close>

definition decode_new_order :: "u8 list \<Rightarrow> protocol_error + order" where
  "decode_new_order buf =
     (if length buf < NEW_ORDER_SIZE then Inl BufferTooShort
      else try_then (try_then (read_u8 buf 1) decode_side) (\<lambda>side.
           try_then (read_u64 buf 8) (\<lambda>order_id.
           try_then (read_u64 buf 16) (\<lambda>trader_id.
           try_then (read_i64 buf 24) (\<lambda>price.
           try_then (read_u64 buf 32) (\<lambda>quantity.
             if quantity = 0 then Inl ZeroQuantityMsg
             else Inr \<lparr>o_id = order_id, o_trader_id = trader_id, o_side = side, o_price = price,
                       o_quantity = quantity, o_timestamp = 0\<rparr>))))))"

definition encode_new_order :: "u8 list \<Rightarrow> order \<Rightarrow> (protocol_error + nat) \<times> u8 list" where
  "encode_new_order buf ord =
     (if length buf < NEW_ORDER_SIZE then (Inl BufferTooShort, buf)
      else let buf = fill_zero buf NEW_ORDER_SIZE in
           and_then (write_u8 buf 0 MSG_NEW_ORDER) (\<lambda>buf.
           and_then (write_u8 buf 1 (encode_side (o_side ord))) (\<lambda>buf.
           and_then (write_u64 buf 8 (o_id ord)) (\<lambda>buf.
           and_then (write_u64 buf 16 (o_trader_id ord)) (\<lambda>buf.
           and_then (write_i64 buf 24 (o_price ord)) (\<lambda>buf.
           and_then (write_u64 buf 32 (o_quantity ord)) (\<lambda>buf.
             (Inr NEW_ORDER_SIZE, buf))))))))"

definition decode_cancel_order :: "u8 list \<Rightarrow> protocol_error + u64" where
  "decode_cancel_order buf =
     (if length buf < CANCEL_ORDER_SIZE then Inl BufferTooShort else read_u64 buf 8)"

definition encode_cancel_order :: "u8 list \<Rightarrow> u64 \<Rightarrow> (protocol_error + nat) \<times> u8 list" where
  "encode_cancel_order buf order_id =
     (if length buf < CANCEL_ORDER_SIZE then (Inl BufferTooShort, buf)
      else let buf = fill_zero buf CANCEL_ORDER_SIZE in
           and_then (write_u8 buf 0 MSG_CANCEL_ORDER) (\<lambda>buf.
           and_then (write_u64 buf 8 order_id) (\<lambda>buf.
             (Inr CANCEL_ORDER_SIZE, buf))))"

definition decode_message :: "u8 list \<Rightarrow> protocol_error + engine_command" where
  "decode_message buf =
     try_then (read_u8 buf 0) (\<lambda>msg_type.
       if msg_type = MSG_NEW_ORDER then try_then (decode_new_order buf) (\<lambda>ord. Inr (NewOrder ord))
       else if msg_type = MSG_CANCEL_ORDER
       then try_then (decode_cancel_order buf) (\<lambda>order_id. Inr (CancelOrder order_id))
       else Inl (UnknownMessageType msg_type))"

definition message_size :: "u8 \<Rightarrow> protocol_error + nat" where
  "message_size msg_type =
     (if msg_type = MSG_NEW_ORDER then Inr NEW_ORDER_SIZE
      else if msg_type = MSG_CANCEL_ORDER then Inr CANCEL_ORDER_SIZE
      else Inl (UnknownMessageType msg_type))"

definition encode_execution_report ::
  "u8 list \<Rightarrow> u32 \<Rightarrow> fill \<Rightarrow> u64 \<Rightarrow> (protocol_error + nat) \<times> u8 list" where
  "encode_execution_report buf seq_num fill timestamp =
     (if length buf < EXECUTION_REPORT_SIZE then (Inl BufferTooShort, buf)
      else let buf = fill_zero buf EXECUTION_REPORT_SIZE in
           and_then (write_u8 buf 0 MSG_EXECUTION_REPORT) (\<lambda>buf.
           and_then (write_u32 buf 4 seq_num) (\<lambda>buf.
           and_then (write_u64 buf 8 (f_taker_order_id fill)) (\<lambda>buf.
           and_then (write_u64 buf 16 (f_maker_order_id fill)) (\<lambda>buf.
           and_then (write_i64 buf 24 (f_price fill)) (\<lambda>buf.
           and_then (write_u64 buf 32 (f_quantity fill)) (\<lambda>buf.
           and_then (write_u64 buf 40 timestamp) (\<lambda>buf.
             (Inr EXECUTION_REPORT_SIZE, buf)))))))))"

definition decode_execution_report :: "u8 list \<Rightarrow> protocol_error + execution_report" where
  "decode_execution_report buf =
     (if length buf < EXECUTION_REPORT_SIZE then Inl BufferTooShort
      else try_then (read_u32 buf 4) (\<lambda>seq_num.
           try_then (read_u64 buf 8) (\<lambda>taker_order_id.
           try_then (read_u64 buf 16) (\<lambda>maker_order_id.
           try_then (read_i64 buf 24) (\<lambda>price.
           try_then (read_u64 buf 32) (\<lambda>quantity.
           try_then (read_u64 buf 40) (\<lambda>timestamp.
             Inr \<lparr>x_seq_num = seq_num, x_taker_order_id = taker_order_id, x_maker_order_id = maker_order_id,
                   x_price = price, x_quantity = quantity, x_timestamp = timestamp\<rparr>)))))))"

lemmas protocol_consts [simp] =
  MSG_NEW_ORDER_def MSG_CANCEL_ORDER_def MSG_EXECUTION_REPORT_def
  NEW_ORDER_SIZE_def CANCEL_ORDER_SIZE_def EXECUTION_REPORT_SIZE_def

section \<open>The layout of a message\<close>

definition new_order_bytes :: "order \<Rightarrow> u8 list" where
  "new_order_bytes ord = [MSG_NEW_ORDER, encode_side (o_side ord), 0, 0, 0, 0, 0, 0] @ to_le 8 (o_id ord) @
     to_le 8 (o_trader_id ord) @ to_le 8 (i64_bits (o_price ord)) @ to_le 8 (o_quantity ord)"

definition cancel_order_bytes :: "u64 \<Rightarrow> u8 list" where
  "cancel_order_bytes d = [MSG_CANCEL_ORDER, 0, 0, 0, 0, 0, 0, 0] @ to_le 8 d"

definition report_bytes :: "u32 \<times> fill \<times> u64 \<Rightarrow> u8 list" where
  "report_bytes = (\<lambda>(n, f, ts). [MSG_EXECUTION_REPORT, 0, 0, 0] @ to_le 4 n @ to_le 8 (f_taker_order_id f) @
     to_le 8 (f_maker_order_id f) @ to_le 8 (i64_bits (f_price f)) @ to_le 8 (f_quantity f) @ to_le 8 ts)"

text \<open>A field read inside a concatenation of fields.\<close>

lemma from_le_8 [simp]: "from_le (to_le 8 (w :: u64)) = w"
  by (rule from_le_to_le) simp

lemma from_le_4 [simp]: "from_le (to_le 4 (w :: u32)) = w"
  by (rule from_le_to_le) simp

lemma length_bytes [simp]:
  "length (new_order_bytes ord) = 40" "length (cancel_order_bytes d) = 16" "length (report_bytes x) = 48"
  by (simp_all add: new_order_bytes_def cancel_order_bytes_def report_bytes_def split: prod.split)

lemma decode_side_encode [simp]: "decode_side (encode_side s) = Inr s"
  by (cases s) (simp_all add: decode_side_def)

lemmas read_defs = read_u8_def read_u32_def read_u64_def read_i64_def slice_def
lemmas write_defs = write_u8_def write_u32_def write_u64_def write_i64_def copy_into_def splice_def

lemma fill_zero_eq: "n \<le> length buf \<Longrightarrow> fill_zero buf n = replicate n 0 @ drop n buf"
  by (simp add: fill_zero_def splice_def)

lemma zero_bytes:
  "replicate 40 (0::u8) =
    [0,0,0,0,0,0,0,0, 0,0,0,0,0,0,0,0, 0,0,0,0,0,0,0,0, 0,0,0,0,0,0,0,0, 0,0,0,0,0,0,0,0]"
  "replicate 16 (0::u8) = [0,0,0,0,0,0,0,0, 0,0,0,0,0,0,0,0]"
  "replicate 48 (0::u8) =
    [0,0,0,0,0,0,0,0, 0,0,0,0,0,0,0,0, 0,0,0,0,0,0,0,0, 0,0,0,0,0,0,0,0, 0,0,0,0,0,0,0,0, 0,0,0,0,0,0,0,0]"
  by code_simp+

lemma encode_new_order_bytes:
  assumes "40 \<le> length buf"
  shows "encode_new_order buf ord = (Inr 40, new_order_bytes ord @ drop 40 buf)"
proof -
  obtain rest where "fill_zero buf 40 = replicate 40 0 @ rest" "drop 40 buf = rest"
    using fill_zero_eq [OF assms] by blast
  with assms show ?thesis
    by (simp add: encode_new_order_def write_defs new_order_bytes_def zero_bytes)
qed

lemma encode_cancel_order_bytes:
  assumes "16 \<le> length buf"
  shows "encode_cancel_order buf d = (Inr 16, cancel_order_bytes d @ drop 16 buf)"
proof -
  obtain rest where "fill_zero buf 16 = replicate 16 0 @ rest" "drop 16 buf = rest"
    using fill_zero_eq [OF assms] by blast
  with assms show ?thesis
    by (simp add: encode_cancel_order_def write_defs cancel_order_bytes_def zero_bytes)
qed

lemma encode_execution_report_bytes:
  assumes "48 \<le> length buf"
  shows "encode_execution_report buf n f ts = (Inr 48, report_bytes (n, f, ts) @ drop 48 buf)"
proof -
  obtain rest where "fill_zero buf 48 = replicate 48 0 @ rest" "drop 48 buf = rest"
    using fill_zero_eq [OF assms] by blast
  with assms show ?thesis
    by (simp add: encode_execution_report_def write_defs report_bytes_def zero_bytes)
qed

lemma decode_new_order_bytes:
  "decode_new_order (new_order_bytes ord @ rest) =
     (if o_quantity ord = 0 then Inl ZeroQuantityMsg else Inr (ord\<lparr>o_timestamp := 0\<rparr>))"
  by (simp add: decode_new_order_def read_defs new_order_bytes_def)

lemma decode_cancel_order_bytes: "decode_cancel_order (cancel_order_bytes d @ rest) = Inr d"
  by (simp add: decode_cancel_order_def read_defs cancel_order_bytes_def)

lemma decode_execution_report_bytes:
  "decode_execution_report (report_bytes (n, f, ts) @ rest) =
     Inr \<lparr>x_seq_num = n, x_taker_order_id = f_taker_order_id f, x_maker_order_id = f_maker_order_id f,
          x_price = f_price f, x_quantity = f_quantity f, x_timestamp = ts\<rparr>"
  by (simp add: decode_execution_report_def read_defs report_bytes_def)

section \<open>The contract of a message format\<close>

text \<open>
  Encoding needs \<open>size\<close> bytes, writes exactly those, the same ones whatever the buffer held, and
  decoding a buffer that starts with them gives back the \<open>view\<close> of the value.
\<close>

locale codec =
  fixes enc :: "u8 list \<Rightarrow> 'a \<Rightarrow> (protocol_error + nat) \<times> u8 list"
    and dec :: "u8 list \<Rightarrow> protocol_error + 'b"
    and size :: nat and bytes :: "'a \<Rightarrow> u8 list" and valid :: "'a \<Rightarrow> bool" and view :: "'a \<Rightarrow> 'b"
  assumes enc_short: "length buf < size \<Longrightarrow> enc buf x = (Inl BufferTooShort, buf)"
    and enc_bytes: "size \<le> length buf \<Longrightarrow> enc buf x = (Inr size, bytes x @ drop size buf)"
    and bytes_length: "length (bytes x) = size"
    and dec_short: "length buf < size \<Longrightarrow> dec buf = Inl BufferTooShort"
    and dec_bytes: "valid x \<Longrightarrow> dec (bytes x @ rest) = Inr (view x)"
begin

lemma enc_result: "fst (enc buf x) = (if length buf < size then Inl BufferTooShort else Inr size)"
  by (simp add: enc_short enc_bytes not_less)

lemma enc_length: "length (snd (enc buf x)) = length buf"
  by (cases "length buf < size") (auto simp: enc_short enc_bytes bytes_length)

lemma enc_frame: "size \<le> i \<Longrightarrow> i < length buf \<Longrightarrow> snd (enc buf x) ! i = buf ! i"
  by (auto simp: enc_bytes nth_append bytes_length)

lemma dec_enc:
  assumes "size \<le> length buf" and "valid x"
  shows "enc buf x = (Inr size, snd (enc buf x)) \<and> dec (snd (enc buf x)) = Inr (view x) \<and>
    dec (take size (snd (enc buf x))) = Inr (view x)"
  using assms dec_bytes [OF assms(2), of "[]"] by (simp add: enc_bytes dec_bytes bytes_length)

lemma bytes_view: "valid x \<Longrightarrow> valid y \<Longrightarrow> bytes x = bytes y \<Longrightarrow> view x = view y"
  by (metis dec_bytes sum.inject(2))

end

interpretation new_order_codec: codec encode_new_order decode_new_order NEW_ORDER_SIZE new_order_bytes
  "\<lambda>ord. o_quantity ord \<noteq> 0" "\<lambda>ord. ord\<lparr>o_timestamp := 0\<rparr>"
  by unfold_locales
    (simp_all add: encode_new_order_bytes decode_new_order_bytes, simp_all add: encode_new_order_def decode_new_order_def)

interpretation cancel_codec: codec encode_cancel_order decode_cancel_order CANCEL_ORDER_SIZE cancel_order_bytes
  "\<lambda>_. True" "\<lambda>d. d"
  by unfold_locales
    (simp_all add: encode_cancel_order_bytes decode_cancel_order_bytes,
      simp_all add: encode_cancel_order_def decode_cancel_order_def)

interpretation report_codec: codec "\<lambda>buf (n, f, ts). encode_execution_report buf n f ts" decode_execution_report
  EXECUTION_REPORT_SIZE report_bytes "\<lambda>_. True"
  "\<lambda>(n, f, ts). \<lparr>x_seq_num = n, x_taker_order_id = f_taker_order_id f, x_maker_order_id = f_maker_order_id f,
     x_price = f_price f, x_quantity = f_quantity f, x_timestamp = ts\<rparr>"
  by unfold_locales
    (simp_all add: encode_execution_report_bytes decode_execution_report_bytes split: prod.split,
      simp_all add: encode_execution_report_def decode_execution_report_def)

section \<open>Decoding an arbitrary buffer\<close>

text \<open>What the decoder accepts, and that it forgets nothing but the reserved bytes.\<close>

lemma le_8_from [simp]: "length bs = 8 \<Longrightarrow> to_le 8 (from_le bs :: u64) = bs"
  by (rule to_le_from_le) auto

lemma decode_new_order_inv:
  assumes "decode_new_order buf = Inr ord"
  shows "40 \<le> length buf \<and> buf ! 1 = encode_side (o_side ord) \<and> o_quantity ord \<noteq> 0 \<and> o_timestamp ord = 0 \<and>
    drop 8 (new_order_bytes ord) = take 32 (drop 8 buf)"
proof -
  have len: "40 \<le> length buf" using assms by (auto simp: decode_new_order_def split: if_splits)
  have side: "decode_side (buf ! 1) = Inr (o_side ord)"
    and qty: "o_quantity ord \<noteq> 0" "o_timestamp ord = 0"
    and flds: "o_id ord = from_le (take 8 (drop 8 buf))" "o_trader_id ord = from_le (take 8 (drop 16 buf))"
      "o_price ord = I64 (from_le (take 8 (drop 24 buf)))" "o_quantity ord = from_le (take 8 (drop 32 buf))"
    using assms len
    by (auto simp: decode_new_order_def read_defs split: if_splits elim!: try_then.elims)
  have "drop 8 (new_order_bytes ord) =
      take 8 (drop 8 buf) @ take 8 (drop 16 buf) @ take 8 (drop 24 buf) @ take 8 (drop 32 buf)"
    using len by (simp add: new_order_bytes_def flds)
  also have "\<dots> = take 32 (drop 8 buf)"
    using take_add [of 8 24 "drop 8 buf"] take_add [of 8 16 "drop 16 buf"] take_add [of 8 8 "drop 24 buf"]
    by simp
  finally show ?thesis
    using len qty side by (auto simp: decode_side_def split: if_splits)
qed

end
