(* ===== verification/Wal.thy ===== *)
theory Wal
  imports Protocol
begin

text \<open>
  \<open>src/src/wal.rs\<close>: the write-ahead log in a memory-mapped file. The mapped bytes are a list; the
  file may be longer than the mapping (after a failed remap) and its other bytes are zero. The
  checksum \<open>crc32fast::hash\<close> is the parameter \<open>crc\<close>, and the outcome of growing the file is a
  parameter of the calls that may grow it. Offsets and sizes are \<open>u64\<close>/\<open>usize\<close> in the source and
  natural numbers here: a file has less than \<open>2 ^ 63\<close> bytes, so no sum or doubling of them wraps.
  \<open>align_up\<close>, which is bit arithmetic, is kept at its width.
\<close>

section \<open>Data\<close>

definition HEADER_SIZE :: nat where "HEADER_SIZE = 8"
definition ALIGNMENT :: usize where "ALIGNMENT = 8"
definition DEFAULT_INITIAL_SIZE :: nat where "DEFAULT_INITIAL_SIZE = 64 * 1024 * 1024"

definition align_up :: "usize \<Rightarrow> usize" where
  "align_up n = (n + ALIGNMENT - 1) AND NOT (ALIGNMENT - 1)"

text \<open>Which \<open>io::Error\<close> it was is not kept.\<close>

datatype wal_error = WalIo | WalProtocol protocol_error | Corruption nat | TruncatedRecord nat

record wal =
  w_mmap :: "u8 list"
  w_file_len :: nat
  w_write_pos :: nat
  w_mapped_size :: nat
  w_encode_buf :: "u8 list"
  w_record_count :: nat

text \<open>What the system may answer to \<open>set_len\<close> followed by \<open>map_mut\<close>.\<close>

datatype grow = GrowOk | SetLenFails | MapFails

text \<open>The bytes of the file.\<close>

definition wal_file :: "wal \<Rightarrow> u8 list" where
  "wal_file w = w_mmap w @ replicate (w_file_len w - length (w_mmap w)) 0"

section \<open>Operations\<close>

text \<open>\<open>align_up(HEADER_SIZE + payload_len)\<close>\<close>

definition record_size :: "nat \<Rightarrow> nat" where
  "record_size payload_len = unat (align_up (of_nat (HEADER_SIZE + payload_len)))"

text \<open>\<open>u32::from_le_bytes(self.mmap[p..p + 4].try_into().unwrap())\<close>\<close>

definition u32_at :: "u8 list \<Rightarrow> nat \<Rightarrow> u32 option" where
  "u32_at mmap p = map_option from_le (slice mmap p (p + 4))"

text \<open>The loop of \<open>scan_to_end\<close>: the position and the count where it stops.\<close>

partial_function (option) scan_loop ::
  "(u8 list \<Rightarrow> u32) \<Rightarrow> u8 list \<Rightarrow> nat \<Rightarrow> nat \<Rightarrow> nat \<Rightarrow> (nat \<times> nat) option" where
  "scan_loop crc mmap file_len pos cnt =
     (if pos + HEADER_SIZE > file_len then Some (pos, cnt)
      else do {
        len \<leftarrow> u32_at mmap pos;
        let payload_len = unat len;
        (if payload_len = 0 then Some (pos, cnt)
         else if pos + record_size payload_len > file_len then Some (pos, cnt)
         else do {
           stored_crc \<leftarrow> u32_at mmap (pos + 4);
           payload \<leftarrow> slice mmap (pos + HEADER_SIZE) (pos + HEADER_SIZE + payload_len);
           (if stored_crc \<noteq> crc payload then Some (pos, cnt)
            else scan_loop crc mmap file_len (pos + record_size payload_len) (cnt + 1))
         })
      })"

definition scan_to_end :: "(u8 list \<Rightarrow> u32) \<Rightarrow> wal \<Rightarrow> wal option" where
  "scan_to_end crc w = do {
     (pos, cnt) \<leftarrow> scan_loop crc (w_mmap w) (w_mapped_size w) 0 0;
     Some (w\<lparr>w_write_pos := pos, w_record_count := cnt\<rparr>)
   }"

text \<open>
  \<open>file\<close> is what the file holds when it is opened (nothing, if it is created). A failure of \<open>open\<close> or of
  \<open>metadata\<close> has the outcome of \<open>MapFails\<close>: the error is returned and nothing is changed.
\<close>

definition open_with_size :: "(u8 list \<Rightarrow> u32) \<Rightarrow> u8 list \<Rightarrow> nat \<Rightarrow> grow \<Rightarrow> (wal_error + wal) option" where
  "open_with_size crc file initial_size g =
     (let file_len = length file in
      if (file_len < initial_size \<and> g = SetLenFails) \<or> g = MapFails then Some (Inl WalIo)
      else do {
        let mapped_size = (if file_len < initial_size then initial_size else file_len);
        let wal = \<lparr>w_mmap = file @ replicate (mapped_size - file_len) 0, w_file_len = mapped_size,
                   w_write_pos = 0, w_mapped_size = mapped_size,
                   w_encode_buf = replicate NEW_ORDER_SIZE 0, w_record_count = 0\<rparr>;
        wal \<leftarrow> scan_to_end crc wal;
        Some (Inr wal)
      })"

definition wal_open :: "(u8 list \<Rightarrow> u32) \<Rightarrow> u8 list \<Rightarrow> grow \<Rightarrow> (wal_error + wal) option" where
  "wal_open crc file g = open_with_size crc file DEFAULT_INITIAL_SIZE g"

definition ensure_capacity :: "wal \<Rightarrow> nat \<Rightarrow> grow \<Rightarrow> (wal_error + unit) \<times> wal" where
  "ensure_capacity w needed g =
     (if w_write_pos w + needed \<le> w_mapped_size w then (Inr (), w)
      else let new_size = max (w_mapped_size w * 2) (w_write_pos w + needed) in
        (case g of
           SetLenFails \<Rightarrow> (Inl WalIo, w)
         | MapFails \<Rightarrow> (Inl WalIo, w\<lparr>w_file_len := new_size\<rparr>)
         | GrowOk \<Rightarrow> (Inr (), w\<lparr>w_file_len := new_size, w_mapped_size := new_size,
             w_mmap := w_mmap w @ replicate (new_size - length (w_mmap w)) 0\<rparr>)))"

text \<open>The encoding of a command into \<open>encode_buf\<close>.\<close>

fun encode_command :: "u8 list \<Rightarrow> engine_command \<Rightarrow> (protocol_error + nat) \<times> u8 list" where
  "encode_command buf (NewOrder ord) = encode_new_order buf ord"
| "encode_command buf (CancelOrder order_id) = encode_cancel_order buf order_id"

text \<open>The stores into the mapping, once there is room.\<close>

definition write_record :: "(u8 list \<Rightarrow> u32) \<Rightarrow> wal \<Rightarrow> nat \<Rightarrow> wal option" where
  "write_record crc w payload_len = do {
     let pos = w_write_pos w;
     payload \<leftarrow> slice (w_encode_buf w) 0 payload_len;
     mm \<leftarrow> copy_into (w_mmap w) pos (to_le 4 (of_nat payload_len :: u32));
     mm \<leftarrow> copy_into mm (pos + 4) (to_le 4 (crc payload));
     mm \<leftarrow> copy_into mm (pos + HEADER_SIZE) payload;
     let pad_start = pos + HEADER_SIZE + payload_len;
     let pad_end = pos + record_size payload_len;
     mm \<leftarrow> (if pad_end > pad_start then copy_into mm pad_start (replicate (pad_end - pad_start) 0) else Some mm);
     Some (w\<lparr>w_mmap := mm, w_write_pos := pos + record_size payload_len,
             w_record_count := w_record_count w + 1\<rparr>)
   }"

definition append :: "(u8 list \<Rightarrow> u32) \<Rightarrow> wal \<Rightarrow> engine_command \<Rightarrow> grow \<Rightarrow> ((wal_error + nat) \<times> wal) option" where
  "append crc w cmd g =
     (case encode_command (w_encode_buf w) cmd of
        (Inl err, buf) \<Rightarrow> Some (Inl (WalProtocol err), w\<lparr>w_encode_buf := buf\<rparr>)
      | (Inr payload_len, buf) \<Rightarrow>
          (case ensure_capacity (w\<lparr>w_encode_buf := buf\<rparr>) (record_size payload_len) g of
             (Inl err, w) \<Rightarrow> Some (Inl err, w)
           | (Inr _, w) \<Rightarrow> do {
               w \<leftarrow> write_record crc w payload_len;
               Some (Inr (w_record_count w), w)
             }))"

definition truncate_to :: "wal \<Rightarrow> nat \<Rightarrow> nat \<Rightarrow> wal option" where
  "truncate_to w offset record_count = do {
     let start = offset;
     let stop = w_write_pos w;
     mm \<leftarrow> (if stop > start then copy_into (w_mmap w) start (replicate (stop - start) 0) else Some (w_mmap w));
     Some (w\<lparr>w_mmap := mm, w_write_pos := offset, w_record_count := record_count\<rparr>)
   }"

record wal_iterator =
  i_mmap :: "u8 list"
  i_read_pos :: nat
  i_end_pos :: nat
  i_current_record :: nat
  i_start_record :: nat

definition iter_from :: "wal \<Rightarrow> nat \<Rightarrow> wal_iterator" where
  "iter_from w start_record =
     \<lparr>i_mmap = w_mmap w, i_read_pos = 0, i_end_pos = w_write_pos w, i_current_record = 0,
      i_start_record = start_record\<rparr>"

text \<open>\<open>next\<close>: \<open>Some (None, it)\<close> is the end of the iteration.\<close>

partial_function (option) next_record ::
  "(u8 list \<Rightarrow> u32) \<Rightarrow> wal_iterator \<Rightarrow> ((wal_error + nat \<times> engine_command) option \<times> wal_iterator) option" where
  "next_record crc it =
     (if i_read_pos it + HEADER_SIZE > i_end_pos it then Some (None, it)
      else do {
        let p = i_read_pos it;
        len \<leftarrow> u32_at (i_mmap it) p;
        let payload_len = unat len;
        (if payload_len = 0 then Some (None, it)
         else if p + record_size payload_len > i_end_pos it
         then Some (Some (Inl (TruncatedRecord p)), it)
         else do {
           stored_crc \<leftarrow> u32_at (i_mmap it) (p + 4);
           payload \<leftarrow> slice (i_mmap it) (p + HEADER_SIZE) (p + HEADER_SIZE + payload_len);
           (if stored_crc \<noteq> crc payload then Some (Some (Inl (Corruption p)), it)
            else do {
              let it = it\<lparr>i_read_pos := p + record_size payload_len,
                          i_current_record := i_current_record it + 1\<rparr>;
              (if i_current_record it \<le> i_start_record it then next_record crc it
               else (case decode_message payload of
                       Inr cmd \<Rightarrow> Some (Some (Inr (i_current_record it, cmd)), it)
                     | Inl e \<Rightarrow> Some (Some (Inl (WalProtocol e)), it)))
            })
         })
      })"

section \<open>Alignment\<close>

lemma and_not_mask: "(x :: 'a::len word) AND NOT (mask n) = push_bit n (drop_bit n x)"
  by (rule bit_word_eqI) (auto simp: bit_simps)

lemma align_up_spec:
  assumes "unat n + 7 < 2 ^ 64"
  shows "unat (align_up n) = 8 * ((unat n + 7) div 8)"
proof -
  have n7: "unat (n + 7) = unat n + 7"
    using assms by (simp add: unat_word_ariths)
  have "align_up n = push_bit 3 (drop_bit 3 (n + 7))"
    using and_not_mask [of "n + 7" 3] by (simp add: align_up_def ALIGNMENT_def mask_eq_exp_minus_1 algebra_simps)
  moreover have "unat (push_bit 3 (drop_bit 3 (n + 7))) = unat (n + 7) div 8 * 8"
  proof -
    have "unat (n + 7) div 8 * 8 < 2 ^ 64" using n7 assms by linarith
    then show ?thesis
      by (simp add: push_bit_eq_mult drop_bit_eq_div unat_word_ariths unat_div)
  qed
  ultimately show ?thesis using n7 by (simp add: mult.commute)
qed

lemma record_size_eq:
  assumes "n < 2 ^ 32"
  shows "record_size n = 8 * ((n + 15) div 8)"
proof -
  have "unat (of_nat (8 + n) :: usize) = 8 + n" using assms by (intro unat_of_nat_id) simp
  then show ?thesis
    using align_up_spec [of "of_nat (8 + n)"] assms by (simp add: record_size_def HEADER_SIZE_def add.commute)
qed

lemma record_size_bounds:
  assumes "n < 2 ^ 32"
  shows "8 + n \<le> record_size n" and "record_size n < 8 + n + 8" and "8 dvd record_size n"
  using record_size_eq [OF assms] by (simp_all; linarith)+

end
