(* ===== verification/Wal_Laws.thy ===== *)
theory Wal_Laws
  imports Wal
begin

text \<open>
  What the log guarantees. A record is recognised at an offset (\<open>is_rec\<close>); the log is the chain of
  records from offset 0. Opening any file whatsoever finds the longest chain; appending extends
  it by one record and leaves the earlier bytes alone; iterating gives back the records in order,
  and never meets a torn or corrupt one.
\<close>

section \<open>Records and chains of records\<close>

definition is_rec :: "(u8 list \<Rightarrow> u32) \<Rightarrow> u8 list \<Rightarrow> nat \<Rightarrow> u8 list \<Rightarrow> bool" where
  "is_rec crc mm p pl \<longleftrightarrow> pl \<noteq> [] \<and> length pl < 2 ^ 32 \<and> p + record_size (length pl) \<le> length mm \<and>
     take 4 (drop p mm) = to_le 4 (of_nat (length pl) :: u32) \<and>
     take 4 (drop (p + 4) mm) = to_le 4 (crc pl) \<and> take (length pl) (drop (p + 8) mm) = pl"

fun chain :: "(u8 list \<Rightarrow> u32) \<Rightarrow> u8 list \<Rightarrow> nat \<Rightarrow> u8 list list \<Rightarrow> nat \<Rightarrow> bool" where
  "chain crc mm p [] e \<longleftrightarrow> p = e"
| "chain crc mm p (pl # ps) e \<longleftrightarrow> is_rec crc mm p pl \<and> chain crc mm (p + record_size (length pl)) ps e"

definition no_rec :: "(u8 list \<Rightarrow> u32) \<Rightarrow> u8 list \<Rightarrow> nat \<Rightarrow> bool" where
  "no_rec crc mm p \<longleftrightarrow> (\<forall>pl. \<not> is_rec crc mm p pl)"

lemma u32_at_in: "p + 4 \<le> length mm \<Longrightarrow> u32_at mm p = Some (from_le (take 4 (drop p mm)))"
  by (simp add: u32_at_def slice_def)

lemma is_rec_read:
  assumes "is_rec crc mm p pl"
  shows "p + 8 + length pl \<le> p + record_size (length pl)" and "p + record_size (length pl) \<le> length mm"
    and "u32_at mm p = Some (of_nat (length pl))" and "unat (of_nat (length pl) :: u32) = length pl"
    and "u32_at mm (p + 4) = Some (crc pl)" and "slice mm (p + 8) (p + 8 + length pl) = Some pl"
    and "pl \<noteq> []"
proof -
  from assms have n: "length pl < 2 ^ 32" and fit: "p + record_size (length pl) \<le> length mm"
    and h: "take 4 (drop p mm) = to_le 4 (of_nat (length pl) :: u32)"
      "take 4 (drop (p + 4) mm) = to_le 4 (crc pl)" "take (length pl) (drop (p + 8) mm) = pl"
    by (auto simp: is_rec_def)
  note b = record_size_bounds(1) [OF n]
  show "p + 8 + length pl \<le> p + record_size (length pl)" "p + record_size (length pl) \<le> length mm"
    using b fit by auto
  show "u32_at mm p = Some (of_nat (length pl))" "u32_at mm (p + 4) = Some (crc pl)"
    using b fit h by (simp_all add: u32_at_in)
  show "unat (of_nat (length pl) :: u32) = length pl" using n by (simp add: unat_of_nat)
  show "slice mm (p + 8) (p + 8 + length pl) = Some pl" using b fit h by (simp add: slice_def)
  show "pl \<noteq> []" using assms by (simp add: is_rec_def)
qed

text \<open>The tests the code makes recognise exactly the records.\<close>

lemma is_recI:
  assumes "p + 8 \<le> length mm" and "u32_at mm p = Some l" and "l \<noteq> 0" and "p + record_size (unat l) \<le> length mm"
    and "slice mm (p + 8) (p + 8 + unat l) = Some pl" and "u32_at mm (p + 4) = Some (crc pl)"
  shows "is_rec crc mm p pl" and "length pl = unat l"
proof -
  have n: "unat l < 2 ^ 32" "unat l \<noteq> 0" using unat_lt2p [of l] assms(3) by (simp_all add: unsigned_eq_0_iff)
  show len: "length pl = unat l" using assms(5) by (auto simp: slice_def split: if_splits)
  have field: "take 4 (drop a mm) = to_le 4 x" if "u32_at mm a = Some x" "a + 4 \<le> length mm" for a x
    using that to_le_from_le [of "take 4 (drop a mm)" 4, where 'a = 32] by (auto simp: u32_at_in)
  have "take 4 (drop p mm) = to_le 4 l" "take 4 (drop (p + 4) mm) = to_le 4 (crc pl)"
    using assms(1) by (intro field [OF assms(2)] field [OF assms(6)]; simp)+
  moreover have "pl \<noteq> []" using len n(2) by force
  ultimately show "is_rec crc mm p pl"
    using assms(4,5) n(1) len by (auto simp: is_rec_def slice_def split: if_splits)
qed

lemma chain_mono: "chain crc mm p ps e \<Longrightarrow> p \<le> e"
  by (induction ps arbitrary: p) fastforce+

lemma chain_in: "chain crc mm p ps e \<Longrightarrow> p \<le> length mm \<Longrightarrow> e \<le> length mm"
proof (induction ps arbitrary: p)
  case (Cons pl ps)
  then show ?case using is_rec_read(2) [of crc mm p pl] Cons.IH [of "p + record_size (length pl)"] by simp
qed simp

lemma chain_append: "chain crc mm p (ps @ qs) e \<longleftrightarrow> (\<exists>m. chain crc mm p ps m \<and> chain crc mm m qs e)"
  by (induction ps arbitrary: p) auto

lemma is_rec_frame:
  assumes "is_rec crc mm p pl" and "p + record_size (length pl) \<le> e" and "take e mm = take e mm'"
    and "e \<le> length mm" and "e \<le> length mm'"
  shows "is_rec crc mm' p pl"
proof -
  have n: "length pl < 2 ^ 32" using assms(1) by (simp add: is_rec_def)
  have same: "take k (drop a mm') = take k (drop a mm)" if "a + k \<le> e" for a k
  proof -
    have "take k (drop a m) = drop a (take (a + k) m)" for m :: "u8 list" by (simp add: drop_take)
    moreover have "take (a + k) mm' = take (a + k) mm"
      using that assms(3) by (metis min.absorb1 take_take)
    ultimately show ?thesis by simp
  qed
  show ?thesis
    using assms record_size_bounds(1) [OF n] same [of p 4] same [of "p + 4" 4] same [of "p + 8" "length pl"]
    by (simp add: is_rec_def)
qed

lemma chain_frame:
  assumes "chain crc mm p ps e" and "take e mm = take e mm'" and "e \<le> length mm" and "e \<le> length mm'"
  shows "chain crc mm' p ps e"
  using assms
proof (induction ps arbitrary: p)
  case (Cons pl ps)
  then have "p + record_size (length pl) \<le> e" using chain_mono by fastforce
  with Cons show ?case by (auto intro: is_rec_frame)
qed simp

section \<open>Scanning\<close>

lemma scan_step:
  "is_rec crc mm p pl \<Longrightarrow>
     scan_loop crc mm (length mm) p n = scan_loop crc mm (length mm) (p + record_size (length pl)) (n + 1)"
  using is_rec_read [of crc mm p pl] by (subst scan_loop.simps) (simp add: HEADER_SIZE_def Let_def)

lemma scan_stop:
  assumes "no_rec crc mm p"
  shows "scan_loop crc mm (length mm) p n = Some (p, n)"
proof (cases "p + 8 \<le> length mm")
  case True
  then obtain l where l: "u32_at mm p = Some l" by (simp add: u32_at_in)
  show ?thesis
  proof (cases "l = 0 \<or> length mm < p + record_size (unat l)")
    case stop: True
    with True l show ?thesis by (subst scan_loop.simps) (auto simp: HEADER_SIZE_def Let_def)
  next
    case False
    obtain c where c: "u32_at mm (p + 4) = Some c" using True by (simp add: u32_at_in)
    have "p + 8 + unat l \<le> length mm"
      using False record_size_bounds(1) [of "unat l"] unat_lt2p [of l] by simp
    then obtain pl where pl: "slice mm (p + 8) (p + 8 + unat l) = Some pl" by (simp add: slice_def)
    have "c \<noteq> crc pl" using is_recI(1) [OF True l _ _ pl, of crc] c False assms by (auto simp: no_rec_def)
    with True False l c pl show ?thesis by (subst scan_loop.simps) (simp add: HEADER_SIZE_def Let_def unat_gt_0)
  qed
next
  case False
  then show ?thesis by (subst scan_loop.simps) (simp add: HEADER_SIZE_def)
qed

lemma scan_chain:
  "chain crc mm p ps e \<Longrightarrow> scan_loop crc mm (length mm) p n = scan_loop crc mm (length mm) e (n + length ps)"
  by (induction ps arbitrary: p n) (auto simp: scan_step)

text \<open>Every byte string starts with a longest chain, so the scan returns on every file.\<close>

lemma maximal_chain:
  assumes "p \<le> length mm"
  shows "\<exists>ps e. chain crc mm p ps e \<and> no_rec crc mm e"
  using assms
proof (induction "length mm - p" arbitrary: p rule: less_induct)
  case less
  show ?case
  proof (cases "no_rec crc mm p")
    case True
    then show ?thesis by (intro exI [of _ "[]"]) auto
  next
    case False
    then obtain pl where pl: "is_rec crc mm p pl" by (auto simp: no_rec_def)
    note rd = is_rec_read [OF pl]
    have "length mm - (p + record_size (length pl)) < length mm - p" using rd(1,2) by simp
    then obtain ps e where "chain crc mm (p + record_size (length pl)) ps e" "no_rec crc mm e"
      using less.hyps [of "p + record_size (length pl)"] rd(2) by blast
    with pl show ?thesis by (intro exI [of _ "pl # ps"]) auto
  qed
qed

lemma is_rec_unique: "is_rec crc mm p pl \<Longrightarrow> is_rec crc mm p pl' \<Longrightarrow> pl = pl'"
proof -
  assume r: "is_rec crc mm p pl" "is_rec crc mm p pl'"
  have "(of_nat (length pl) :: u32) = of_nat (length pl')"
    using is_rec_read(3) [OF r(1)] is_rec_read(3) [OF r(2)] by simp
  from arg_cong [OF this, of unat] have "length pl = length pl'"
    unfolding is_rec_read(4) [OF r(1)] is_rec_read(4) [OF r(2)] .
  then have "Some pl = slice mm (p + 8) (p + 8 + length pl')" using is_rec_read(6) [OF r(1)] by metis
  then show "pl = pl'" unfolding is_rec_read(6) [OF r(2)] by simp
qed

lemma chain_maximal_extends:
  "chain crc mm p ps e \<Longrightarrow> chain crc mm p qs e' \<Longrightarrow> no_rec crc mm e' \<Longrightarrow> \<exists>rs. qs = ps @ rs \<and> chain crc mm e rs e'"
proof (induction ps arbitrary: p qs)
  case (Cons pl ps)
  then obtain pl' qs' where qs: "qs = pl' # qs'" by (cases qs) (auto simp: no_rec_def)
  with Cons.prems have "pl' = pl" by (auto dest: is_rec_unique)
  with Cons qs show ?case by auto
qed auto

section \<open>The state of an open log\<close>

definition wal_ok :: "(u8 list \<Rightarrow> u32) \<Rightarrow> wal \<Rightarrow> u8 list list \<Rightarrow> bool" where
  "wal_ok crc w ps \<longleftrightarrow> chain crc (w_mmap w) 0 ps (w_write_pos w) \<and> w_record_count w = length ps \<and>
     w_mapped_size w = length (w_mmap w) \<and> w_mapped_size w \<le> w_file_len w \<and> length (w_encode_buf w) = 40"

text \<open>Nothing but zeros after the last record, as the log leaves it while it only appends.\<close>

definition clean :: "wal \<Rightarrow> bool" where
  "clean w \<longleftrightarrow> (\<forall>x \<in> set (drop (w_write_pos w) (w_mmap w)). x = 0)"

lemma wal_ok_pos: "wal_ok crc w ps \<Longrightarrow> w_write_pos w \<le> length (w_mmap w)"
  unfolding wal_ok_def using chain_in [of crc "w_mmap w" 0 ps "w_write_pos w"] by simp

lemma open_ok:
  "\<exists>w ps. open_with_size crc file n GrowOk = Some (Inr w) \<and> wal_ok crc w ps \<and>
     no_rec crc (w_mmap w) (w_write_pos w) \<and> w_mmap w = file @ replicate (n - length file) 0"
proof -
  let ?mm = "file @ replicate (n - length file) 0"
  obtain ps e where c: "chain crc ?mm 0 ps e" "no_rec crc ?mm e"
    using maximal_chain [of 0 ?mm crc] by auto
  have sc: "scan_loop crc ?mm (length ?mm) 0 0 = Some (e, length ps)"
    using scan_chain [OF c(1), of 0] scan_stop [OF c(2)] by simp
  define w where "w = \<lparr>w_mmap = ?mm, w_file_len = length ?mm, w_write_pos = e, w_mapped_size = length ?mm,
    w_encode_buf = replicate NEW_ORDER_SIZE 0, w_record_count = length ps\<rparr>"
  have "open_with_size crc file n GrowOk = Some (Inr w)"
    using sc by (cases "length file < n") (simp_all add: open_with_size_def scan_to_end_def w_def Let_def)
  then show ?thesis using c by (auto simp: wal_ok_def w_def intro!: exI [of _ ps])
qed

lemma no_rec_zero:
  assumes "\<forall>x \<in> set (drop p mm). x = 0"
  shows "no_rec crc mm p"
  unfolding no_rec_def
proof (intro allI notI)
  fix pl
  assume r: "is_rec crc mm p pl"
  have "from_le bs = (0 :: u32)" if "\<forall>x \<in> set bs. x = 0" for bs
    using that by (induction bs) auto
  moreover have "\<forall>x \<in> set (take 4 (drop p mm)). x = 0" using assms by (auto dest: in_set_takeD)
  ultimately have "u32_at mm p = Some 0 \<or> u32_at mm p = None" by (auto simp: u32_at_def slice_def)
  with is_rec_read(3,4,7) [OF r] show False by auto
qed

section \<open>Appending\<close>

fun command_bytes :: "engine_command \<Rightarrow> u8 list" where
  "command_bytes (NewOrder ord) = new_order_bytes ord"
| "command_bytes (CancelOrder d) = cancel_order_bytes d"

lemma command_bytes_length: "length (command_bytes c) \<le> 40" "command_bytes c \<noteq> []"
  by (cases c; simp) (cases c; simp flip: length_greater_0_conv)

lemma encode_command_bytes:
  assumes "length buf = 40"
  shows "encode_command buf c = (Inr (length (command_bytes c)), command_bytes c @ drop (length (command_bytes c)) buf)"
  using assms encode_new_order_bytes [of buf] encode_cancel_order_bytes [of buf] by (cases c) auto

lemma splice_splice:
  assumes "a + length xs + length ys \<le> length mm"
  shows "splice (splice mm a xs) (a + length xs) ys = splice mm a (xs @ ys)"
  using assms by (simp add: splice_def ac_simps)

lemma take_splice: "a \<le> length mm \<Longrightarrow> take a (splice mm a xs) = take a mm"
  by (simp add: splice_def)

lemma drop_splice: "a \<le> length mm \<Longrightarrow> drop a (splice mm a xs) = xs @ drop (a + length xs) mm"
  by (simp add: splice_def)

definition record_bytes :: "(u8 list \<Rightarrow> u32) \<Rightarrow> u8 list \<Rightarrow> u8 list" where
  "record_bytes crc pl = to_le 4 (of_nat (length pl) :: u32) @ to_le 4 (crc pl) @ pl @
     replicate (record_size (length pl) - (8 + length pl)) 0"

lemma length_record_bytes: "length pl < 2 ^ 32 \<Longrightarrow> length (record_bytes crc pl) = record_size (length pl)"
  using record_size_bounds(1) [of "length pl"] by (simp add: record_bytes_def)

lemma is_rec_splice:
  assumes "pl \<noteq> []" and "length pl < 2 ^ 32" and "p + record_size (length pl) \<le> length mm"
  shows "is_rec crc (splice mm p (record_bytes crc pl)) p pl"
proof -
  let ?mm = "splice mm p (record_bytes crc pl)"
  have d: "drop (p + a) ?mm = drop a (record_bytes crc pl @ drop (p + record_size (length pl)) mm)" for a
    using assms drop_splice [of p mm] length_record_bytes [OF assms(2)]
    by (metis add.commute add_leD1 drop_drop)
  show ?thesis
    using assms d [of 0] d [of 4] d [of 8] length_record_bytes [OF assms(2), of crc]
    by (simp add: is_rec_def record_bytes_def)
qed

lemma write_record_splice:
  assumes "length (w_encode_buf w) = 40" and "n \<le> 40" and "w_write_pos w + record_size n \<le> length (w_mmap w)"
    and "pl = take n (w_encode_buf w)"
  shows "write_record crc w n = Some (w\<lparr>w_mmap := splice (w_mmap w) (w_write_pos w) (record_bytes crc pl),
    w_write_pos := w_write_pos w + record_size n, w_record_count := w_record_count w + 1\<rparr>)"
proof -
  let ?mm = "w_mmap w" and ?p = "w_write_pos w" and ?pad = "record_size n - (8 + n)"
  let ?a = "to_le 4 (of_nat n :: u32)" and ?b = "to_le 4 (crc pl)"
  have len: "length pl = n" using assms by simp
  have rs: "8 + n \<le> record_size n" using record_size_bounds(1) [of n] assms(2) by simp
  have s1: "copy_into ?mm ?p ?a = Some (splice ?mm ?p ?a)" using rs assms(3) by (simp add: copy_into_def)
  have s2: "copy_into (splice ?mm ?p ?a) (?p + 4) ?b = Some (splice ?mm ?p (?a @ ?b))"
    using rs assms(3) splice_splice [of ?p ?a ?b ?mm] by (simp add: copy_into_def)
  have s3: "copy_into (splice ?mm ?p (?a @ ?b)) (?p + 8) pl = Some (splice ?mm ?p (?a @ ?b @ pl))"
    using rs assms(3) splice_splice [of ?p "?a @ ?b" pl ?mm] len by (simp add: copy_into_def)
  have s4: "copy_into (splice ?mm ?p (?a @ ?b @ pl)) (?p + 8 + n) (replicate k 0) =
      Some (splice ?mm ?p (?a @ ?b @ pl @ replicate k 0))" if "k \<le> ?pad" for k
    using rs assms(3) splice_splice [of ?p "?a @ ?b @ pl" "replicate k 0" ?mm] len that
    by (simp add: copy_into_def add.assoc)
  have sl: "slice (w_encode_buf w) 0 n = Some pl" using assms by (simp add: slice_def)
  have "write_record crc w n = Some (w\<lparr>w_mmap := splice ?mm ?p (?a @ ?b @ pl @ replicate ?pad 0),
    w_write_pos := ?p + record_size n, w_record_count := w_record_count w + 1\<rparr>)"
    using rs s4 [of ?pad] by (cases "record_size n = 8 + n")
      (auto simp: write_record_def Let_def sl s1 s2 s3 HEADER_SIZE_def)
  then show ?thesis by (simp add: record_bytes_def len)
qed

lemma ensure_capacity_ok:
  assumes "ensure_capacity w n g = (Inr u, w')" and "wal_ok crc w ps"
  shows "wal_ok crc w' ps \<and> w_write_pos w' + n \<le> length (w_mmap w') \<and> w_encode_buf w' = w_encode_buf w \<and>
    (clean w \<longrightarrow> clean w')"
proof (cases "w_write_pos w + n \<le> w_mapped_size w")
  case True
  then show ?thesis using assms by (auto simp: ensure_capacity_def wal_ok_def)
next
  case False
  let ?m = "max (w_mapped_size w * 2) (w_write_pos w + n)"
  let ?mm = "w_mmap w @ replicate (?m - length (w_mmap w)) 0"
  have w': "w' = w\<lparr>w_file_len := ?m, w_mapped_size := ?m, w_mmap := ?mm\<rparr>"
    using assms(1) False by (auto simp: ensure_capacity_def Let_def split: grow.splits)
  have size: "w_mapped_size w = length (w_mmap w)" using assms(2) by (simp add: wal_ok_def)
  have "chain crc ?mm 0 ps (w_write_pos w)"
    by (rule chain_frame [of crc "w_mmap w"]) (use assms(2) wal_ok_pos [OF assms(2)] in \<open>auto simp: wal_ok_def\<close>)
  then show ?thesis
    using assms(2) wal_ok_pos [OF assms(2)] size by (auto simp: w' wal_ok_def clean_def)
qed

lemma ensure_capacity_error:
  assumes "ensure_capacity w n g = (Inl e, w')" and "wal_ok crc w ps"
  shows "e = WalIo \<and> g \<noteq> GrowOk \<and> wal_ok crc w' ps \<and> w_mmap w' = w_mmap w \<and> w_write_pos w' = w_write_pos w"
  using assms by (auto simp: ensure_capacity_def wal_ok_def Let_def split: if_splits grow.splits)

text \<open>The record of a command, written behind the others.\<close>

lemma write_command_ok:
  assumes ok: "wal_ok crc w ps" and room: "w_write_pos w + record_size (length (command_bytes c)) \<le> length (w_mmap w)"
    and enc: "take (length (command_bytes c)) (w_encode_buf w) = command_bytes c"
  shows "\<exists>w'. write_record crc w (length (command_bytes c)) = Some w' \<and> wal_ok crc w' (ps @ [command_bytes c]) \<and>
    take (w_write_pos w) (w_mmap w') = take (w_write_pos w) (w_mmap w) \<and> (clean w \<longrightarrow> clean w')"
proof -
  let ?pl = "command_bytes c" and ?p = "w_write_pos w"
  let ?n = "record_size (length ?pl)" and ?mm = "splice (w_mmap w) ?p (record_bytes crc ?pl)"
  have n: "length ?pl < 2 ^ 32" using command_bytes_length [of c] by simp
  note pos = wal_ok_pos [OF ok]
  define w' where "w' = w\<lparr>w_mmap := ?mm, w_write_pos := ?p + ?n, w_record_count := w_record_count w + 1\<rparr>"
  have wr: "write_record crc w (length ?pl) = Some w'"
    unfolding w'_def using command_bytes_length [of c] ok room enc by (intro write_record_splice) (auto simp: wal_ok_def)
  have len: "length ?mm = length (w_mmap w)" using room length_record_bytes [OF n, of crc] by simp
  have "chain crc ?mm 0 ps ?p"
    by (rule chain_frame [of crc "w_mmap w"]) (use ok pos len in \<open>auto simp: wal_ok_def take_splice\<close>)
  moreover have "is_rec crc ?mm ?p ?pl" using is_rec_splice [OF command_bytes_length(2) n] room by simp
  ultimately have "wal_ok crc w' (ps @ [?pl])" using ok len by (auto simp: wal_ok_def w'_def chain_append)
  moreover have "drop (?p + ?n) ?mm = drop (?p + ?n) (w_mmap w)"
    using room pos length_record_bytes [OF n, of crc] by (simp add: splice_def)
  then have "clean w \<Longrightarrow> clean w'"
    using set_drop_subset_set_drop [of ?p "?p + ?n" "w_mmap w"] by (auto simp: clean_def w'_def)
  moreover have "take ?p (w_mmap w') = take ?p (w_mmap w)" using take_splice [of ?p "w_mmap w"] pos by (simp add: w'_def)
  ultimately show ?thesis using wr by blast
qed

lemma append_spec:
  assumes ok: "wal_ok crc w ps"
  shows "(\<exists>w'. append crc w c g = Some (Inr (Suc (length ps)), w') \<and> wal_ok crc w' (ps @ [command_bytes c]) \<and>
      take (w_write_pos w) (w_mmap w') = take (w_write_pos w) (w_mmap w) \<and> (clean w \<longrightarrow> clean w')) \<or>
    (g \<noteq> GrowOk \<and> (\<exists>w'. append crc w c g = Some (Inl WalIo, w') \<and> wal_ok crc w' ps \<and>
      w_mmap w' = w_mmap w \<and> w_write_pos w' = w_write_pos w))"
proof -
  let ?pl = "command_bytes c"
  define w1 where "w1 = w\<lparr>w_encode_buf := ?pl @ drop (length ?pl) (w_encode_buf w)\<rparr>"
  have buf: "length (w_encode_buf w) = 40" using ok by (simp add: wal_ok_def)
  have ok1: "wal_ok crc w1 ps" and same: "w_mmap w1 = w_mmap w" "w_write_pos w1 = w_write_pos w" "clean w1 = clean w"
    using ok command_bytes_length [of c] by (auto simp: w1_def wal_ok_def clean_def)
  obtain r w2 where g: "ensure_capacity w1 (record_size (length ?pl)) g = (r, w2)" by fastforce
  show ?thesis
  proof (cases r)
    case (Inl e)
    then show ?thesis
      using ensure_capacity_error [OF g [unfolded Inl] ok1] g same
      by (auto simp: append_def encode_command_bytes [OF buf] w1_def)
  next
    case (Inr u)
    note ok2 = ensure_capacity_ok [OF g [unfolded Inr] ok1]
    have "w_encode_buf w2 = w_encode_buf w1" using ok2 by simp
    then have enc: "take (length ?pl) (w_encode_buf w2) = ?pl" by (simp add: w1_def)
    have mm2: "take (w_write_pos w) (w_mmap w2) = take (w_write_pos w) (w_mmap w)" "w_write_pos w2 = w_write_pos w"
      using g Inr same wal_ok_pos [OF ok] by (auto simp: ensure_capacity_def Let_def split: if_splits grow.splits)
    obtain w3 where w3: "write_record crc w2 (length ?pl) = Some w3" "wal_ok crc w3 (ps @ [?pl])"
      "take (w_write_pos w2) (w_mmap w3) = take (w_write_pos w2) (w_mmap w2)" "clean w2 \<longrightarrow> clean w3"
      using write_command_ok [of crc w2 ps c] ok2 enc by blast
    have "append crc w c g = Some (Inr (Suc (length ps)), w3)"
      using g Inr w3(1,2) by (simp add: append_def encode_command_bytes [OF buf] w1_def [symmetric]) (simp add: wal_ok_def)
    then show ?thesis using w3 mm2 ok2 same by auto
  qed
qed

section \<open>Iterating\<close>

text \<open>An iterator in the middle of the log: \<open>ps\<close> are the records ahead of it.\<close>

definition at_records :: "(u8 list \<Rightarrow> u32) \<Rightarrow> wal_iterator \<Rightarrow> u8 list list \<Rightarrow> bool" where
  "at_records crc it ps \<longleftrightarrow> chain crc (i_mmap it) (i_read_pos it) ps (i_end_pos it)"

lemma iter_from_records: "wal_ok crc w ps \<Longrightarrow> at_records crc (iter_from w n) ps"
  by (simp add: wal_ok_def at_records_def iter_from_def)

text \<open>What the iterator yields for record number \<open>n\<close>.\<close>

definition record_item :: "nat \<Rightarrow> u8 list \<Rightarrow> wal_error + nat \<times> engine_command" where
  "record_item n pl = (case decode_message pl of Inr cmd \<Rightarrow> Inr (n, cmd) | Inl e \<Rightarrow> Inl (WalProtocol e))"

lemma next_end: "at_records crc it [] \<Longrightarrow> next_record crc it = Some (None, it)"
  by (subst next_record.simps) (simp add: at_records_def HEADER_SIZE_def)

lemma next_step:
  assumes "at_records crc it (pl # ps)"
  defines "it' \<equiv> it\<lparr>i_read_pos := i_read_pos it + record_size (length pl), i_current_record := i_current_record it + 1\<rparr>"
  shows "next_record crc it =
      (if i_current_record it < i_start_record it then next_record crc it'
       else Some (Some (record_item (Suc (i_current_record it)) pl), it'))"
    and "at_records crc it' ps"
proof -
  from assms(1) have r: "is_rec crc (i_mmap it) (i_read_pos it) pl"
    and c: "chain crc (i_mmap it) (i_read_pos it + record_size (length pl)) ps (i_end_pos it)"
    by (auto simp: at_records_def)
  note rd = is_rec_read [OF r] and le = chain_mono [OF c]
  show "at_records crc it' ps" using c by (simp add: at_records_def it'_def)
  show "next_record crc it =
      (if i_current_record it < i_start_record it then next_record crc it'
       else Some (Some (record_item (Suc (i_current_record it)) pl), it'))"
    using rd le
    by (subst next_record.simps) (simp add: HEADER_SIZE_def Let_def it'_def Suc_le_eq record_item_def split: sum.split)
qed

text \<open>The records up to \<open>start_record\<close> are skipped.\<close>

lemma next_skip:
  assumes "at_records crc it ps" and "i_current_record it \<le> i_start_record it"
  defines "k \<equiv> i_start_record it - i_current_record it"
  shows "length ps \<le> k \<Longrightarrow> \<exists>it'. next_record crc it = Some (None, it')"
    and "k < length ps \<Longrightarrow> \<exists>it'. next_record crc it = Some (Some (record_item (Suc (i_start_record it)) (ps ! k)), it') \<and>
      at_records crc it' (drop (Suc k) ps) \<and> i_current_record it' = Suc (i_start_record it) \<and>
      i_start_record it' = i_start_record it"
proof -
  have "(length ps \<le> k \<longrightarrow> (\<exists>it'. next_record crc it = Some (None, it'))) \<and>
    (k < length ps \<longrightarrow> (\<exists>it'. next_record crc it = Some (Some (record_item (Suc (i_start_record it)) (ps ! k)), it') \<and>
      at_records crc it' (drop (Suc k) ps) \<and> i_current_record it' = Suc (i_start_record it) \<and>
      i_start_record it' = i_start_record it))"
    using assms(1,2) unfolding k_def
  proof (induction ps arbitrary: it)
    case Nil
    then show ?case using next_end by auto
  next
    case (Cons pl ps)
    let ?it = "it\<lparr>i_read_pos := i_read_pos it + record_size (length pl), i_current_record := i_current_record it + 1\<rparr>"
    note st = next_step [OF Cons.prems(1)]
    show ?case
    proof (cases "i_current_record it < i_start_record it")
      case True
      then obtain j where j: "i_start_record it - i_current_record it = Suc j"
        "i_start_record ?it - i_current_record ?it = j" by (cases "i_start_record it - i_current_record it") auto
      with Cons.IH [OF st(2)] True st(1) show ?thesis by auto
    next
      case False
      then show ?thesis using st Cons.prems(2) by auto
    qed
  qed
  then show "length ps \<le> k \<Longrightarrow> \<exists>it'. next_record crc it = Some (None, it')"
    and "k < length ps \<Longrightarrow> \<exists>it'. next_record crc it = Some (Some (record_item (Suc (i_start_record it)) (ps ! k)), it') \<and>
      at_records crc it' (drop (Suc k) ps) \<and> i_current_record it' = Suc (i_start_record it) \<and>
      i_start_record it' = i_start_record it"
    by blast+
qed

text \<open>After the skipped ones every call takes the next record.\<close>

lemma next_past:
  assumes "at_records crc it (pl # ps)" and "i_start_record it \<le> i_current_record it"
  shows "\<exists>it'. next_record crc it = Some (Some (record_item (Suc (i_current_record it)) pl), it') \<and>
    at_records crc it' ps \<and> i_current_record it' = Suc (i_current_record it) \<and> i_start_record it' = i_start_record it"
  using next_step [OF assms(1)] assms(2) by auto

section \<open>Commands\<close>

text \<open>What of a command survives the log: everything but the time stamp of an order.\<close>

fun strip_time :: "engine_command \<Rightarrow> engine_command" where
  "strip_time (NewOrder ord) = NewOrder (ord\<lparr>o_timestamp := 0\<rparr>)"
| "strip_time (CancelOrder d) = CancelOrder d"

fun loggable :: "engine_command \<Rightarrow> bool" where
  "loggable (NewOrder ord) \<longleftrightarrow> o_quantity ord \<noteq> 0"
| "loggable (CancelOrder d) \<longleftrightarrow> True"

lemma decode_command_bytes: "loggable c \<Longrightarrow> decode_message (command_bytes c) = Inr (strip_time c)"
  using decode_new_order_bytes [where rest = "[]"] decode_cancel_order_bytes [where rest = "[]"]
  by (cases c)
    (auto simp: decode_message_def read_u8_def, auto simp: new_order_bytes_def cancel_order_bytes_def)

definition logs :: "(u8 list \<Rightarrow> u32) \<Rightarrow> wal \<Rightarrow> engine_command list \<Rightarrow> bool" where
  "logs crc w cs \<longleftrightarrow> wal_ok crc w (map command_bytes cs)"

text \<open>What the matching loop relies on of its log.\<close>

locale command_log =
  fixes rep :: "'w \<Rightarrow> 'c list \<Rightarrow> bool" and app :: "'w \<Rightarrow> 'c \<Rightarrow> 'g \<Rightarrow> (('e + nat) \<times> 'w) option"
    and good :: "'g \<Rightarrow> bool"
  assumes app_rep: "rep w cs \<Longrightarrow>
    (\<exists>w'. app w c g = Some (Inr (Suc (length cs)), w') \<and> rep w' (cs @ [c])) \<or>
    (\<not> good g \<and> (\<exists>e w'. app w c g = Some (Inl e, w') \<and> rep w' cs))"
begin

lemma app_ok: "rep w cs \<Longrightarrow> good g \<Longrightarrow> \<exists>w'. app w c g = Some (Inr (Suc (length cs)), w') \<and> rep w' (cs @ [c])"
  using app_rep by blast

lemma app_total: "rep w cs \<Longrightarrow> \<exists>r w'. app w c g = Some (r, w') \<and> rep w' (case r of Inl _ \<Rightarrow> cs | Inr _ \<Rightarrow> cs @ [c])"
  using app_rep [of w cs c g] by fastforce

end

interpretation wal_log: command_log "logs crc" "append crc" "\<lambda>g. g = GrowOk" for crc
proof
  fix w cs c g
  assume "logs crc w cs"
  then show "(\<exists>w'. append crc w c g = Some (Inr (Suc (length cs)), w') \<and> logs crc w' (cs @ [c])) \<or>
    (g \<noteq> GrowOk \<and> (\<exists>e w'. append crc w c g = Some (Inl e, w') \<and> logs crc w' cs))"
    using append_spec [of crc w "map command_bytes cs" c g] unfolding logs_def by fastforce
qed

section \<open>Reopening\<close>

text \<open>A file that still starts with the log keeps its records, whatever follows them.\<close>

lemma reopen_prefix:
  assumes ok: "wal_ok crc w ps" and f: "take (w_write_pos w) f = take (w_write_pos w) (w_mmap w)"
    and len: "w_write_pos w \<le> length f"
  shows "\<exists>w' qs. open_with_size crc f n GrowOk = Some (Inr w') \<and> wal_ok crc w' (ps @ qs) \<and>
    w_mmap w' = f @ replicate (n - length f) 0 \<and> chain crc (w_mmap w') (w_write_pos w) qs (w_write_pos w')"
proof -
  obtain w' ps' where w': "open_with_size crc f n GrowOk = Some (Inr w')" "wal_ok crc w' ps'"
    "no_rec crc (w_mmap w') (w_write_pos w')" "w_mmap w' = f @ replicate (n - length f) 0"
    using open_ok by blast
  have "chain crc (w_mmap w') 0 ps (w_write_pos w)"
    by (rule chain_frame [of crc "w_mmap w"])
      (use ok f len wal_ok_pos [OF ok] w'(4) in \<open>auto simp: wal_ok_def\<close>)
  moreover have "chain crc (w_mmap w') 0 ps' (w_write_pos w')" using w'(2) by (simp add: wal_ok_def)
  ultimately show ?thesis using chain_maximal_extends [OF _ _ w'(3)] w' by blast
qed

lemma reopen_clean:
  assumes ok: "wal_ok crc w ps" and cl: "clean w"
  shows "\<exists>w'. open_with_size crc (wal_file w) n GrowOk = Some (Inr w') \<and> wal_ok crc w' ps \<and> clean w'"
proof -
  let ?f = "wal_file w"
  note pos = wal_ok_pos [OF ok]
  obtain w' qs where w': "open_with_size crc ?f n GrowOk = Some (Inr w')" "wal_ok crc w' (ps @ qs)"
    "w_mmap w' = ?f @ replicate (n - length ?f) 0" "chain crc (w_mmap w') (w_write_pos w) qs (w_write_pos w')"
    using reopen_prefix [OF ok, of ?f n] pos by (auto simp: wal_file_def)
  have z: "\<forall>x \<in> set (drop (w_write_pos w) (w_mmap w')). x = 0"
    using cl pos by (auto simp: w'(3) wal_file_def clean_def)
  have "qs = []"
    using w'(4) no_rec_zero [OF z, of crc] by (cases qs) (auto simp: no_rec_def)
  with w' z show ?thesis by (auto simp: clean_def)
qed

lemma open_empty: "\<exists>w. open_with_size crc [] n GrowOk = Some (Inr w) \<and> wal_ok crc w [] \<and> clean w"
proof -
  obtain w ps where w: "open_with_size crc [] n GrowOk = Some (Inr w)" "wal_ok crc w ps"
    "no_rec crc (w_mmap w) (w_write_pos w)" "w_mmap w = replicate n 0"
    using open_ok [of crc "[]" n] by auto
  have z: "\<forall>x \<in> set (drop 0 (w_mmap w)). x = 0" by (simp add: w(4))
  have "ps = []"
    using w(2) no_rec_zero [OF z, of crc] by (cases ps) (auto simp: wal_ok_def no_rec_def)
  with w show ?thesis by (auto simp: clean_def dest: in_set_dropD)
qed

lemma append_clean: "wal_ok crc w ps \<Longrightarrow> clean w \<Longrightarrow>
    \<exists>w'. append crc w c GrowOk = Some (Inr (Suc (length ps)), w') \<and> wal_ok crc w' (ps @ [command_bytes c]) \<and> clean w'"
  using append_spec [of crc w ps c GrowOk] by auto

lemma truncate_spec:
  assumes ok: "wal_ok crc w (ps @ qs)" and c: "chain crc (w_mmap w) 0 ps off"
  shows "\<exists>w'. truncate_to w off (length ps) = Some w' \<and> wal_ok crc w' ps \<and> (clean w \<longrightarrow> clean w')"
proof -
  let ?mm = "w_mmap w" and ?z = "replicate (w_write_pos w - off) 0"
  note pos = wal_ok_pos [OF ok]
  obtain m where m: "chain crc ?mm 0 ps m" "chain crc ?mm m qs (w_write_pos w)"
    using ok by (auto simp: wal_ok_def chain_append)
  have "chain crc mm p ps e \<Longrightarrow> chain crc mm p ps e' \<Longrightarrow> e = e'" for mm p e e'
    by (induction ps arbitrary: p) auto
  with c m have off: "off \<le> w_write_pos w" using chain_mono [OF m(2)] by blast
  define w' where "w' = w\<lparr>w_mmap := splice ?mm off ?z, w_write_pos := off, w_record_count := length ps\<rparr>"
  have sp: "splice ?mm off [] = ?mm" by (simp add: splice_def)
  have "truncate_to w off (length ps) = Some w'"
    using off pos sp by (cases "off < w_write_pos w") (auto simp: truncate_to_def copy_into_def Let_def w'_def)
  moreover have "chain crc (splice ?mm off ?z) 0 ps off"
    by (rule chain_frame [OF c]) (use off pos in \<open>auto simp: take_splice\<close>)
  moreover have "clean w'" if "clean w"
    using that off pos drop_splice [of off ?mm ?z] by (auto simp: clean_def w'_def)
  ultimately show ?thesis using ok off pos by (auto simp: wal_ok_def w'_def)
qed

section \<open>What lies behind the log\<close>

text \<open>An append that needs no growth writes its record and nothing else.\<close>

lemma append_in_place:
  assumes ok: "wal_ok crc w ps" and fit: "w_write_pos w + record_size (length (command_bytes c)) \<le> length (w_mmap w)"
  shows "\<exists>w'. append crc w c g = Some (Inr (Suc (length ps)), w') \<and> wal_ok crc w' (ps @ [command_bytes c]) \<and>
    w_mmap w' = splice (w_mmap w) (w_write_pos w) (record_bytes crc (command_bytes c)) \<and>
    w_write_pos w' = w_write_pos w + record_size (length (command_bytes c)) \<and> w_file_len w' = w_file_len w"
proof -
  let ?pl = "command_bytes c"
  define w1 where "w1 = w\<lparr>w_encode_buf := ?pl @ drop (length ?pl) (w_encode_buf w)\<rparr>"
  have buf: "length (w_encode_buf w) = 40" using ok by (simp add: wal_ok_def)
  have cap: "ensure_capacity w1 (record_size (length ?pl)) g = (Inr (), w1)"
    using ok fit by (simp add: ensure_capacity_def wal_ok_def w1_def)
  obtain w' where w': "write_record crc w1 (length ?pl) = Some w'" "w_mmap w' = splice (w_mmap w) (w_write_pos w) (record_bytes crc ?pl)"
    "w_write_pos w' = w_write_pos w + record_size (length ?pl)" "w_file_len w' = w_file_len w" "w_record_count w' = Suc (length ps)"
    using write_record_splice [of w1 "length ?pl" ?pl crc] ok fit command_bytes_length [of c] by (auto simp: w1_def wal_ok_def)
  have ap: "append crc w c g = Some (Inr (Suc (length ps)), w')"
    using cap w'(1,5) by (simp add: append_def encode_command_bytes [OF buf] w1_def [symmetric])
  with append_spec [OF ok, of c g] have "wal_ok crc w' (ps @ [?pl])" by auto
  with ap w' show ?thesis by blast
qed

text \<open>
  When the file has to grow, and to what: only where the record does not fit behind the others, to
  twice its size or to what the record needs.
\<close>

definition record_fits :: "wal \<Rightarrow> engine_command \<Rightarrow> bool" where
  "record_fits w c \<longleftrightarrow> w_write_pos w + record_size (length (command_bytes c)) \<le> w_mapped_size w"

lemma append_grows:
  assumes ok: "wal_ok crc w ps" and fit: "\<not> record_fits w c"
  shows "append crc w c GrowOk = Some (r, w') \<Longrightarrow>
      w_mapped_size w' = max (w_mapped_size w * 2) (w_write_pos w + record_size (length (command_bytes c)))"
    and "g \<noteq> GrowOk \<Longrightarrow> append crc w c g = Some (r, w') \<Longrightarrow> r = Inl WalIo \<and> w_mapped_size w' = w_mapped_size w"
proof -
  have buf: "length (w_encode_buf w) = 40" using ok by (simp add: wal_ok_def)
  note ap = append_def encode_command_bytes [OF buf] ensure_capacity_def Let_def
  show "append crc w c GrowOk = Some (r, w') \<Longrightarrow>
      w_mapped_size w' = max (w_mapped_size w * 2) (w_write_pos w + record_size (length (command_bytes c)))"
    using fit by (auto simp: ap record_fits_def write_record_def split: Option.bind_splits if_splits)
  show "g \<noteq> GrowOk \<Longrightarrow> append crc w c g = Some (r, w') \<Longrightarrow> r = Inl WalIo \<and> w_mapped_size w' = w_mapped_size w"
    using fit by (cases g) (auto simp: ap record_fits_def)
qed

lemma append_exact:
  assumes ok: "wal_ok crc w ps"
  shows "\<exists>r w'. append crc w c g = Some (r, w') \<and>
    (case r of
       Inr n \<Rightarrow> (record_fits w c \<or> g = GrowOk) \<and> n = Suc (length ps) \<and> wal_ok crc w' (ps @ [command_bytes c]) \<and>
         take (w_write_pos w) (w_mmap w') = take (w_write_pos w) (w_mmap w) \<and>
         w_mapped_size w' = (if record_fits w c then w_mapped_size w
           else max (w_mapped_size w * 2) (w_write_pos w + record_size (length (command_bytes c))))
     | Inl e \<Rightarrow> e = WalIo \<and> \<not> record_fits w c \<and> g \<noteq> GrowOk \<and> wal_ok crc w' ps \<and> w_mmap w' = w_mmap w \<and>
         w_mapped_size w' = w_mapped_size w)"
proof (cases "record_fits w c")
  case True
  then have fit: "w_write_pos w + record_size (length (command_bytes c)) \<le> length (w_mmap w)"
    using ok by (simp add: record_fits_def wal_ok_def)
  obtain w' where w': "append crc w c g = Some (Inr (Suc (length ps)), w')" "wal_ok crc w' (ps @ [command_bytes c])"
    "w_mmap w' = splice (w_mmap w) (w_write_pos w) (record_bytes crc (command_bytes c))"
    using append_in_place [OF ok fit, of g] by blast
  have "length (record_bytes crc (command_bytes c)) = record_size (length (command_bytes c))"
    using command_bytes_length(1) [of c] by (intro length_record_bytes) simp
  then have "length (w_mmap w') = length (w_mmap w)" using fit w'(3) by simp
  then have "w_mapped_size w' = w_mapped_size w" using ok w'(2) by (simp add: wal_ok_def)
  moreover have "take (w_write_pos w) (w_mmap w') = take (w_write_pos w) (w_mmap w)"
    using fit w'(3) by (simp add: take_splice)
  ultimately show ?thesis using w' True by simp
next
  case False
  from append_spec [OF ok, of c g] show ?thesis
  proof (elim disjE exE conjE)
    fix w'
    assume w': "append crc w c g = Some (Inr (Suc (length ps)), w')" "wal_ok crc w' (ps @ [command_bytes c])"
      "take (w_write_pos w) (w_mmap w') = take (w_write_pos w) (w_mmap w)"
    then have "g = GrowOk" using append_grows(2) [OF ok False] by blast
    moreover from this have "w_mapped_size w' = max (w_mapped_size w * 2) (w_write_pos w + record_size (length (command_bytes c)))"
      using append_grows(1) [OF ok False] w'(1) by blast
    ultimately show ?thesis using w' False by (simp add: max_def)
  next
    fix w'
    assume w': "g \<noteq> GrowOk" "append crc w c g = Some (Inl WalIo, w')" "wal_ok crc w' ps" "w_mmap w' = w_mmap w"
    then have "w_mapped_size w' = w_mapped_size w" using append_grows(2) [OF ok False] by blast
    with w' False show ?thesis by simp
  qed
qed

text \<open>A record that happens to start where the new one ends becomes part of the log with the next open.\<close>

lemma stale_record_joins:
  assumes ok: "wal_ok crc w ps"
    and stale: "is_rec crc (w_mmap w) (w_write_pos w + record_size (length (command_bytes c))) pl"
  shows "\<exists>w' w'' qs. append crc w c g = Some (Inr (Suc (length ps)), w') \<and> wal_ok crc w' (ps @ [command_bytes c]) \<and>
    open_with_size crc (wal_file w') n GrowOk = Some (Inr w'') \<and> wal_ok crc w'' (ps @ command_bytes c # pl # qs)"
proof -
  let ?n = "record_size (length (command_bytes c))"
  have fit: "w_write_pos w + ?n \<le> length (w_mmap w)" using is_rec_read(2) [OF stale] by linarith
  obtain w' where w': "append crc w c g = Some (Inr (Suc (length ps)), w')" "wal_ok crc w' (ps @ [command_bytes c])"
    "w_mmap w' = splice (w_mmap w) (w_write_pos w) (record_bytes crc (command_bytes c))"
    "w_write_pos w' = w_write_pos w + ?n" "w_file_len w' = w_file_len w"
    using append_in_place [OF ok fit] by blast
  have len: "length (record_bytes crc (command_bytes c)) = ?n"
    using command_bytes_length(1) [of c] by (intro length_record_bytes) simp
  have "drop (w_write_pos w + ?n) (w_mmap w') = drop (w_write_pos w + ?n) (w_mmap w)" "length (w_mmap w') = length (w_mmap w)"
    using fit len by (simp_all add: w'(3) splice_def)
  moreover from this(1) have "drop (w_write_pos w + ?n + a) (w_mmap w') = drop (w_write_pos w + ?n + a) (w_mmap w)" for a
    by (metis add.commute drop_drop)
  ultimately have "is_rec crc (w_mmap w') (w_write_pos w') pl" using stale by (simp add: is_rec_def w'(4))
  then have "wal_ok crc (w'\<lparr>w_write_pos := w_write_pos w' + record_size (length pl), w_record_count := length ps + 2\<rparr>)
      (ps @ [command_bytes c] @ [pl])" (is "wal_ok crc ?w _")
    using w'(2) unfolding wal_ok_def append_assoc [symmetric] chain_append [of _ _ _ _ "[pl]"] by (auto intro!: exI [of _ "w_write_pos w'"])
  from reopen_prefix [OF this, of "wal_file w'" n] wal_ok_pos [OF this] obtain w'' qs where
    "open_with_size crc (wal_file w') n GrowOk = Some (Inr w'')" "wal_ok crc w'' ((ps @ [command_bytes c] @ [pl]) @ qs)"
    by (auto simp: wal_file_def)
  with w'(1,2) show ?thesis by auto
qed

end
