(* ===== verification/Recovery.thy ===== *)
theory Recovery
  imports Snapshot_Laws Wal_Laws "HOL-Library.Sublist"
begin

text \<open>
  \<open>src/src/recovery.rs\<close>: start from the newest valid snapshot and replay the rest of the log. The
  data directory is its log file and its snapshot directory; the answers of the file system
  are parameters, as in \<open>Wal\<close> and \<open>Snapshot\<close>. The theorems say that recovery returns on every
  content of the disk, and that after a clean run it rebuilds the book, up to the time stamps the
  log does not store.
\<close>

section \<open>Operations\<close>

datatype recovery_error = RecWal wal_error | RecSnapshot snapshot_error

record disk =
  d_wal :: "u8 list option"
  d_snapshots :: "directory option"

record recovery_io =
  io_mkdir :: bool
  io_listable :: bool
  io_readable :: "string \<Rightarrow> bool"
  io_grow :: grow

definition replay_command :: "matching_engine \<Rightarrow> engine_command \<Rightarrow> matching_engine option" where
  "replay_command engine cmd =
     (case cmd of
        NewOrder ord \<Rightarrow> map_option snd (add_order engine ord)
      | CancelOrder order_id \<Rightarrow> map_option snd (engine_cancel_order engine order_id))"

text \<open>A sequence of commands, one after the other.\<close>

fun run_commands :: "matching_engine \<Rightarrow> engine_command list \<Rightarrow> matching_engine option" where
  "run_commands engine [] = Some engine"
| "run_commands engine (cmd # cmds) = do {
     engine \<leftarrow> replay_command engine cmd;
     run_commands engine cmds
   }"

text \<open>The \<open>for result in wal.iter_from(start_record)\<close> loop.\<close>

partial_function (option) replay_loop ::
  "(u8 list \<Rightarrow> u32) \<Rightarrow> wal_iterator \<Rightarrow> matching_engine \<Rightarrow> wal \<Rightarrow> nat \<Rightarrow>
     (recovery_error + matching_engine \<times> wal) option" where
  "replay_loop crc it engine wal record_count_at_replay = do {
     (item, it) \<leftarrow> next_record crc it;
     (case item of
        None \<Rightarrow> Some (Inr (engine, wal))
      | Some (Inr (_, cmd)) \<Rightarrow> do {
          engine \<leftarrow> replay_command engine cmd;
          replay_loop crc it engine wal (record_count_at_replay + 1)
        }
      | Some (Inl (Corruption offset)) \<Rightarrow> do {
          wal \<leftarrow> truncate_to wal offset record_count_at_replay;
          Some (Inr (engine, wal))
        }
      | Some (Inl (TruncatedRecord offset)) \<Rightarrow> do {
          wal \<leftarrow> truncate_to wal offset record_count_at_replay;
          Some (Inr (engine, wal))
        }
      | Some (Inl e) \<Rightarrow> Some (Inl (RecWal e)))
   }"

definition recover ::
  "codecs \<Rightarrow> disk \<Rightarrow> u32 \<Rightarrow> recovery_io \<Rightarrow> (recovery_error + matching_engine \<times> wal) option" where
  "recover k disk arena_capacity io =
     (if \<not> io_mkdir io then Some (Inl (RecWal WalIo))
      else
        (case load_latest k (io_listable io) (io_readable io) (d_snapshots disk) of
           Inl e \<Rightarrow> Some (Inl (RecSnapshot e))
         | Inr latest \<Rightarrow> do {
             start \<leftarrow> (case latest of
               Some snap \<Rightarrow> do {
                 r \<leftarrow> restore snap arena_capacity;
                 Some (case r of Inl e \<Rightarrow> Inl (RecSnapshot e) | Inr engine \<Rightarrow> Inr (engine, sn_wal_record_count snap))
               }
             | None \<Rightarrow> Some (Inr (engine_with_capacity arena_capacity, 0)));
             (case start of
                Inl e \<Rightarrow> Some (Inl e)
              | Inr (engine, start_record) \<Rightarrow> do {
                  opened \<leftarrow> wal_open (crc_hash k) (case d_wal disk of None \<Rightarrow> [] | Some f \<Rightarrow> f) (io_grow io);
                  (case opened of
                     Inl e \<Rightarrow> Some (Inl (RecWal e))
                   | Inr wal \<Rightarrow> replay_loop (crc_hash k) (iter_from wal start_record) engine wal start_record)
                })
           }))"

section \<open>Commands on the abstract book\<close>

fun a_command :: "nat \<Rightarrow> abook \<Rightarrow> engine_command \<Rightarrow> abook" where
  "a_command cap A (NewOrder ord) = snd (a_add_order cap A ord)"
| "a_command cap A (CancelOrder d) = snd (a_cancel_order A d)"

abbreviation a_run :: "nat \<Rightarrow> abook \<Rightarrow> engine_command list \<Rightarrow> abook" where
  "a_run cap \<equiv> foldl (a_command cap)"

lemma replay_command_refines:
  assumes "represents (e_book e) A"
  shows "\<exists>e'. replay_command e c = Some e' \<and>
    represents (e_book e') (a_command (capacity_of (e_book e)) A c) \<and> capacity_of (e_book e') = capacity_of (e_book e)"
proof (cases c)
  case (NewOrder ord)
  obtain r A' where "a_add_order (capacity_of (e_book e)) A ord = (r, A')" by fastforce
  from add_order_refines [OF assms this] this NewOrder show ?thesis by (auto simp: replay_command_def)
next
  case (CancelOrder d)
  obtain r A' where "a_cancel_order A d = (r, A')" by fastforce
  from cancel_order_refines [OF assms this] this CancelOrder show ?thesis by (auto simp: replay_command_def)
qed

text \<open>Invariants of every run.\<close>

definition book_inv :: "abook \<Rightarrow> bool" where
  "book_inv A \<longleftrightarrow> positive A \<and> uncrossed A"

lemma book_inv_empty: "book_inv (\<lambda>_. [])"
  by (simp add: book_inv_def positive_def uncrossed_def resting_def)

lemma a_command_inv: "abook_ok A \<Longrightarrow> book_inv A \<Longrightarrow> book_inv (a_command cap A c)"
proof (cases c)
  case (NewOrder ord)
  obtain r A' where "a_add_order cap A ord = (r, A')" by fastforce
  then show "abook_ok A \<Longrightarrow> book_inv A \<Longrightarrow> ?thesis"
    using NewOrder a_add_order_positive [of cap A ord r A'] a_add_order_uncrossed [of cap A ord r A']
    by (simp add: book_inv_def)
next
  case (CancelOrder d)
  obtain r A' where "a_cancel_order A d = (r, A')" by fastforce
  then show "abook_ok A \<Longrightarrow> book_inv A \<Longrightarrow> ?thesis"
    using CancelOrder a_cancel_order_positive [of A d r A'] a_cancel_order_uncrossed [of A d r A']
    by (simp add: book_inv_def)
qed

lemma run_commands_refines:
  "represents (e_book e) A \<Longrightarrow> \<exists>e'. run_commands e cs = Some e' \<and>
     represents (e_book e') (a_run (capacity_of (e_book e)) A cs) \<and> capacity_of (e_book e') = capacity_of (e_book e)"
proof (induction cs arbitrary: e A)
  case (Cons c cs)
  obtain e1 where e1: "replay_command e c = Some e1" "represents (e_book e1) (a_command (capacity_of (e_book e)) A c)"
    "capacity_of (e_book e1) = capacity_of (e_book e)"
    using replay_command_refines [OF Cons.prems] by blast
  from Cons.IH [OF e1(2)] e1 show ?case by auto
qed auto

section \<open>Replaying\<close>

text \<open>A replay of the records ahead: the commands, when every record is one.\<close>

lemma replay_loop_commands:
  assumes "at_records crc it (map command_bytes cs)" and "\<forall>c \<in> set cs. loggable c"
    and "i_start_record it \<le> i_current_record it" and "represents (e_book e) A" and "capacity_of (e_book e) = cap"
  shows "\<exists>e'. replay_loop crc it e w n = Some (Inr (e', w)) \<and>
    represents (e_book e') (a_run cap A (map strip_time cs)) \<and> capacity_of (e_book e') = cap"
  using assms
proof (induction cs arbitrary: it e A n)
  case Nil
  then show ?case using next_end [of crc it] by (subst replay_loop.simps) simp
next
  case (Cons c cs)
  obtain it' where nx: "next_record crc it = Some (Some (record_item (Suc (i_current_record it)) (command_bytes c)), it')"
    and it': "at_records crc it' (map command_bytes cs)" "i_current_record it' = Suc (i_current_record it)"
      "i_start_record it' = i_start_record it"
    using next_past [of crc it "command_bytes c" "map command_bytes cs"] Cons.prems(1,3) by auto
  obtain e1 where e1: "replay_command e (strip_time c) = Some e1" "represents (e_book e1) (a_command cap A (strip_time c))"
    "capacity_of (e_book e1) = cap"
    using replay_command_refines [OF Cons.prems(4), of "strip_time c"] Cons.prems(5) by auto
  have "replay_loop crc it e w n = replay_loop crc it' e1 w (n + 1)"
    using nx e1(1) Cons.prems(2) by (subst replay_loop.simps) (simp add: record_item_def decode_command_bytes)
  then show ?case
    using Cons.IH [OF it'(1) _ _ e1(2,3), of "n + 1"] it'(2,3) Cons.prems(2,3) by simp
qed

text \<open>The records the snapshot covers are skipped.\<close>

lemma replay_from:
  assumes log: "logs crc w cs" and good: "\<forall>c \<in> set cs. loggable c" and rep: "represents (e_book e) A"
    and cap: "capacity_of (e_book e) = cap"
  shows "\<exists>e'. replay_loop crc (iter_from w n) e w n = Some (Inr (e', w)) \<and>
    represents (e_book e') (a_run cap A (map strip_time (drop n cs))) \<and> capacity_of (e_book e') = cap"
proof -
  let ?it = "iter_from w n"
  have it: "at_records crc ?it (map command_bytes cs)" using log by (simp add: logs_def iter_from_records)
  have st: "i_current_record ?it = 0" "i_start_record ?it = n" by (simp_all add: iter_from_def)
  show ?thesis
  proof (cases "n < length cs")
    case True
    obtain it' where nx: "next_record crc ?it = Some (Some (record_item (Suc n) (command_bytes (cs ! n))), it')"
      and it': "at_records crc it' (map command_bytes (drop (Suc n) cs))" "i_current_record it' = Suc n" "i_start_record it' = n"
      using next_skip(2) [OF it] st True by (auto simp: drop_map)
    have dr: "drop n cs = cs ! n # drop (Suc n) cs" using True by (rule Cons_nth_drop_Suc [symmetric])
    have l: "loggable (cs ! n)" "\<forall>c \<in> set (drop (Suc n) cs). loggable c" using good True by (auto dest: in_set_dropD)
    obtain e1 where e1: "replay_command e (strip_time (cs ! n)) = Some e1"
      "represents (e_book e1) (a_command cap A (strip_time (cs ! n)))" "capacity_of (e_book e1) = cap"
      using replay_command_refines [OF rep, of "strip_time (cs ! n)"] cap by auto
    have "replay_loop crc ?it e w n = replay_loop crc it' e1 w (n + 1)"
      using nx e1(1) l by (subst replay_loop.simps) (simp add: record_item_def decode_command_bytes)
    then show ?thesis
      using replay_loop_commands [OF it'(1) l(2) _ e1(2,3), of w "n + 1"] it'(2,3) dr by simp
  next
    case False
    then obtain it' where "next_record crc ?it = Some (None, it')" using next_skip(1) [OF it] st by auto
    then show ?thesis using False rep cap by (subst replay_loop.simps) simp
  qed
qed

section \<open>Time stamps do not matter to matching\<close>

definition strip_order :: "order \<Rightarrow> order" where
  "strip_order x = x\<lparr>o_timestamp := 0\<rparr>"

definition strip_book :: "abook \<Rightarrow> abook" where
  "strip_book A = (\<lambda>s. map strip_order (A s))"

lemma strip_order_sel [simp]:
  "o_id (strip_order x) = o_id x" "o_trader_id (strip_order x) = o_trader_id x" "o_side (strip_order x) = o_side x"
  "o_price (strip_order x) = o_price x" "o_quantity (strip_order x) = o_quantity x"
  "(strip_order x)\<lparr>o_quantity := q\<rparr> = strip_order (x\<lparr>o_quantity := q\<rparr>)"
  by (simp_all add: strip_order_def)

lemma fill_of_strip [simp]: "fill_of (strip_order t) (strip_order m) = fill_of t m"
  by (simp add: fill_of_def)

lemma a_match_strip:
  "a_match (strip_order t) (map strip_order Q) =
     (case a_match t Q of (fs, t', st, Q') \<Rightarrow> (fs, strip_order t', st, map strip_order Q'))"
  by (induction t Q rule: a_match.induct) (auto split: prod.splits)

lemma enqueue_strip: "enqueue (strip_order x) (map strip_order Q) = map strip_order (enqueue x Q)"
  by (simp add: enqueue_def takeWhile_map dropWhile_map comp_def)

lemma strip_book_sel [simp]: "strip_book A s = map strip_order (A s)"
  by (simp add: strip_book_def)

lemma strip_book_upd: "strip_book (A(s := Q)) = (strip_book A)(s := map strip_order Q)"
  by (auto simp: strip_book_def)

lemma resting_strip: "resting (strip_book A) = map strip_order (resting A)"
  by (simp add: resting_def)

lemma ids_strip [simp]: "ids (strip_book A) = ids A"
  by (simp add: ids_def resting_strip comp_def)

lemma a_add_order_strip:
  "a_add_order cap (strip_book A) (strip_order ord) =
     (case a_add_order cap A ord of (r, A') \<Rightarrow> (r, strip_book A'))"
proof -
  obtain fs t st Q where m: "a_match ord (A (opposite (o_side ord))) = (fs, t, st, Q)"
    by (metis prod_cases4)
  let ?A = "A(opposite (o_side ord) := Q)"
  have "length (resting (strip_book ?A)) = length (resting ?A)" by (simp add: resting_strip)
  then show ?thesis
    using m by (simp add: a_add_order_def a_match_strip Let_def enqueue_strip del: fun_upd_apply flip: strip_book_upd)
qed

lemma without_id_strip: "without_id d (map strip_order Q) = map strip_order (without_id d Q)"
  by (simp add: without_id_def filter_map comp_def)

lemma a_cancel_order_strip:
  "snd (a_cancel_order (strip_book A) d) = strip_book (snd (a_cancel_order A d))"
proof -
  have "find (\<lambda>x. o_id x = d) (map strip_order Q) = map_option strip_order (find (\<lambda>x. o_id x = d) Q)" for Q
    by (induction Q) auto
  then show ?thesis
    by (auto simp: a_cancel_order_def resting_strip strip_book_upd without_id_strip split: option.split)
qed

lemma a_command_strip: "a_command cap (strip_book A) (strip_time c) = strip_book (a_command cap A c)"
proof (cases c)
  case (NewOrder ord)
  have "a_add_order cap (strip_book A) (ord\<lparr>o_timestamp := 0\<rparr>) =
      (case a_add_order cap A ord of (r, A') \<Rightarrow> (r, strip_book A'))"
    using a_add_order_strip [of cap A ord] by (simp add: strip_order_def)
  then show ?thesis using NewOrder by (simp split: prod.splits)
qed (simp add: a_cancel_order_strip)

lemma strip_time_twice [simp]: "strip_time (strip_time c) = strip_time c"
  by (cases c) simp_all

lemma a_run_strip: "a_run cap (strip_book A) (map strip_time cs) = strip_book (a_run cap A cs)"
  by (induction cs arbitrary: A) (simp_all add: a_command_strip)

lemma a_run_strip_time: "strip_book (a_run cap A (map strip_time cs)) = strip_book (a_run cap A cs)"
  using a_run_strip [of cap A "map strip_time cs"] a_run_strip [of cap A cs] by (simp add: comp_def)

lemma a_run_cong: "strip_book A = strip_book B \<Longrightarrow> strip_book (a_run cap A cs) = strip_book (a_run cap B cs)"
  by (metis a_run_strip)

lemma rest_all_strip: "strip_book (foldl rest_order A os) = foldl rest_order (strip_book A) (map strip_order os)"
  by (induction os arbitrary: A) (simp_all add: rest_order_def strip_book_upd enqueue_strip del: fun_upd_apply)

lemma abook_ok_strip: "abook_ok A \<Longrightarrow> abook_ok (strip_book A)"
  by (simp add: abook_ok_def in_priority_def comp_def)

section \<open>Recovery on any disk\<close>

definition recovered :: "(u8 list \<Rightarrow> u32) \<Rightarrow> u32 \<Rightarrow> recovery_error + matching_engine \<times> wal \<Rightarrow> bool" where
  "recovered crc c r \<longleftrightarrow> (\<forall>e w. r = Inr (e, w) \<longrightarrow>
     (\<exists>A ps. represents (e_book e) A \<and> capacity_of (e_book e) = unat c \<and> wal_ok crc w ps))"

lemma replay_loop_past:
  assumes "at_records crc it ps" and "i_start_record it \<le> i_current_record it"
    and "represents (e_book e) A" and "capacity_of (e_book e) = unat c" and "wal_ok crc w qs"
  shows "\<exists>r. replay_loop crc it e w n = Some r \<and> recovered crc c r"
  using assms
proof (induction ps arbitrary: it e A n)
  case Nil
  then have "replay_loop crc it e w n = Some (Inr (e, w))"
    using next_end [of crc it] by (subst replay_loop.simps) simp
  with Nil.prems show ?case by (auto simp: recovered_def)
next
  case (Cons pl ps)
  obtain it' where nx: "next_record crc it = Some (Some (record_item (Suc (i_current_record it)) pl), it')"
    and it': "at_records crc it' ps" "i_start_record it' \<le> i_current_record it'"
    using next_past [OF Cons.prems(1,2)] Cons.prems(2) by auto
  show ?case
  proof (cases "decode_message pl")
    case (Inl err)
    then have "replay_loop crc it e w n = Some (Inl (RecWal (WalProtocol err)))"
      using nx by (subst replay_loop.simps) (simp add: record_item_def)
    then show ?thesis by (simp add: recovered_def)
  next
    case (Inr cmd)
    obtain e1 where e1: "replay_command e cmd = Some e1" "represents (e_book e1) (a_command (unat c) A cmd)"
      "capacity_of (e_book e1) = unat c"
      using replay_command_refines [OF Cons.prems(3), of cmd] Cons.prems(4) by auto
    have "replay_loop crc it e w n = replay_loop crc it' e1 w (n + 1)"
      using nx e1(1) Inr by (subst replay_loop.simps) (simp add: record_item_def)
    then show ?thesis using Cons.IH [OF it' e1(2,3) Cons.prems(5)] by simp
  qed
qed

text \<open>Skipping is a loop inside \<open>next\<close>, so the first call is compared with one at the record it reaches.\<close>

lemma next_skipped:
  assumes "at_records crc it ps" and "i_current_record it \<le> i_start_record it"
  shows "\<exists>it' qs. next_record crc it = next_record crc it' \<and> at_records crc it' qs \<and>
    (qs = [] \<or> i_start_record it' \<le> i_current_record it')"
  using assms
proof (induction ps arbitrary: it)
  case Nil
  then show ?case by blast
next
  case (Cons pl ps)
  let ?it = "it\<lparr>i_read_pos := i_read_pos it + record_size (length pl), i_current_record := i_current_record it + 1\<rparr>"
  show ?case
  proof (cases "i_current_record it < i_start_record it")
    case True
    have "next_record crc it = next_record crc ?it" using next_step(1) [OF Cons.prems(1)] True by simp
    with Cons.IH [OF next_step(2) [OF Cons.prems(1)]] True show ?thesis by simp
  next
    case False
    with Cons.prems show ?thesis by (intro exI [of _ it] exI [of _ "pl # ps"]) simp
  qed
qed

lemma replay_loop_total:
  assumes w: "wal_ok crc w qs" and e: "represents (e_book e) A" "capacity_of (e_book e) = unat c"
  shows "\<exists>r. replay_loop crc (iter_from w n) e w n = Some r \<and> recovered crc c r"
proof -
  have "i_current_record (iter_from w n) \<le> i_start_record (iter_from w n)" by (simp add: iter_from_def)
  from next_skipped [OF iter_from_records [OF w] this]
  obtain it' ps where nx: "next_record crc (iter_from w n) = next_record crc it'" and it': "at_records crc it' ps"
    "ps = [] \<or> i_start_record it' \<le> i_current_record it'" by blast
  have eq: "replay_loop crc (iter_from w n) e w n = replay_loop crc it' e w n"
    by (subst replay_loop.simps, subst (2) replay_loop.simps) (simp add: nx)
  show ?thesis
  proof (cases "ps = []")
    case True
    then have "replay_loop crc it' e w n = Some (Inr (e, w))"
      using next_end [of crc it'] it' by (subst replay_loop.simps) simp
    with eq w e show ?thesis by (auto simp: recovered_def)
  next
    case False
    with it' show ?thesis using replay_loop_past [OF it'(1) _ e w, of n] eq by simp
  qed
qed

lemma wal_open_total:
  "(\<exists>w ps. wal_open crc file g = Some (Inr w) \<and> wal_ok crc w ps) \<or> wal_open crc file g = Some (Inl WalIo)"
proof (cases "(length file < DEFAULT_INITIAL_SIZE \<and> g = SetLenFails) \<or> g = MapFails")
  case True
  then show ?thesis by (auto simp: wal_open_def open_with_size_def Let_def)
next
  case False
  then have "wal_open crc file g = open_with_size crc file DEFAULT_INITIAL_SIZE GrowOk"
    by (auto simp: wal_open_def open_with_size_def Let_def)
  then show ?thesis using open_ok [of crc "file" DEFAULT_INITIAL_SIZE] by auto
qed

lemma restore_total:
  "\<exists>r. restore snap c = Some r \<and> (\<forall>e. r = Inr e \<longrightarrow> (\<exists>A. represents (e_book e) A \<and> capacity_of (e_book e) = unat c))"
  using restore_refines [of "sn_orders snap" c] by (auto simp: restore_def split: if_splits)

lemma start_total:
  "\<exists>r. (case latest of
        Some snap \<Rightarrow> restore snap c \<bind> (\<lambda>r. Some (case r of Inl e \<Rightarrow> Inl (RecSnapshot e) | Inr engine \<Rightarrow> Inr (engine, sn_wal_record_count snap)))
      | None \<Rightarrow> Some (Inr (engine_with_capacity c, 0))) = Some r \<and>
      (\<forall>e n. r = Inr (e, n) \<longrightarrow> (\<exists>A. represents (e_book e) A \<and> capacity_of (e_book e) = unat c))"
proof (cases latest)
  case None
  then show ?thesis using engine_new_represents [of c] by auto
next
  case (Some snap)
  then show ?thesis using restore_total [of snap c] by (auto split: sum.splits)
qed

lemma recover_recovered: "\<exists>r. recover k disk c io = Some r \<and> recovered (crc_hash k) c r"
proof (cases "io_mkdir io \<and> (\<exists>latest. load_latest k (io_listable io) (io_readable io) (d_snapshots disk) = Inr latest)")
  case False
  then show ?thesis by (auto simp: recover_def recovered_def split: sum.splits)
next
  case True
  then obtain latest where l: "io_mkdir io" "load_latest k (io_listable io) (io_readable io) (d_snapshots disk) = Inr latest" by blast
  obtain r where r: "(case latest of
      Some snap \<Rightarrow> restore snap c \<bind> (\<lambda>r. Some (case r of Inl e \<Rightarrow> Inl (RecSnapshot e) | Inr engine \<Rightarrow> Inr (engine, sn_wal_record_count snap)))
    | None \<Rightarrow> Some (Inr (engine_with_capacity c, 0))) = Some r"
    "\<And>e n. r = Inr (e, n) \<Longrightarrow> \<exists>A. represents (e_book e) A \<and> capacity_of (e_book e) = unat c"
    using start_total [where latest = latest and c = c] by blast
  show ?thesis
  proof (cases r)
    case (Inl e)
    then show ?thesis using l r(1) by (simp add: recover_def recovered_def)
  next
    case (Inr x)
    then obtain e n A where x: "r = Inr (e, n)" "represents (e_book e) A" "capacity_of (e_book e) = unat c"
      using r(2) by (cases x) auto
    from wal_open_total [of "crc_hash k" "case d_wal disk of None \<Rightarrow> [] | Some f \<Rightarrow> f" "io_grow io"]
    show ?thesis
    proof (elim disjE exE conjE)
      fix w ps
      assume w: "wal_open (crc_hash k) (case d_wal disk of None \<Rightarrow> [] | Some f \<Rightarrow> f) (io_grow io) = Some (Inr w)" "wal_ok (crc_hash k) w ps"
      from replay_loop_total [OF w(2) x(2,3), of n] show ?thesis using l r(1) x(1) w(1) by (simp add: recover_def)
    next
      assume "wal_open (crc_hash k) (case d_wal disk of None \<Rightarrow> [] | Some f \<Rightarrow> f) (io_grow io) = Some (Inl WalIo)"
      then show ?thesis using l r(1) x(1) by (simp add: recover_def recovered_def)
    qed
  qed
qed

section \<open>Recovery after a clean run\<close>

lemma run_represents:
  fixes c :: u32
  shows "\<exists>e :: matching_engine. represents (e_book e) (a_run (unat c) (\<lambda>_. []) cs) \<and> capacity_of (e_book e) = unat c"
proof (induction cs rule: rev_induct)
  case Nil
  then show ?case using engine_new_represents [of c] by (intro exI [of _ "engine_with_capacity c"]) simp
next
  case (snoc x cs)
  then obtain e :: matching_engine where e: "represents (e_book e) (a_run (unat c) (\<lambda>_. []) cs)"
    "capacity_of (e_book e) = unat c" by blast
  from replay_command_refines [OF e(1), of x] e(2) show ?case by auto
qed

lemma run_ok:
  fixes c :: u32
  shows "abook_ok (a_run (unat c) (\<lambda>_. []) cs)" and "length (resting (a_run (unat c) (\<lambda>_. []) cs)) \<le> unat c"
    and "\<exists>b. represents b (a_run (unat c) (\<lambda>_. []) cs) \<and> capacity_of b = unat c"
  using run_represents [of c cs] represents_abook_ok insert_represents(4) by fastforce+

lemma run_inv:
  fixes c :: u32
  shows "book_inv (a_run (unat c) (\<lambda>_. []) cs)"
  by (induction cs rule: rev_induct) (simp_all add: book_inv_empty a_command_inv run_ok(1))

text \<open>
  A book is live for the commands \<open>cs\<close> when it is the book they lead to, up to time stamps.

  The gateway drops the error of a failed append and executes the command all the same. A history is
  the sequence of the commands executed, each with whether the log has it. A later start can only
  know the commands of the log and those that a snapshot has seen: what is \<open>kept\<close> of a history is a
  subsequence with all the logged commands. A snapshot belongs to a history when it is of the book of
  what is kept of a first part of it, in which the log has as many commands as the snapshot says.
\<close>

type_synonym history = "(engine_command \<times> bool) list"

definition logged :: "history \<Rightarrow> engine_command list" where
  "logged h = map fst (filter snd h)"

definition kept :: "history \<Rightarrow> history \<Rightarrow> bool" where
  "kept full h \<longleftrightarrow> subseq h full \<and> filter snd h = filter snd full"

definition live_for :: "u32 \<Rightarrow> engine_command list \<Rightarrow> abook \<Rightarrow> bool" where
  "live_for c cs A \<longleftrightarrow> strip_book A = strip_book (a_run (unat c) (\<lambda>_. []) cs)"

definition live_with :: "u32 \<Rightarrow> history \<Rightarrow> abook \<Rightarrow> bool" where
  "live_with c full A \<longleftrightarrow> (\<exists>h. kept full h \<and> live_for c (map fst h) A)"

definition snapshot_of_run :: "u32 \<Rightarrow> history \<Rightarrow> snapshot \<Rightarrow> bool" where
  "snapshot_of_run c full snap \<longleftrightarrow> (\<exists>past later h. full = past @ later \<and> kept past h \<and>
     sn_wal_record_count snap = length (logged past) \<and>
     map strip_order (sn_orders snap) = resting (strip_book (a_run (unat c) (\<lambda>_. []) (map fst h))))"

lemma live_for_run: "live_for c cs A \<Longrightarrow> live_for c (cs @ ds) (a_run (unat c) A ds)"
  using a_run_cong [of A "a_run (unat c) (\<lambda>_. []) cs" "unat c" ds] by (simp add: live_for_def)

lemma live_for_empty: "live_for c [] (\<lambda>_. [])"
  by (simp add: live_for_def)

lemma logged_simps [simp]:
  "logged [] = []" "logged ((x, b) # h) = (if b then x # logged h else logged h)" "logged (h @ h') = logged h @ logged h'"
  by (simp_all add: logged_def)

lemma logged_all: "\<forall>x \<in> set h. snd x \<Longrightarrow> logged h = map fst h"
  by (simp add: logged_def)

lemma logged_subset: "x \<in> set (logged h) \<Longrightarrow> x \<in> set (map fst h)"
  by (auto simp: logged_def)

lemma kept_refl: "kept h h"
  by (simp add: kept_def)

lemma kept_logged: "kept h (filter snd h)"
  by (simp add: kept_def)

lemma kept_append: "kept f h \<Longrightarrow> kept f' h' \<Longrightarrow> kept (f @ f') (h @ h')"
  by (auto simp: kept_def intro: list_emb_append_mono)

text \<open>Where no append has failed, everything is kept.\<close>

lemma kept_all:
  assumes "kept full h" and "\<forall>x \<in> set full. snd x"
  shows "h = full"
proof -
  have "filter snd full = full" using assms(2) by (rule filter_True)
  with assms(1) have "subseq h full" "filter snd h = full" by (simp_all add: kept_def)
  then show ?thesis using subseq_filter_left [of snd h] subseq_order.antisym by blast
qed

lemma live_with_empty: "live_with c [] (\<lambda>_. [])"
  using kept_refl live_for_empty by (fastforce simp: live_with_def)

lemma live_with_command:
  assumes "live_with c full A"
  shows "live_with c (full @ [(x, b)]) (a_command (unat c) A x)"
proof -
  from assms obtain h where h: "kept full h" "live_for c (map fst h) A" by (auto simp: live_with_def)
  have "live_for c (map fst (h @ [(x, b)])) (a_command (unat c) A x)" using live_for_run [OF h(2), of "[x]"] by simp
  with kept_append [OF h(1) kept_refl] show ?thesis unfolding live_with_def by blast
qed

lemma live_with_replay:
  assumes "live_with c past A"
  shows "live_with c (past @ later) (a_run (unat c) A (logged later))"
proof -
  from assms obtain h where h: "kept past h" "live_for c (map fst h) A" by (auto simp: live_with_def)
  have "live_for c (map fst (h @ filter snd later)) (a_run (unat c) A (logged later))"
    using live_for_run [OF h(2), of "logged later"] by (simp add: logged_def)
  with kept_append [OF h(1) kept_logged] show ?thesis unfolding live_with_def by blast
qed

lemma live_with_cong: "live_with c full A \<Longrightarrow> strip_book B = strip_book A \<Longrightarrow> live_with c full B"
  by (simp add: live_with_def live_for_def)

lemma snapshot_of_run_mono: "snapshot_of_run c full snap \<Longrightarrow> snapshot_of_run c (full @ h) snap"
  by (fastforce simp: snapshot_of_run_def)

lemma snapshot_of_live:
  assumes "live_with c full A" and "sn_orders snap = resting A" and "sn_wal_record_count snap = length (logged full)"
  shows "snapshot_of_run c full snap"
proof -
  from assms(1) obtain h where "kept full h" "strip_book A = strip_book (a_run (unat c) (\<lambda>_. []) (map fst h))"
    by (auto simp: live_with_def live_for_def)
  moreover have "full = full @ []" by simp
  ultimately show ?thesis using assms(2,3) resting_strip [of A] unfolding snapshot_of_run_def by metis
qed

lemma restore_run:
  assumes "snapshot_of_run c full snap"
  shows "\<exists>e A past later. restore snap c = Some (Inr e) \<and> represents (e_book e) A \<and> capacity_of (e_book e) = unat c \<and>
    full = past @ later \<and> sn_wal_record_count snap = length (logged past) \<and> live_with c past A"
proof -
  from assms obtain past later h where h: "full = past @ later" "kept past h" "sn_wal_record_count snap = length (logged past)"
    and os: "map strip_order (sn_orders snap) = resting (strip_book (a_run (unat c) (\<lambda>_. []) (map fst h)))"
    by (auto simp: snapshot_of_run_def)
  let ?R = "a_run (unat c) (\<lambda>_. []) (map fst h)"
  have "map o_id (sn_orders snap) = map o_id (map strip_order (sn_orders snap))" by (simp add: comp_def)
  then have "map o_id (sn_orders snap) = ids ?R" unfolding os by (simp add: ids_def resting_strip comp_def)
  moreover have "length (sn_orders snap) = length (resting ?R)"
    using arg_cong [OF os, of length] by (simp add: resting_strip)
  ultimately have ok: "distinct (map o_id (sn_orders snap))" "length (sn_orders snap) \<le> unat c"
    using run_ok [where c = c and cs = "map fst h"] by (auto simp: abook_ok_def)
  let ?A = "foldl rest_order (\<lambda>_. []) (sn_orders snap)"
  have "strip_book (\<lambda>_. []) = (\<lambda>_. [])" by (simp add: strip_book_def)
  then have "strip_book ?A = strip_book ?R"
    using rest_all_strip [of "\<lambda>_. []" "sn_orders snap"] rest_resting [OF abook_ok_strip [OF run_ok(1)]] os by simp
  then have "live_with c past ?A" using h(2) by (auto simp: live_with_def live_for_def)
  moreover obtain e where "restore snap c = Some (Inr e)" "represents (e_book e) ?A" "capacity_of (e_book e) = unat c"
    using restore_refines [of "sn_orders snap" c] ok by (auto simp: restore_def)
  ultimately show ?thesis using h by blast
qed

lemma recover_opened:
  assumes w': "wal_open (crc_hash k) f (io_grow io) = Some (Inr w')" "logs (crc_hash k) w' (logged full)"
    and good: "\<forall>x \<in> set (logged full). loggable x" and d: "f = (case d_wal disk of None \<Rightarrow> [] | Some f \<Rightarrow> f)" and io: "io_mkdir io"
    and l: "load_latest k (io_listable io) (io_readable io) (d_snapshots disk) = Inr latest"
    and snap: "\<And>s. latest = Some s \<Longrightarrow> snapshot_of_run c full s"
  shows "\<exists>e' A'. recover k disk c io = Some (Inr (e', w')) \<and>
    represents (e_book e') A' \<and> capacity_of (e_book e') = unat c \<and> live_with c full A'"
proof -
  obtain e A past later where e: "represents (e_book e) A" "capacity_of (e_book e) = unat c" "live_with c past A"
    and full: "full = past @ later"
    and start: "(case latest of Some s \<Rightarrow> restore s c \<bind> (\<lambda>r. Some (case r of Inl e \<Rightarrow> Inl (RecSnapshot e)
        | Inr engine \<Rightarrow> Inr (engine, sn_wal_record_count s))) | None \<Rightarrow> Some (Inr (engine_with_capacity c, 0))) =
      Some (Inr (e, length (logged past)))"
  proof (cases latest)
    case None
    then show thesis
      using that [of "engine_with_capacity c" "\<lambda>_. []" "[]" full] engine_new_represents live_with_empty by (simp add: logged_def)
  next
    case (Some s)
    then show thesis using restore_run [OF snap [OF Some]] that by auto
  qed
  obtain e' where e': "replay_loop (crc_hash k) (iter_from w' (length (logged past))) e w' (length (logged past)) = Some (Inr (e', w'))"
    "represents (e_book e') (a_run (unat c) A (map strip_time (logged later)))" "capacity_of (e_book e') = unat c"
    using replay_from [OF w'(2) good e(1,2), of "length (logged past)"] by (auto simp: full)
  have "recover k disk c io = Some (Inr (e', w'))"
    using io l start w'(1) d e'(1) by (simp add: recover_def)
  moreover have "live_with c full (a_run (unat c) A (map strip_time (logged later)))"
    using live_with_cong [OF live_with_replay [OF e(3), of later]] by (simp add: a_run_strip_time full)
  ultimately show ?thesis using w' e' by blast
qed

text \<open>A growth that is not needed, or that succeeds, makes no difference to what is opened.\<close>

lemma wal_open_grow: "wal_open crc f g = Some (Inr w) \<Longrightarrow> wal_open crc f GrowOk = Some (Inr w)"
  by (auto simp: wal_open_def open_with_size_def Let_def split: if_splits)

text \<open>A restart after the process has ended in order, and one after a crash left something behind the log.\<close>

lemma recover_run:
  assumes log: "logs (crc_hash k) w (logged full)" "clean w" and good: "\<forall>x \<in> set (logged full). loggable x"
    and d: "d_wal disk = Some (wal_file w)" and io: "io_mkdir io"
    and g: "wal_open (crc_hash k) (wal_file w) (io_grow io) = Some (Inr w')"
    and l: "load_latest k (io_listable io) (io_readable io) (d_snapshots disk) = Inr latest"
    and snap: "\<And>s. latest = Some s \<Longrightarrow> snapshot_of_run c full s"
  shows "\<exists>e' A'. recover k disk c io = Some (Inr (e', w')) \<and> logs (crc_hash k) w' (logged full) \<and> clean w' \<and>
    represents (e_book e') A' \<and> capacity_of (e_book e') = unat c \<and> live_with c full A'"
proof -
  have w': "logs (crc_hash k) w' (logged full)" "clean w'"
    using reopen_clean [OF log(1) [unfolded logs_def] log(2), of DEFAULT_INITIAL_SIZE] wal_open_grow [OF g]
    by (auto simp: wal_open_def logs_def)
  from recover_opened [OF g w'(1) good _ io l snap] d w' show ?thesis by auto
qed

lemma recover_crash:
  assumes log: "logs (crc_hash k) w (logged full)" and good: "\<forall>x \<in> set (logged full). loggable x"
    and f: "f = take (w_write_pos w) (w_mmap w) @ tail"
    and tail: "no_rec (crc_hash k) (f @ replicate (DEFAULT_INITIAL_SIZE - length f) 0) (w_write_pos w)"
    and d: "d_wal disk = Some f" and io: "io_mkdir io" "io_grow io = GrowOk"
    and l: "load_latest k (io_listable io) (io_readable io) (d_snapshots disk) = Inr latest"
    and snap: "\<And>s. latest = Some s \<Longrightarrow> snapshot_of_run c full s"
  shows "\<exists>e' w' A'. recover k disk c io = Some (Inr (e', w')) \<and> logs (crc_hash k) w' (logged full) \<and>
    represents (e_book e') A' \<and> capacity_of (e_book e') = unat c \<and> live_with c full A'"
proof -
  have ok: "wal_ok (crc_hash k) w (map command_bytes (logged full))" using log by (simp add: logs_def)
  have "take (w_write_pos w) f = take (w_write_pos w) (w_mmap w)" "w_write_pos w \<le> length f"
    using wal_ok_pos [OF ok] by (auto simp: f)
  from reopen_prefix [OF ok this, of DEFAULT_INITIAL_SIZE] obtain w' qs where
    w': "wal_open (crc_hash k) f GrowOk = Some (Inr w')" "wal_ok (crc_hash k) w' (map command_bytes (logged full) @ qs)"
      "w_mmap w' = f @ replicate (DEFAULT_INITIAL_SIZE - length f) 0"
      "chain (crc_hash k) (w_mmap w') (w_write_pos w) qs (w_write_pos w')"
    unfolding wal_open_def by blast
  have "qs = []" using w'(3,4) tail by (cases qs) (auto simp: no_rec_def)
  then have "logs (crc_hash k) w' (logged full)" using w'(2) by (simp add: logs_def)
  from recover_opened [OF _ this good _ io(1) l snap] w'(1) io(2) d this show ?thesis by auto
qed

text \<open>A log that holds no more records than the snapshot covers: none of them is replayed.\<close>

lemma recover_covered:
  assumes log: "logs (crc_hash k) w cs" "clean w" and good: "\<forall>x \<in> set cs. loggable x"
    and d: "d_wal disk = Some (wal_file w)" and io: "io_mkdir io" "io_grow io = GrowOk"
    and l: "load_latest k (io_listable io) (io_readable io) (d_snapshots disk) = Inr (Some snap)"
    and r: "restore snap c = Some (Inr e)" and rep: "represents (e_book e) A" "capacity_of (e_book e) = unat c"
    and n: "length cs \<le> sn_wal_record_count snap"
  shows "\<exists>e' w'. recover k disk c io = Some (Inr (e', w')) \<and> logs (crc_hash k) w' cs \<and> clean w' \<and>
    represents (e_book e') A \<and> capacity_of (e_book e') = unat c"
proof -
  obtain w' where w': "wal_open (crc_hash k) (wal_file w) GrowOk = Some (Inr w')" "logs (crc_hash k) w' cs" "clean w'"
    using reopen_clean [OF log(1) [unfolded logs_def] log(2)] by (auto simp: wal_open_def logs_def)
  from replay_from [OF w'(2) good rep, of "sn_wal_record_count snap"] n io l r d w' show ?thesis
    by (auto simp: recover_def)
qed

end
