(* ===== verification/Engine_Props.thy ===== *)
theory Engine_Props
  imports Recovery
begin

text \<open>
  The properties of the order book and the matching engine (\<open>src/src/arena.rs\<close>, \<open>src/src/book.rs\<close>,
  \<open>src/src/matching.rs\<close>), each stated of the definitions that model the code and shown at a sample.
\<close>

section \<open>Samples\<close>

definition sample_order :: "u64 \<Rightarrow> u64 \<Rightarrow> side \<Rightarrow> u64 \<Rightarrow> u64 \<Rightarrow> order" where
  "sample_order d t s p q = \<lparr>o_id = d, o_trader_id = t, o_side = s, o_price = I64 p, o_quantity = q, o_timestamp = 7\<rparr>"

definition resting_ask :: order where "resting_ask = sample_order 1 10 Ask 100 5"
definition resting_bid :: order where "resting_bid = sample_order 2 20 Bid 90 3"
definition taker_bid :: order where "taker_bid = sample_order 3 30 Bid 101 8"

definition sample_commands :: "engine_command list" where
  "sample_commands = [NewOrder resting_ask, NewOrder resting_bid]"

definition sample_book :: abook where
  "sample_book = (\<lambda>s. case s of Ask \<Rightarrow> [resting_ask] | Bid \<Rightarrow> [resting_bid])"

definition sample_arena :: arena where
  "sample_arena = \<lparr>a_storage = [(from_order resting_ask)\<lparr>n_next := 1\<rparr>, (from_order taker_bid)\<lparr>n_prev := 0\<rparr>, node_zeroed],
     a_free_head = 2, a_count = 2, a_capacity = 3\<rparr>"

definition sample_level :: price_level where
  "sample_level = \<lparr>l_head = 0, l_tail = 1, l_count = 2, l_qty = 13\<rparr>"

definition huge_ask :: "u64 \<Rightarrow> order" where "huge_ask d = sample_order d 10 Ask 100 (2 ^ 63)"

lemmas sample_defs = sample_order_def resting_ask_def resting_bid_def taker_bid_def

lemma sample_run: "a_run 4 (\<lambda>_. []) sample_commands = sample_book"
  by (rule ext, case_tac x)
    (simp_all add: sample_commands_def sample_defs a_add_order_def Let_def ids_def resting_def enqueue_def
      less_eq_i64_def i64_val_def sample_book_def)

lemma sample_engine:
  obtains e :: matching_engine where "represents (e_book e) sample_book" and "capacity_of (e_book e) = 4"
  using run_represents [of 4 sample_commands] sample_run by auto

lemma sample_book_sel [simp]: "sample_book Ask = [resting_ask]" "sample_book Bid = [resting_bid]"
  by (simp_all add: sample_book_def)

lemma sample_add:
  "a_add_order 4 sample_book taker_bid =
    (Inr \<lparr>r_order_id = 3, r_status = PartiallyFilled, r_fills = [takes 3 5 resting_ask]\<rparr>,
     sample_book(Ask := [], Bid := [taker_bid\<lparr>o_quantity := 3\<rparr>, resting_bid]))"
  by (simp add: a_add_order_def sample_defs Let_def ids_def resting_def enqueue_def
      less_eq_i64_def i64_val_def fill_of_def takes_def)

lemma sample_add_order:
  assumes "represents (e_book e) sample_book" and "capacity_of (e_book e) = 4"
  obtains e' where "add_order e taker_bid =
      Some (Inr \<lparr>r_order_id = 3, r_status = PartiallyFilled, r_fills = [takes 3 5 resting_ask]\<rparr>, e')"
    and "represents (e_book e') (sample_book(Ask := [], Bid := [taker_bid\<lparr>o_quantity := 3\<rparr>, resting_bid]))"
  using add_order_refines [OF assms(1), of taker_bid] assms(2) sample_add by auto

section \<open>The engine\<close>

text \<open>
  C1. \<open>add_order\<close> implements the abstract engine. Whatever well-formed book the engine holds, the
  call returns (it neither panics nor loops), its result on every branch is the one the abstract
  engine gives for the list of resting orders, and the book it leaves holds the list the
  abstract engine leaves.
\<close>

theorem add_order_implements:
  assumes "represents (e_book e) A"
  shows "\<exists>e'. add_order e ord = Some (fst (a_add_order (capacity_of (e_book e)) A ord), e') \<and>
    represents (e_book e') (snd (a_add_order (capacity_of (e_book e)) A ord)) \<and>
    capacity_of (e_book e') = capacity_of (e_book e)"
  using add_order_refines [OF assms] by (metis prod.collapse)

theorem add_order_implements_witness:
  "\<exists>e e' :: matching_engine. represents (e_book e) sample_book \<and>
     add_order e taker_bid =
       Some (Inr \<lparr>r_order_id = 3, r_status = PartiallyFilled, r_fills = [takes 3 5 resting_ask]\<rparr>, e') \<and>
     represents (e_book e') (sample_book(Ask := [], Bid := [taker_bid\<lparr>o_quantity := 3\<rparr>, resting_bid]))"
proof -
  obtain e :: matching_engine where e: "represents (e_book e) sample_book" "capacity_of (e_book e) = 4"
    by (rule sample_engine)
  from add_order_implements [OF e(1), of taker_bid] e show ?thesis by (auto simp: sample_add)
qed

text \<open>
  C2. Every sequence of new orders and cancellations on a fresh engine runs to its end, and the
  book it leaves is well-formed: each side in price-time priority, ids unique, no resting order of
  quantity zero, no bid at or above an ask, and no more orders than the arena has slots. It holds
  exactly the orders the abstract engine holds after the same commands.
\<close>

theorem engine_invariant:
  "\<exists>e. run_commands (engine_with_capacity c) cs = Some e \<and>
     represents (e_book e) (a_run (unat c) (\<lambda>_. []) cs) \<and> abook_ok (a_run (unat c) (\<lambda>_. []) cs) \<and>
     positive (a_run (unat c) (\<lambda>_. []) cs) \<and> uncrossed (a_run (unat c) (\<lambda>_. []) cs) \<and>
     order_count (e_book e) \<le> unat c"
proof -
  obtain e where e: "run_commands (engine_with_capacity c) cs = Some e"
    "represents (e_book e) (a_run (unat c) (\<lambda>_. []) cs)"
    using run_commands_refines [OF engine_new_represents(1) [of c]] engine_new_represents(2) [of c] by auto
  moreover have "order_count (e_book e) \<le> unat c"
    using represents_count [OF e(2)] run_ok(2) [of c cs] by simp
  ultimately show ?thesis using run_ok(1) [of c cs] run_inv [of c cs] by (auto simp: book_inv_def)
qed

text \<open>
  C3. Price-time priority. The fills of an accepted order take a prefix of the opposite side in
  priority order: each of those makers whole and at its own price, the last one perhaps in part
  and then the taker is used up. All of them cross the limit and belong to another trader. The
  match stops only when the taker is used up, when the next maker is of the same trader (and only
  then), or when no resting price crosses the limit.
\<close>

theorem fills_price_time:
  assumes "represents (e_book e) A" and "add_order e ord = Some (Inr res, e')"
  shows "\<exists>left A'. represents (e_book e') A' \<and>
    match_outcome ord (A (opposite (o_side ord))) (r_fills res) left
      (r_status res = CancelledSelfTrade) (A' (opposite (o_side ord))) \<and>
    unat (o_quantity ord) = filled (r_fills res) + unat left"
proof -
  obtain r A' where a: "a_add_order (capacity_of (e_book e)) A ord = (r, A')" by fastforce
  with add_order_refines [OF assms(1) a] assms(2) have r: "r = Inr res" and rep: "represents (e_book e') A'" by auto
  from a show ?thesis
  proof (cases rule: a_add_order_cases)
    case (matched fs left st Q)
    with r rep show ?thesis by (intro exI [of _ left] exI [of _ A']) auto
  next
    case (rested fs left Q A1)
    with r rep show ?thesis by (intro exI [of _ left] exI [of _ A']) auto
  qed (use r in auto)
qed

theorem fills_price_time_witness:
  "\<exists>(e :: matching_engine) res e' left A'. represents (e_book e) sample_book \<and> add_order e taker_bid = Some (Inr res, e') \<and>
     r_fills res = [takes 3 5 resting_ask] \<and> represents (e_book e') A' \<and>
     match_outcome taker_bid (sample_book Ask) (r_fills res) left (r_status res = CancelledSelfTrade) (A' Ask) \<and>
     unat (o_quantity taker_bid) = filled (r_fills res) + unat left"
proof -
  obtain e :: matching_engine where e: "represents (e_book e) sample_book" "capacity_of (e_book e) = 4"
    by (rule sample_engine)
  obtain e' where e': "add_order e taker_bid =
      Some (Inr \<lparr>r_order_id = 3, r_status = PartiallyFilled, r_fills = [takes 3 5 resting_ask]\<rparr>, e')"
    using sample_add_order [OF e] by blast
  have opp: "opposite (o_side taker_bid) = Ask" by (simp add: sample_defs)
  have "r_fills \<lparr>r_order_id = 3, r_status = PartiallyFilled, r_fills = [takes 3 5 resting_ask]\<rparr> = [takes 3 5 resting_ask]"
    by simp
  with fills_price_time [OF e(1) e', unfolded opp] e(1) e' show ?thesis by blast
qed

text \<open>
  C4. Quantity is conserved. The fills remove from the opposite side exactly the quantity they
  report; of the incoming quantity, what is filled and what comes to rest on its own side add up,
  except that an order cancelled for self-trade leaves its rest nowhere.
\<close>

theorem quantity_conserved:
  assumes "represents (e_book e) A" and "add_order e ord = Some (Inr res, e')"
  shows "\<exists>A'. represents (e_book e') A' \<and>
    volume (A (opposite (o_side ord))) = filled (r_fills res) + volume (A' (opposite (o_side ord))) \<and>
    (if r_status res = CancelledSelfTrade
     then volume (A' (o_side ord)) = volume (A (o_side ord)) \<and> filled (r_fills res) < unat (o_quantity ord)
     else volume (A' (o_side ord)) + filled (r_fills res) = volume (A (o_side ord)) + unat (o_quantity ord))"
proof -
  have vol: "volume (enqueue x Q) = unat (o_quantity x) + volume Q" for x Q
    using arg_cong [OF mset_enqueue [of x Q], of "\<lambda>M. \<Sum>y\<in>#M. unat (o_quantity y)"]
    by (simp add: volume_def flip: sum_mset_sum_list)
  have left: "left \<noteq> 0" if "match_outcome t Q fs left True Q'" for t Q fs left Q'
    using that by cases auto
  obtain r A' where a: "a_add_order (capacity_of (e_book e)) A ord = (r, A')" by fastforce
  with add_order_refines [OF assms(1) a] assms(2) have r: "r = Inr res" and rep: "represents (e_book e') A'" by auto
  from a show ?thesis
  proof (cases rule: a_add_order_cases)
    case (matched fs left st Q)
    have "0 < unat left" if st using left matched(1) that by (simp add: unat_gt_0 word_gt_0)
    with matched r rep match_outcome_volume [OF matched(1)] show ?thesis by (intro exI [of _ A']) auto
  next
    case (rested fs left Q A1)
    with r rep match_outcome_volume [OF rested(1)] show ?thesis
      by (intro exI [of _ A']) (auto simp: vol split: if_splits)
  qed (use r in auto)
qed

theorem quantity_conserved_witness:
  "\<exists>(e :: matching_engine) res e' A'. represents (e_book e) sample_book \<and> add_order e taker_bid = Some (Inr res, e') \<and>
     represents (e_book e') A' \<and> volume (sample_book Ask) = 5 \<and> filled (r_fills res) = 5 \<and> volume (A' Ask) = 0 \<and>
     volume (A' Bid) + 5 = volume (sample_book Bid) + 8"
proof -
  obtain e :: matching_engine where e: "represents (e_book e) sample_book" "capacity_of (e_book e) = 4"
    by (rule sample_engine)
  obtain e' where e': "add_order e taker_bid =
      Some (Inr \<lparr>r_order_id = 3, r_status = PartiallyFilled, r_fills = [takes 3 5 resting_ask]\<rparr>, e')"
    using sample_add_order [OF e] by blast
  have "opposite (o_side taker_bid) = Ask" "o_side taker_bid = Bid" "o_quantity taker_bid = 8" "volume (sample_book Ask) = 5"
    by (simp_all add: sample_defs sample_book_def)
  with quantity_conserved [OF e(1) e'] e(1) e' show ?thesis by (auto intro!: exI [of _ e])
qed

text \<open>
  C10. \<open>cancel_order\<close> implements the abstract cancellation: an unknown id is \<open>OrderNotFound\<close> and changes
  nothing; a known one removes that order and no other from its side, wherever it stands in its
  queue, and returns it.
\<close>

theorem cancel_order_implements:
  assumes "represents (e_book e) A"
  shows "\<exists>e'. engine_cancel_order e d = Some (fst (a_cancel_order A d), e') \<and>
    represents (e_book e') (snd (a_cancel_order A d)) \<and> capacity_of (e_book e') = capacity_of (e_book e)"
  using cancel_order_refines [OF assms] by (metis prod.collapse)

theorem cancel_order_implements_witness:
  "\<exists>e e' :: matching_engine. represents (e_book e) sample_book \<and> engine_cancel_order e 1 = Some (Inr resting_ask, e') \<and>
     represents (e_book e') (sample_book(Ask := []))"
proof -
  obtain e :: matching_engine where e: "represents (e_book e) sample_book" by (rule sample_engine)
  have "a_cancel_order sample_book 1 = (Inr resting_ask, sample_book(Ask := []))"
    by (simp add: a_cancel_order_def resting_def) (simp add: sample_defs)
  with cancel_order_implements [OF e, of 1] e show ?thesis by auto
qed

text \<open>
  C26. An order refused for a zero quantity or because the arena is full leaves the resting orders
  as they were; apart from the duplicate id there is no other error.
\<close>

theorem refused_order_changes_nothing:
  assumes "represents (e_book e) A" and "add_order e ord = Some (Inl err, e')"
    and "err \<noteq> BookError (DuplicateOrderId (o_id ord))"
  shows "represents (e_book e') A \<and> (err = ZeroQuantity \<or> err = BookError ArenaFull)"
proof -
  obtain r A' where a: "a_add_order (capacity_of (e_book e)) A ord = (r, A')" by fastforce
  with add_order_refines [OF assms(1) a] assms(2) have r: "r = Inl err" and rep: "represents (e_book e') A'" by auto
  from a show ?thesis
  proof (cases rule: a_add_order_cases)
    case zero
    with r rep show ?thesis by simp
  next
    case (full fs left Q)
    with a_add_order_length [OF a insert_represents(4) [OF assms(1)]] r rep show ?thesis by simp
  qed (use r assms(3) in auto)
qed

theorem refused_order_changes_nothing_witness:
  "\<exists>e e' :: matching_engine. represents (e_book e) (\<lambda>_. []) \<and>
     add_order e taker_bid = Some (Inl (BookError ArenaFull), e') \<and> represents (e_book e') (\<lambda>_. [])"
proof -
  let ?e = "engine_with_capacity 0"
  have e: "represents (e_book ?e) (\<lambda>_. [])" "capacity_of (e_book ?e) = 0" using engine_new_represents [of 0] by simp_all
  have a: "a_add_order 0 (\<lambda>_. []) taker_bid = (Inl (BookError ArenaFull), (\<lambda>_. [])(Ask := []))"
    by (simp add: a_add_order_def sample_defs ids_def resting_def Let_def)
  obtain e' where "add_order ?e taker_bid = Some (Inl (BookError ArenaFull), e')"
    using add_order_refines [OF e(1), of taker_bid] e(2) a by auto
  with refused_order_changes_nothing [OF e(1) this] e(1) show ?thesis by auto
qed

text \<open>
  C27. The duplicate id is found only after the matching. Here the order 2 is resting, and a new
  order with the id 2 first fills the whole of the ask 1 and is then refused: the call returns
  an error and no fill, and yet the ask is gone from the book.
\<close>

theorem duplicate_after_fills:
  "\<exists>e e' :: matching_engine. run_commands (engine_with_capacity 4) sample_commands = Some e \<and>
     represents (e_book e) sample_book \<and>
     add_order e (taker_bid\<lparr>o_id := 2\<rparr>) = Some (Inl (BookError (DuplicateOrderId 2)), e') \<and>
     represents (e_book e') (sample_book(Ask := []))"
proof -
  obtain e where e: "run_commands (engine_with_capacity 4) sample_commands = Some e"
    "represents (e_book e) sample_book" "capacity_of (e_book e) = 4"
    using run_commands_refines [OF engine_new_represents(1) [of 4], of sample_commands]
      engine_new_represents(2) [of 4] sample_run by auto
  have "a_add_order 4 sample_book (taker_bid\<lparr>o_id := 2\<rparr>) =
      (Inl (BookError (DuplicateOrderId 2)), sample_book(Ask := []))"
    by (simp add: a_add_order_def sample_defs Let_def ids_def resting_def less_eq_i64_def i64_val_def)
  with add_order_refines [OF e(2), of "taker_bid\<lparr>o_id := 2\<rparr>"] e show ?thesis by auto
qed

text \<open>A fill against a resting order of some quantity is for more than nothing.\<close>

lemma outcome_positive:
  assumes "match_outcome t Q fs left st Q'" and "\<forall>m \<in> set Q. o_quantity m \<noteq> 0" and "f \<in> set fs"
  shows "f_quantity f \<noteq> 0"
  using assms by cases (auto simp: fillable_def word_gt_0)

lemma outcome_filled:
  assumes "match_outcome t Q fs left st Q'" and "fs \<noteq> []" and "\<forall>m \<in> set Q. o_quantity m \<noteq> 0"
  shows "0 < filled fs"
proof -
  obtain f where f: "f \<in> set fs" using assms(2) by (cases fs) auto
  then have "unat (f_quantity f) \<noteq> 0" using outcome_positive [OF assms(1,3)] by (simp add: unsigned_eq_0_iff)
  moreover have "unat (f_quantity f) \<le> filled fs" using f unfolding filled_def by (intro member_le_sum_list) auto
  ultimately show ?thesis by linarith
qed

text \<open>
  C28. What the status says. \<open>FullyFilled\<close>: the fills make up the order and its own side is as it was.
  \<open>CancelledSelfTrade\<close>: its own side is as it was and the next order opposite is of the same trader
  and crosses. \<open>Resting\<close>: no fill, and the order queues whole behind its price. \<open>PartiallyFilled\<close>:
  some fill, and what the fills leave of the order, which is not zero, queues behind its price; it is
  less than the order where no resting order opposite has quantity zero, as in every book that commands
  lead to.
\<close>

theorem order_status_meaning:
  assumes "represents (e_book e) A" and "add_order e ord = Some (Inr res, e')"
  shows "r_order_id res = o_id ord \<and> (\<exists>A'. represents (e_book e') A' \<and>
    (case r_status res of
       FullyFilled \<Rightarrow> filled (r_fills res) = unat (o_quantity ord) \<and> A' (o_side ord) = A (o_side ord)
     | CancelledSelfTrade \<Rightarrow> A' (o_side ord) = A (o_side ord) \<and>
         (\<exists>m Q. A' (opposite (o_side ord)) = m # Q \<and> o_trader_id m = o_trader_id ord \<and>
            crosses (o_side ord) (o_price m) (o_price ord))
     | Resting \<Rightarrow> r_fills res = [] \<and> A' (opposite (o_side ord)) = A (opposite (o_side ord)) \<and>
         A' (o_side ord) = enqueue ord (A (o_side ord))
     | PartiallyFilled \<Rightarrow> r_fills res \<noteq> [] \<and>
         (\<exists>left. left \<noteq> 0 \<and> unat (o_quantity ord) = filled (r_fills res) + unat left \<and>
            A' (o_side ord) = enqueue (ord\<lparr>o_quantity := left\<rparr>) (A (o_side ord)) \<and>
            ((\<forall>m \<in> set (A (opposite (o_side ord))). o_quantity m \<noteq> 0) \<longrightarrow> left < o_quantity ord))))"
proof -
  obtain r A' where a: "a_add_order (capacity_of (e_book e)) A ord = (r, A')" by fastforce
  with add_order_refines [OF assms(1) a] assms(2) have r: "r = Inr res" and rep: "represents (e_book e') A'" by auto
  have self: "\<exists>m R. Q' = m # R \<and> o_trader_id m = o_trader_id t \<and> crosses (o_side t) (o_price m) (o_price t)"
    if "match_outcome t Q fs left True Q'" for t Q fs left Q'
    using that by cases (auto simp: neq_Nil_conv)
  from a show ?thesis
  proof (cases rule: a_add_order_cases)
    case (matched fs left st Q)
    with r rep self [of ord "A (opposite (o_side ord))" fs left Q] show ?thesis by (cases st) auto
  next
    case (rested fs left Q A1)
    have "ord\<lparr>o_quantity := left\<rparr> = ord \<and> Q = A (opposite (o_side ord))" if "fs = []"
    proof -
      have "left = o_quantity ord" using rested(2) that by (simp add: word_unat_eq_iff)
      with match_outcome_none rested(1) that show ?thesis by auto
    qed
    moreover have "left < o_quantity ord"
      if "fs \<noteq> []" "\<forall>m \<in> set (A (opposite (o_side ord))). o_quantity m \<noteq> 0"
      using outcome_filled [OF rested(1) that] rested(2) by (simp add: word_less_nat_alt)
    ultimately show ?thesis using rested r rep by (cases "fs = []") (auto intro!: exI [of _ A'] exI [of _ left])
  qed (use r in auto)
qed

theorem order_status_meaning_witness:
  "\<exists>(e :: matching_engine) res e'. represents (e_book e) sample_book \<and> add_order e taker_bid = Some (Inr res, e') \<and>
     r_status res = PartiallyFilled \<and> (\<exists>left A'. represents (e_book e') A' \<and> left \<noteq> 0 \<and> left < 8 \<and>
       8 = filled (r_fills res) + unat left \<and> A' Bid = enqueue (taker_bid\<lparr>o_quantity := left\<rparr>) [resting_bid])"
proof -
  obtain e :: matching_engine where e: "represents (e_book e) sample_book" "capacity_of (e_book e) = 4"
    by (rule sample_engine)
  obtain e' where e': "add_order e taker_bid =
      Some (Inr \<lparr>r_order_id = 3, r_status = PartiallyFilled, r_fills = [takes 3 5 resting_ask]\<rparr>, e')"
    using sample_add_order [OF e] by blast
  have t: "o_side taker_bid = Bid" "o_quantity taker_bid = 8" "o_quantity resting_ask = 5" by (simp_all add: sample_defs)
  from order_status_meaning [OF e(1) e', unfolded t(1,2)] have "\<exists>left A'. represents (e_book e') A' \<and> left \<noteq> 0 \<and> left < 8 \<and>
      8 = filled [takes 3 5 resting_ask] + unat left \<and> A' Bid = enqueue (taker_bid\<lparr>o_quantity := left\<rparr>) [resting_bid]"
    using t(3) by auto
  then show ?thesis
    using e(1) e' by (intro exI [of _ e] exI [of _ e']
      exI [of _ "\<lparr>r_order_id = 3, r_status = PartiallyFilled, r_fills = [takes 3 5 resting_ask]\<rparr>"]) simp
qed

text \<open>
  C29. No fill breaks the limit or trades a trader with itself: every fill of an accepted order is
  against an order that was resting on the opposite side, at that order's price, which crosses
  the limit of the taker, of another trader, for at most its quantity; and it is for more
  than nothing, since no order of quantity zero rests.
\<close>

theorem fills_within_limit:
  assumes "represents (e_book e) A" and "positive A" and "add_order e ord = Some (Inr res, e')"
    and "f \<in> set (r_fills res)"
  shows "\<exists>m \<in> set (A (opposite (o_side ord))). f_taker_order_id f = o_id ord \<and> f_maker_order_id f = o_id m \<and>
    f_price f = o_price m \<and> crosses (o_side ord) (o_price m) (o_price ord) \<and> o_trader_id m \<noteq> o_trader_id ord \<and>
    0 < f_quantity f \<and> f_quantity f \<le> o_quantity m \<and> (f_maker_fully_filled f \<longleftrightarrow> f_quantity f = o_quantity m)"
proof -
  obtain r A' where a: "a_add_order (capacity_of (e_book e)) A ord = (r, A')" by fastforce
  with add_order_refines [OF assms(1) a] assms(3) have r: "r = Inr res" by auto
  have pos: "o_quantity m \<noteq> 0" if "m \<in> set (A (opposite (o_side ord)))" for m
    using that assms(2) by (auto simp: positive_def set_resting [of A "o_side ord"])
  have "\<exists>left st Q. match_outcome ord (A (opposite (o_side ord))) (r_fills res) left st Q"
    using a by (cases rule: a_add_order_cases) (use r in auto)
  then obtain left st Q where "match_outcome ord (A (opposite (o_side ord))) (r_fills res) left st Q" by blast
  then show ?thesis
    using assms(4) pos by cases (auto simp: fillable_def word_gt_0)
qed

theorem fills_within_limit_witness:
  "\<exists>(e :: matching_engine) res e' f. represents (e_book e) sample_book \<and> positive sample_book \<and>
     add_order e taker_bid = Some (Inr res, e') \<and> f \<in> set (r_fills res) \<and>
     (\<exists>m \<in> set (sample_book Ask). f_maker_order_id f = o_id m \<and> f_price f = o_price m \<and> 0 < f_quantity f \<and>
        f_quantity f \<le> o_quantity m)"
proof -
  obtain e :: matching_engine where e: "represents (e_book e) sample_book" "capacity_of (e_book e) = 4"
    by (rule sample_engine)
  let ?r = "\<lparr>r_order_id = 3, r_status = PartiallyFilled, r_fills = [takes 3 5 resting_ask]\<rparr>"
  obtain e' where e': "add_order e taker_bid = Some (Inr ?r, e')"
    using sample_add_order [OF e] by blast
  have p: "positive sample_book" by (simp add: positive_def resting_def) (simp add: sample_defs)
  have f: "takes 3 5 resting_ask \<in> set (r_fills ?r)" by simp
  have "opposite (o_side taker_bid) = Ask" by (simp add: sample_defs)
  with fills_within_limit [OF e(1) p e' f] e(1) p e' f show ?thesis by metis
qed

section \<open>The book\<close>

text \<open>
  C30. \<open>insert_order\<close> on every branch: a duplicate id and a full arena are refused and leave the book
  as it is; otherwise the order queues behind every order of its price.
\<close>

theorem insert_order_branches:
  assumes "represents b A"
  shows "if o_id ord \<in> set (ids A) then insert_order b ord = Some (Inl (DuplicateOrderId (o_id ord)), b)
    else if length (resting A) = capacity_of b then insert_order b ord = Some (Inl ArenaFull, b)
    else \<exists>b'. insert_order b ord = Some (Inr (), b') \<and> capacity_of b' = capacity_of b \<and>
      represents b' (A(o_side ord := enqueue ord (A (o_side ord))))"
  using insert_represents(1-3) [OF assms, of ord] insert_represents(4) [OF assms] by (auto simp: order_le_less)

theorem insert_order_branches_witness:
  "\<exists>b. represents b sample_book \<and> insert_order b resting_ask = Some (Inl (DuplicateOrderId 1), b) \<and>
     (\<exists>b'. insert_order b taker_bid = Some (Inr (), b') \<and>
        represents b' (sample_book(Bid := [taker_bid, resting_bid])))"
proof -
  obtain e :: matching_engine where e: "represents (e_book e) sample_book" "capacity_of (e_book e) = 4"
    by (rule sample_engine)
  have "enqueue taker_bid [resting_bid] = [taker_bid, resting_bid]"
    by (simp add: enqueue_def sample_defs i64_val_def)
  moreover have "ids sample_book = [1, 2]" "length (resting sample_book) = 2"
    by (simp_all add: ids_def resting_def sample_defs)
  moreover have "o_id resting_ask = 1" "o_id taker_bid = 3" "o_side taker_bid = Bid" by (simp_all add: sample_defs)
  ultimately show ?thesis
    using insert_order_branches [OF e(1), of resting_ask] insert_order_branches [OF e(1), of taker_bid] e
    by (intro exI [of _ "e_book e"]) auto
qed

text \<open>
  C31. \<open>reduce_front_quantity\<close> on every branch: without an order at the price, or for more than the
  oldest one there has, it is refused and changes nothing; otherwise the oldest order at the price
  loses the quantity, and leaves the book when nothing remains.
\<close>

theorem reduce_front_branches:
  assumes "represents b A"
  shows "case at_price p (A s) of
      [] \<Rightarrow> reduce_front_quantity b s p q = Some (Inl (PriceLevelNotFound p), b)
    | x # _ \<Rightarrow>
        (if o_quantity x < q
         then reduce_front_quantity b s p q = Some (Inl (FillExceedsQuantity (o_quantity x) q), b)
         else \<exists>b'. reduce_front_quantity b s p q = Some (Inr (o_quantity x - q), b') \<and>
           represents b' (A(s := fill_first p q (A s))))"
proof (cases "at_price p (A s)")
  case Nil
  then show ?thesis using reduce_represents(1) [OF assms] by simp
next
  case (Cons x xs)
  then show ?thesis using reduce_represents(2,3) [OF assms Cons, of q] by (auto simp: not_less)
qed

theorem reduce_front_branches_witness:
  "\<exists>b b'. represents b sample_book \<and> reduce_front_quantity b Ask (I64 100) 2 = Some (Inr 3, b') \<and>
     represents b' (sample_book(Ask := [resting_ask\<lparr>o_quantity := 3\<rparr>])) \<and>
     reduce_front_quantity b Ask (I64 99) 2 = Some (Inl (PriceLevelNotFound (I64 99)), b)"
proof -
  obtain e :: matching_engine where e: "represents (e_book e) sample_book" by (rule sample_engine)
  have "at_price (I64 100) (sample_book Ask) = [resting_ask]" "at_price (I64 99) (sample_book Ask) = []"
    "o_quantity resting_ask = 5" "o_price resting_ask = I64 100" by (simp_all add: sample_defs)
  with reduce_front_branches [OF e, where p = "I64 100" and s = Ask and q = 2]
    reduce_front_branches [OF e, where p = "I64 99" and s = Ask and q = 2] e
  show ?thesis by auto
qed

text \<open>
  C32. What the book reports is what rests in it: the best prices are those of the first orders of
  the two sides, \<open>peek_front\<close> is the oldest order at a price, the count is the number of resting
  orders, and \<open>all_resting_orders\<close> returns (its walks along the links end) and lists the asks
  and then the bids, each side in priority order.
\<close>

theorem book_reports:
  assumes "represents b A"
  shows "best_bid b = best_price (A Bid) \<and> best_ask b = best_price (A Ask) \<and>
    order_count b = length (A Ask) + length (A Bid) \<and> all_resting_orders b = Some (A Ask @ A Bid) \<and>
    (\<exists>n. peek_front b s p = Some n \<and>
       map_option to_order n = (case at_price p (A s) of [] \<Rightarrow> None | x # _ \<Rightarrow> Some x))"
  using best_represents [OF assms, of Bid] best_represents [OF assms, of Ask] represents_count [OF assms]
    all_resting_orders_view [OF assms] peek_represents [OF assms, of s p] by (auto simp: resting_def)

theorem book_reports_witness:
  "\<exists>b. represents b sample_book \<and> best_bid b = Some (I64 90) \<and> best_ask b = Some (I64 100) \<and> order_count b = 2 \<and>
     all_resting_orders b = Some [resting_ask, resting_bid]"
proof -
  obtain e :: matching_engine where e: "represents (e_book e) sample_book" by (rule sample_engine)
  have "o_price resting_ask = I64 100" "o_price resting_bid = I64 90" by (simp_all add: sample_defs)
  with book_reports [OF e] e show ?thesis by (intro exI [of _ "e_book e"]) (simp add: best_price_def)
qed

text \<open>
  C34. The counters of the price levels and of the arena stay right. After every sequence of new orders
  and cancellations on a fresh engine, each price level carries the number and the total of the
  orders resting at its price, the total modulo the width of its word (it wraps where clients rest
  more than that); a price without orders has no level; and the arena counts as many slots in use
  as the index has ids, which is what the debug assertions of the book check.
\<close>

theorem level_totals:
  "\<exists>e. run_commands (engine_with_capacity c) cs = Some e \<and>
     (\<forall>s p. case bt_get (levels_of (e_book e) s) p of
        None \<Rightarrow> at_price p (a_run (unat c) (\<lambda>_. []) cs s) = []
      | Some l \<Rightarrow> at_price p (a_run (unat c) (\<lambda>_. []) cs s) \<noteq> [] \<and>
          unat (l_count l) = length (at_price p (a_run (unat c) (\<lambda>_. []) cs s)) \<and>
          unat (l_qty l) = (\<Sum>x\<leftarrow>at_price p (a_run (unat c) (\<lambda>_. []) cs s). unat (o_quantity x)) mod 2 ^ 64) \<and>
     unat (a_count (b_arena (e_book e))) = order_count (e_book e)"
proof -
  obtain e where e: "run_commands (engine_with_capacity c) cs = Some e"
    "represents (e_book e) (a_run (unat c) (\<lambda>_. []) cs)"
    using run_commands_refines [OF engine_new_represents(1) [of c]] engine_new_represents(2) [of c] by auto
  with level_totals_represents [OF e(2)] show ?thesis by blast
qed

lemma huge_run: "a_run 4 (\<lambda>_. []) [NewOrder (huge_ask 1), NewOrder (huge_ask 2)] = (\<lambda>_. [])(Ask := [huge_ask 1, huge_ask 2])"
  by (rule ext, case_tac x)
    (simp_all add: huge_ask_def sample_order_def a_add_order_def Let_def ids_def resting_def enqueue_def i64_val_def)

text \<open>Two orders of half the range each: the total of their level reads zero.\<close>

theorem level_totals_witness:
  "\<exists>e l. run_commands (engine_with_capacity 4) [NewOrder (huge_ask 1), NewOrder (huge_ask 2)] = Some e \<and>
     bt_get (levels_of (e_book e) Ask) (I64 100) = Some l \<and> unat (l_count l) = 2 \<and> unat (l_qty l) = 0"
proof -
  have q: "at_price (I64 100) [huge_ask 1, huge_ask 2] = [huge_ask 1, huge_ask 2]"
    "unat (o_quantity (huge_ask 1)) = 2 ^ 63" "unat (o_quantity (huge_ask 2)) = 2 ^ 63"
    by (simp_all add: huge_ask_def sample_order_def)
  have u: "unat (4 :: u32) = 4" by simp
  obtain e where e: "run_commands (engine_with_capacity 4) [NewOrder (huge_ask 1), NewOrder (huge_ask 2)] = Some e"
    and all: "\<forall>s p. case bt_get (levels_of (e_book e) s) p of
        None \<Rightarrow> at_price p (((\<lambda>_. [])(Ask := [huge_ask 1, huge_ask 2])) s) = []
      | Some l \<Rightarrow> at_price p (((\<lambda>_. [])(Ask := [huge_ask 1, huge_ask 2])) s) \<noteq> [] \<and>
          unat (l_count l) = length (at_price p (((\<lambda>_. [])(Ask := [huge_ask 1, huge_ask 2])) s)) \<and>
          unat (l_qty l) = (\<Sum>x\<leftarrow>at_price p (((\<lambda>_. [])(Ask := [huge_ask 1, huge_ask 2])) s). unat (o_quantity x)) mod 2 ^ 64"
    using level_totals [of 4 "[NewOrder (huge_ask 1), NewOrder (huge_ask 2)]"] unfolding u huge_run by blast
  from spec [OF spec [OF all, of Ask], of "I64 100"] e q show ?thesis by (auto split: option.splits)
qed

text \<open>
  \<open>restore_from_orders\<close> returns for every list of orders. It succeeds exactly when the ids are
  distinct and there is room, and then the book holds these orders, each queued behind the
  earlier ones of its price.
\<close>

theorem restore_from_orders_total:
  "if distinct (map o_id os) \<and> length os \<le> unat c
   then \<exists>e. restore_from_orders os c = Some (Inr e) \<and> represents (e_book e) (foldl rest_order (\<lambda>_. []) os)
   else \<exists>err. restore_from_orders os c = Some (Inl err)"
  using restore_refines [of os c] by (auto split: if_splits)

section \<open>The arena\<close>

text \<open>
  C33. The arena hands out a free slot, or \<open>Full\<close> exactly when none is free. The slot then holds the
  order and every other slot is as before; giving it back makes it the next one handed out.
\<close>

theorem arena_alloc_dealloc:
  assumes "free_ok a fs"
  shows "case fs of
      [] \<Rightarrow> alloc a ord = Some (Inl Full, a)
    | i # fs' \<Rightarrow> (\<exists>a' a''. alloc a ord = Some (Inr i, a') \<and> free_ok a' fs' \<and> get a' i = Some (from_order ord) \<and>
        touches {i} (a_storage a) (a_storage a') \<and> dealloc a' i = Some a'' \<and> free_ok a'' (i # fs') \<and>
        a_count a'' = a_count a)"
proof (cases fs)
  case Nil
  then show ?thesis using alloc_full assms by simp
next
  case (Cons i fs')
  note f = assms [unfolded Cons]
  let ?a = "a\<lparr>a_free_head := hdn fs' ARENA_NULL,
    a_storage := (a_storage a)[unat i := from_order ord], a_count := a_count a + 1\<rparr>"
  have i: "unat i < length (a_storage ?a)" "i \<notin> set fs'"
    using alloc_ok(3) [OF f] free_okD(1) [OF f] by auto
  obtain st' where "dealloc ?a i = Some (?a\<lparr>a_storage := st', a_free_head := i, a_count := a_count ?a - 1\<rparr>)"
    "free_ok (?a\<lparr>a_storage := st', a_free_head := i, a_count := a_count ?a - 1\<rparr>) (i # fs')"
    using dealloc_ok [OF alloc_ok(2) [OF f] i] by blast
  with alloc_ok(1,2) [OF f, of ord] i show ?thesis
    unfolding Cons by (auto simp: get_def touches_def node_at_update)
qed

theorem arena_alloc_dealloc_witness:
  "free_ok (arena_new 2) [0, 1] \<and> (\<exists>a' a''. alloc (arena_new 2) taker_bid = Some (Inr 0, a') \<and> free_ok a' [1] \<and>
     get a' 0 = Some (from_order taker_bid) \<and> dealloc a' 0 = Some a'' \<and> free_ok a'' [0, 1])"
proof -
  have "free_ok (arena_new 2) [0, 1]" using arena_new_ok [of 2] by (simp add: upt_rec)
  with arena_alloc_dealloc [OF this, of taker_bid] show ?thesis by auto
qed

text \<open>
  C35. A price level is a queue, also when it is empty. \<open>push_back\<close> adds a slot at its end, \<open>remove\<close> takes
  one out wherever it stands, and \<open>pop_front\<close> takes its first, or nothing from an empty level; the
  links, the count and the total quantity (modulo the word size) stay those of the queue, and only
  links change in the arena, and only those of the slots of the level: no order does.
\<close>

theorem level_is_queue:
  assumes "level_ok (a_storage a) level xs" and "length (a_storage a) < 2 ^ 32"
  shows "(unat j < length (a_storage a) \<and> j \<notin> set xs \<longrightarrow>
      (\<exists>st' l'. push_back a level j = Some (a\<lparr>a_storage := st'\<rparr>, l') \<and> level_ok st' l' (xs @ [j]) \<and>
        relinks (insert j (set xs)) (a_storage a) st')) \<and>
    (xs = us @ i # vs \<longrightarrow>
      (\<exists>st' l'. remove a level i = Some (a\<lparr>a_storage := st'\<rparr>, l') \<and> level_ok st' l' (us @ vs) \<and>
        relinks (set (us @ vs)) (a_storage a) st')) \<and>
    (case xs of
       [] \<Rightarrow> pop_front a level = Some (None, a, level)
     | x # ys \<Rightarrow> (\<exists>st' l'. pop_front a level = Some (Some x, a\<lparr>a_storage := st'\<rparr>, l') \<and> level_ok st' l' ys \<and>
         relinks (set ys) (a_storage a) st'))"
proof (intro conjI impI)
  assume j: "unat j < length (a_storage a) \<and> j \<notin> set xs"
  then show "\<exists>st' l'. push_back a level j = Some (a\<lparr>a_storage := st'\<rparr>, l') \<and> level_ok st' l' (xs @ [j]) \<and>
      relinks (insert j (set xs)) (a_storage a) st'"
    using push_back_ok [OF assms(1) _ _ assms(2), of j] by blast
next
  assume "xs = us @ i # vs"
  then show "\<exists>st' l'. remove a level i = Some (a\<lparr>a_storage := st'\<rparr>, l') \<and> level_ok st' l' (us @ vs) \<and>
      relinks (set (us @ vs)) (a_storage a) st'"
    using remove_ok [OF _ assms(2)] assms(1) by blast
next
  show "case xs of [] \<Rightarrow> pop_front a level = Some (None, a, level)
     | x # ys \<Rightarrow> (\<exists>st' l'. pop_front a level = Some (Some x, a\<lparr>a_storage := st'\<rparr>, l') \<and> level_ok st' l' ys \<and>
         relinks (set ys) (a_storage a) st')"
    using pop_front_empty [of "a_storage a" level a] pop_front_ok [OF _ assms(2), of level] assms(1)
    by (cases xs) (simp, fastforce)
qed

text \<open>An empty level takes its first slot, and a level of two gives one back.\<close>

theorem level_is_queue_witness:
  "(\<exists>st' l'. push_back sample_arena price_level_new 2 = Some (sample_arena\<lparr>a_storage := st'\<rparr>, l') \<and> level_ok st' l' [2]) \<and>
   (\<exists>st' l'. remove sample_arena sample_level 1 = Some (sample_arena\<lparr>a_storage := st'\<rparr>, l') \<and> level_ok st' l' [0]) \<and>
   (\<exists>st' l'. pop_front sample_arena sample_level = Some (Some 0, sample_arena\<lparr>a_storage := st'\<rparr>, l') \<and> level_ok st' l' [1])"
proof -
  have l: "level_ok (a_storage sample_arena) sample_level [0, 1]" "level_ok (a_storage sample_arena) price_level_new []"
    by (simp_all add: level_ok_def sample_arena_def sample_level_def price_level_new_def hdn_def lastp_def sample_defs from_order_def)
  have b: "length (a_storage sample_arena) < 2 ^ 32" "unat (2 :: u32) < length (a_storage sample_arena)"
    by (simp_all add: sample_arena_def)
  show ?thesis
    using level_is_queue [OF l(2) b(1), of 2] level_is_queue [OF l(1) b(1), of _ "[0]" 1 "[]"] b(2) by fastforce
qed

end
