(* ===== verification/Ring.thy ===== *)
theory Ring
  imports Prelude
begin

text \<open>
  \<open>src/src/ring.rs\<close>: the lock-free single-producer single-consumer ring. The cursors are wrapping
  machine words, a slot is \<open>None\<close> while it holds no initialised value (\<open>MaybeUninit\<close>), and reading
  or dropping an uninitialised slot (undefined behaviour) is \<open>None\<close>, like a panic. \<open>push\<close>, \<open>pop\<close>
  and \<open>drop\<close> are the methods run without interference. The section on interleavings runs the
  same pieces as separate steps of two threads, where an acquire load may return any value of the
  other cursor that is not older than the last one this thread saw. Cache padding has no effect on
  values and is left out.
\<close>

section \<open>Data\<close>

record 'a ring_buffer_inner =
  r_buffer :: "'a option list"
  r_capacity :: usize
  r_mask :: usize
  r_head :: usize
  r_tail :: usize

record producer =
  p_cached_head :: usize
  p_cached_tail :: usize

record consumer =
  c_cached_tail :: usize
  c_cached_head :: usize

section \<open>The pieces of the methods\<close>

text \<open>\<open>head.wrapping_sub(self.cached_tail) == self.inner.capacity\<close> and \<open>tail == self.cached_head\<close>.\<close>

definition looks_full :: "'a ring_buffer_inner \<Rightarrow> producer \<Rightarrow> bool" where
  "looks_full r p \<longleftrightarrow> p_cached_head p - p_cached_tail p = r_capacity r"

definition looks_empty :: "consumer \<Rightarrow> bool" where
  "looks_empty c \<longleftrightarrow> c_cached_tail c = c_cached_head c"

text \<open>\<open>(*self.inner.buffer[head & self.inner.mask].get()).write(value)\<close>\<close>

definition write_slot :: "'a ring_buffer_inner \<Rightarrow> usize \<Rightarrow> 'a \<Rightarrow> 'a ring_buffer_inner option" where
  "write_slot r head value = do {
     buffer \<leftarrow> vec_set (r_buffer r) (unat (head AND r_mask r)) (Some value);
     Some (r\<lparr>r_buffer := buffer\<rparr>)
   }"

text \<open>\<open>assume_init_read\<close> and \<open>assume_init_drop\<close>: the value leaves the slot.\<close>

definition take_slot :: "'a ring_buffer_inner \<Rightarrow> usize \<Rightarrow> ('a \<times> 'a ring_buffer_inner) option" where
  "take_slot r tail = do {
     slot \<leftarrow> vec_get (r_buffer r) (unat (tail AND r_mask r));
     value \<leftarrow> slot;
     buffer \<leftarrow> vec_set (r_buffer r) (unat (tail AND r_mask r)) None;
     Some (value, r\<lparr>r_buffer := buffer\<rparr>)
   }"

definition publish_head :: "'a ring_buffer_inner \<Rightarrow> producer \<Rightarrow> 'a ring_buffer_inner \<times> producer" where
  "publish_head r p = (r\<lparr>r_head := p_cached_head p + 1\<rparr>, p\<lparr>p_cached_head := p_cached_head p + 1\<rparr>)"

definition publish_tail :: "'a ring_buffer_inner \<Rightarrow> consumer \<Rightarrow> 'a ring_buffer_inner \<times> consumer" where
  "publish_tail r c = (r\<lparr>r_tail := c_cached_tail c + 1\<rparr>, c\<lparr>c_cached_tail := c_cached_tail c + 1\<rparr>)"

section \<open>The methods\<close>

definition is_power_of_two :: "usize \<Rightarrow> bool" where
  "is_power_of_two w \<longleftrightarrow> (\<exists>k \<in> set [0..<64]. w = 2 ^ k)"

definition ring_buffer :: "usize \<Rightarrow> ('a ring_buffer_inner \<times> producer \<times> consumer) option" where
  "ring_buffer capacity =
     (if capacity > 0 \<and> is_power_of_two capacity
      then Some (\<lparr>r_buffer = replicate (unat capacity) None, r_capacity = capacity, r_mask = capacity - 1,
                  r_head = 0, r_tail = 0\<rparr>,
                 \<lparr>p_cached_head = 0, p_cached_tail = 0\<rparr>,
                 \<lparr>c_cached_tail = 0, c_cached_head = 0\<rparr>)
      else None)"

definition push ::
  "'a ring_buffer_inner \<Rightarrow> producer \<Rightarrow> 'a \<Rightarrow> (('a + unit) \<times> 'a ring_buffer_inner \<times> producer) option" where
  "push r p value =
     (let p = (if looks_full r p then p\<lparr>p_cached_tail := r_tail r\<rparr> else p) in
      if looks_full r p then Some (Inl value, r, p)
      else do {
        r \<leftarrow> write_slot r (p_cached_head p) value;
        let (r, p) = publish_head r p;
        Some (Inr (), r, p)
      })"

definition pop ::
  "'a ring_buffer_inner \<Rightarrow> consumer \<Rightarrow> ((unit + 'a) \<times> 'a ring_buffer_inner \<times> consumer) option" where
  "pop r c =
     (let c = (if looks_empty c then c\<lparr>c_cached_head := r_head r\<rparr> else c) in
      if looks_empty c then Some (Inl (), r, c)
      else do {
        (value, r) \<leftarrow> take_slot r (c_cached_tail c);
        let (r, c) = publish_tail r c;
        Some (Inr value, r, c)
      })"

text \<open>The loop of \<open>drop\<close>; the values dropped are returned in order.\<close>

partial_function (option) drop_loop ::
  "'a ring_buffer_inner \<Rightarrow> usize \<Rightarrow> usize \<Rightarrow> ('a list \<times> 'a ring_buffer_inner) option" where
  "drop_loop r i head =
     (if i \<noteq> head then do {
        (value, r) \<leftarrow> take_slot r i;
        (values, r) \<leftarrow> drop_loop r (i + 1) head;
        Some (value # values, r)
      } else Some ([], r))"

definition drop_ring :: "'a ring_buffer_inner \<Rightarrow> ('a list \<times> 'a ring_buffer_inner) option" where
  "drop_ring r = drop_loop r (r_tail r) (r_head r)"

section \<open>Cursors and slots\<close>

text \<open>
  \<open>geometry r k\<close>: a ring of \<open>2 ^ k\<close> slots. Cursors count all pushes and pops; a cursor value is
  such a count modulo \<open>2 ^ 64\<close>, and its slot is the count modulo the capacity.
\<close>

definition geometry :: "'a ring_buffer_inner \<Rightarrow> nat \<Rightarrow> bool" where
  "geometry r k \<longleftrightarrow> k < 64 \<and> r_capacity r = 2 ^ k \<and> r_mask r = 2 ^ k - 1 \<and> length (r_buffer r) = 2 ^ k"

lemma geometryD:
  "geometry r k \<Longrightarrow> k < 64" "geometry r k \<Longrightarrow> r_capacity r = 2 ^ k" "geometry r k \<Longrightarrow> r_mask r = 2 ^ k - 1"
  "geometry r k \<Longrightarrow> length (r_buffer r) = 2 ^ k"
  by (auto simp: geometry_def)

lemma unat_power: "k < 64 \<Longrightarrow> unat (2 ^ k :: usize) = 2 ^ k"
  using unat_of_nat_id [of "2 ^ k", where 'a = 64] power_strict_increasing [of k 64 "2::nat"] by simp

lemma slot_of_count:
  assumes "k < 64"
  shows "unat ((of_nat n :: usize) AND (2 ^ k - 1)) = n mod 2 ^ k"
proof -
  have "(of_nat n :: usize) AND (2 ^ k - 1) = take_bit k (of_nat n)"
    by (simp add: take_bit_eq_mask mask_eq_exp_minus_1)
  then have "unat ((of_nat n :: usize) AND (2 ^ k - 1)) = unat (of_nat n :: usize) mod 2 ^ k"
    by (simp only: unsigned_take_bit_eq) (simp only: take_bit_eq_mod)
  also have "\<dots> = n mod 2 ^ k"
    using assms mod_mod_cancel [OF le_imp_power_dvd [of k 64 "2::nat"], of n] by (simp add: unat_of_nat)
  finally show ?thesis .
qed

lemma count_diff:
  assumes "k < 64" and "t \<le> h" and "h \<le> t + 2 ^ k"
  shows "(of_nat h - of_nat t :: usize) = 2 ^ k \<longleftrightarrow> h = t + 2 ^ k"
proof -
  have lt: "h - t < 2 ^ 64" using assms power_strict_increasing [of k 64 "2::nat"] by linarith
  have "(of_nat h - of_nat t :: usize) = of_nat (h - t)" using assms(2) by (simp add: of_nat_diff)
  then have "(of_nat h - of_nat t :: usize) = 2 ^ k \<longleftrightarrow> unat (of_nat (h - t) :: usize) = unat (2 ^ k :: usize)"
    by (simp add: word_unat_eq_iff)
  also have "\<dots> \<longleftrightarrow> h - t = 2 ^ k" using lt assms(1) by (simp add: unat_of_nat unat_power)
  finally show ?thesis using assms by auto
qed

lemma count_eq:
  assumes "k < 64" and "t \<le> h" and "h \<le> t + 2 ^ k"
  shows "(of_nat t :: usize) = of_nat h \<longleftrightarrow> t = h"
proof -
  have lt: "h - t < 2 ^ 64" using assms power_strict_increasing [of k 64 "2::nat"] by linarith
  have "(of_nat t :: usize) = of_nat h \<longleftrightarrow> (of_nat (h - t) :: usize) = 0"
    using assms(2) by (auto simp: of_nat_diff)
  also have "\<dots> \<longleftrightarrow> h - t = 0" using lt by (simp add: of_nat_eq_0_word)
  finally show ?thesis using assms by auto
qed

lemma slot_distinct:
  fixes i j c :: nat
  assumes "i < j" and "j < i + c"
  shows "i mod c \<noteq> j mod c"
proof
  assume "i mod c = j mod c"
  then have "c dvd j - i" using assms(1) mod_eq_dvd_iff_nat [of i j c] by simp
  then show False using assms by (auto dest!: dvd_imp_le)
qed

lemma slot_inj:
  fixes i j c :: nat
  assumes "lo \<le> i" "i < lo + c" "lo \<le> j" "j < lo + c" "i mod c = j mod c"
  shows "i = j"
  using slot_distinct [of i j c] slot_distinct [of j i c] assms by linarith

text \<open>The slots hold exactly the values \<open>f i\<close> of the counts from \<open>lo\<close> to \<open>hi\<close>.\<close>

definition holds :: "'a option list \<Rightarrow> nat \<Rightarrow> nat \<Rightarrow> (nat \<Rightarrow> 'a) \<Rightarrow> bool" where
  "holds buf lo hi f \<longleftrightarrow>
     (\<forall>i. lo \<le> i \<and> i < hi \<longrightarrow> buf ! (i mod length buf) = Some (f i)) \<and>
     (\<forall>j < length buf. (\<forall>i. lo \<le> i \<and> i < hi \<longrightarrow> i mod length buf \<noteq> j) \<longrightarrow> buf ! j = None)"

lemma holds_get: "holds buf lo hi f \<Longrightarrow> lo < hi \<Longrightarrow> buf ! (lo mod length buf) = Some (f lo)"
  by (simp add: holds_def)

lemma holds_free:
  assumes "holds buf lo hi f" and "buf \<noteq> []" and "lo \<le> hi" and "hi < lo + length buf"
  shows "buf ! (hi mod length buf) = None"
proof -
  have "i mod length buf \<noteq> hi mod length buf" if "lo \<le> i" "i < hi" for i
    using slot_distinct [of i hi "length buf"] that assms(4) by linarith
  with assms(1,2) show ?thesis by (simp add: holds_def)
qed

lemma holds_push:
  assumes h: "holds buf lo hi f" and ne: "buf \<noteq> []" and le: "lo \<le> hi" and room: "hi < lo + length buf"
  shows "holds (buf[hi mod length buf := Some v]) lo (Suc hi) (f(hi := v))"
proof -
  let ?c = "length buf"
  have c: "hi mod ?c < ?c" using ne by simp
  have old: "i mod ?c \<noteq> hi mod ?c" if "lo \<le> i" "i < hi" for i
    using slot_distinct [of i hi ?c] that room by linarith
  have "buf[hi mod ?c := Some v] ! (i mod ?c) = Some ((f(hi := v)) i)" if "lo \<le> i" "i < Suc hi" for i
  proof (cases "i = hi")
    case True
    then show ?thesis using c by simp
  next
    case False
    then show ?thesis using h that old [of i] by (simp add: holds_def)
  qed
  moreover have "buf[hi mod ?c := Some v] ! j = None"
    if "j < ?c" "\<And>i. lo \<le> i \<Longrightarrow> i < Suc hi \<Longrightarrow> i mod ?c \<noteq> j" for j
    using h that(1) that(2) [of hi] that(2) le by (simp add: holds_def)
  ultimately show ?thesis unfolding holds_def by simp
qed

lemma holds_pop:
  assumes h: "holds buf lo hi f" and ne: "buf \<noteq> []" and lt: "lo < hi" and room: "hi \<le> lo + length buf"
  shows "holds (buf[lo mod length buf := None]) (Suc lo) hi f"
proof -
  let ?c = "length buf"
  have c: "lo mod ?c < ?c" using ne by simp
  have "buf[lo mod ?c := None] ! (i mod ?c) = Some (f i)" if "Suc lo \<le> i" "i < hi" for i
    using h that slot_distinct [of lo i ?c] room by (simp add: holds_def)
  moreover have "buf[lo mod ?c := None] ! j = None"
    if "j < ?c" "\<And>i. Suc lo \<le> i \<Longrightarrow> i < hi \<Longrightarrow> i mod ?c \<noteq> j" for j
  proof (cases "j = lo mod ?c")
    case True
    then show ?thesis using c by simp
  next
    case False
    then have "i mod ?c \<noteq> j" if "lo \<le> i" "i < hi" for i
      using that \<open>\<And>i. Suc lo \<le> i \<Longrightarrow> i < hi \<Longrightarrow> i mod ?c \<noteq> j\<close> by (cases "i = lo") auto
    with False h \<open>j < ?c\<close> show ?thesis by (simp add: holds_def)
  qed
  ultimately show ?thesis unfolding holds_def by simp
qed

lemma holds_cong:
  "(\<And>i. lo \<le> i \<Longrightarrow> i < hi \<Longrightarrow> f i = g i) \<Longrightarrow> holds buf lo hi f \<longleftrightarrow> holds buf lo hi g"
  by (auto simp: holds_def)

lemma write_slot_count:
  assumes "geometry r k"
  shows "write_slot r (of_nat h) v = Some (r\<lparr>r_buffer := (r_buffer r)[h mod length (r_buffer r) := Some v]\<rparr>)"
  using geometryD [OF assms] by (simp add: write_slot_def slot_of_count)

lemma take_slot_count:
  assumes "geometry r k" and "holds (r_buffer r) lo hi f" and "lo < hi"
  shows "take_slot r (of_nat lo) = Some (f lo, r\<lparr>r_buffer := (r_buffer r)[lo mod length (r_buffer r) := None]\<rparr>)"
  using geometryD [OF assms(1)] holds_get [OF assms(2,3)] by (simp add: take_slot_def slot_of_count)

lemma geometry_upd [simp]:
  "geometry (r\<lparr>r_head := h\<rparr>) k = geometry r k" "geometry (r\<lparr>r_tail := t\<rparr>) k = geometry r k"
  "geometry (r\<lparr>r_buffer := (r_buffer r)[i := x]\<rparr>) k = geometry r k"
  by (simp_all add: geometry_def)

section \<open>Without interference: a bounded queue\<close>

text \<open>The ring after \<open>h\<close> pushes and \<open>t\<close> pops, holding \<open>q\<close>; each side knows a bound on the other.\<close>

definition quiet :: "'a ring_buffer_inner \<times> producer \<times> consumer \<Rightarrow> nat \<Rightarrow> 'a list \<Rightarrow> bool" where
  "quiet = (\<lambda>(r, p, c) k q.
     geometry r k \<and>
     (\<exists>t pt ch. pt \<le> t \<and> t + length q \<le> pt + 2 ^ k \<and> t \<le> ch \<and> ch \<le> t + length q \<and>
       r_tail r = of_nat t \<and> r_head r = of_nat (t + length q) \<and>
       p = \<lparr>p_cached_head = of_nat (t + length q), p_cached_tail = of_nat pt\<rparr> \<and>
       c = \<lparr>c_cached_tail = of_nat t, c_cached_head = of_nat ch\<rparr> \<and>
       holds (r_buffer r) t (t + length q) (\<lambda>i. q ! (i - t))))"

definition push_on :: "'a ring_buffer_inner \<times> producer \<times> consumer \<Rightarrow> 'a \<Rightarrow>
    (('a + unit) \<times> 'a ring_buffer_inner \<times> producer \<times> consumer) option" where
  "push_on = (\<lambda>(r, p, c) v. map_option (\<lambda>(res, r, p). (res, r, p, c)) (push r p v))"

definition pop_on :: "'a ring_buffer_inner \<times> producer \<times> consumer \<Rightarrow>
    ((unit + 'a) \<times> 'a ring_buffer_inner \<times> producer \<times> consumer) option" where
  "pop_on = (\<lambda>(r, p, c). map_option (\<lambda>(res, r, c). (res, r, p, c)) (pop r c))"

lemma quiet_length: "quiet s k q \<Longrightarrow> length q \<le> 2 ^ k"
  by (auto simp: quiet_def split: prod.splits)

lemma quiet_bound: "quiet s k q \<Longrightarrow> k < 64"
  by (auto simp: quiet_def geometry_def split: prod.splits)

lemma quiet_new:
  assumes "ring_buffer capacity = Some s"
  shows "\<exists>k < 64. capacity = 2 ^ k \<and> quiet s k []"
proof -
  from assms obtain k where k: "k < 64" "capacity = 2 ^ k"
    by (auto simp: ring_buffer_def is_power_of_two_def split: if_splits)
  then have "quiet s k []"
    using assms
    by (auto simp: ring_buffer_def quiet_def geometry_def holds_def unat_power split: if_splits intro!: exI [of _ 0])
  with k show ?thesis by blast
qed

text \<open>A quiet ring taken apart: how many values have left it, and how old the cursors of the two ends are.\<close>

definition quiet_at ::
  "'a ring_buffer_inner \<times> producer \<times> consumer \<Rightarrow> nat \<Rightarrow> 'a list \<Rightarrow> nat \<Rightarrow> nat \<Rightarrow> nat \<Rightarrow> bool" where
  "quiet_at s k q t pt ch \<longleftrightarrow> (case s of (r, p, c) \<Rightarrow> geometry r k \<and> pt \<le> t \<and> t + length q \<le> pt + 2 ^ k \<and>
     t \<le> ch \<and> ch \<le> t + length q \<and> r_tail r = of_nat t \<and> r_head r = of_nat (t + length q) \<and>
     p = \<lparr>p_cached_head = of_nat (t + length q), p_cached_tail = of_nat pt\<rparr> \<and>
     c = \<lparr>c_cached_tail = of_nat t, c_cached_head = of_nat ch\<rparr> \<and>
     holds (r_buffer r) t (t + length q) (\<lambda>i. q ! (i - t)))"

lemma quiet_iff: "quiet s k q \<longleftrightarrow> (\<exists>t pt ch. quiet_at s k q t pt ch)"
  unfolding quiet_def quiet_at_def by (cases s) (simp only: prod.case, blast)

lemma quiet_at_cursors:
  assumes "quiet_at (r, p, c) k q t pt ch"
  shows "x \<le> t \<Longrightarrow> t + length q \<le> x + 2 ^ k \<Longrightarrow> looks_full r (p\<lparr>p_cached_tail := of_nat x\<rparr>) \<longleftrightarrow> t + length q = x + 2 ^ k"
    and "looks_full r p \<longleftrightarrow> t + length q = pt + 2 ^ k"
    and "t \<le> x \<Longrightarrow> x \<le> t + length q \<Longrightarrow> looks_empty (c\<lparr>c_cached_head := of_nat x\<rparr>) \<longleftrightarrow> t = x"
    and "looks_empty c \<longleftrightarrow> t = ch" and "length q \<le> 2 ^ k"
proof -
  have a: "geometry r k" "pt \<le> t" "t + length q \<le> pt + 2 ^ k" "t \<le> ch" "ch \<le> t + length q"
    "p = \<lparr>p_cached_head = of_nat (t + length q), p_cached_tail = of_nat pt\<rparr>"
    "c = \<lparr>c_cached_tail = of_nat t, c_cached_head = of_nat ch\<rparr>"
    using assms by (simp_all add: quiet_at_def)
  note gD = geometryD [OF a(1)]
  show full: "x \<le> t \<Longrightarrow> t + length q \<le> x + 2 ^ k \<Longrightarrow>
      looks_full r (p\<lparr>p_cached_tail := of_nat x\<rparr>) \<longleftrightarrow> t + length q = x + 2 ^ k" for x
    using count_diff [OF gD(1), of x "t + length q"] gD(2) a(6) by (simp add: looks_full_def)
  show "looks_full r p \<longleftrightarrow> t + length q = pt + 2 ^ k" using full [OF a(2,3)] a(6) by simp
  show len: "length q \<le> 2 ^ k" using a(2,3) by linarith
  show empty: "t \<le> x \<Longrightarrow> x \<le> t + length q \<Longrightarrow> looks_empty (c\<lparr>c_cached_head := of_nat x\<rparr>) \<longleftrightarrow> t = x" for x
    using count_eq [OF gD(1), of t x] len a(7) by (simp add: looks_empty_def)
  show "looks_empty c \<longleftrightarrow> t = ch" using empty [OF a(4,5)] a(7) by simp
qed

lemma push_room:
  assumes q: "quiet_at (r, p, c) k q t pt ch" and room: "length q < 2 ^ k"
  shows "\<exists>r' p'. push r p v = Some (Inr (), r', p') \<and> quiet (r', p', c) k (q @ [v])"
proof -
  note cur = quiet_at_cursors [OF q]
  have g: "geometry r k" and h: "holds (r_buffer r) t (t + length q) (\<lambda>i. q ! (i - t))"
    using q by (simp_all add: quiet_at_def)
  obtain x where x: "x \<le> t" "t + length q < x + 2 ^ k" and p':
    "(if looks_full r p then p\<lparr>p_cached_tail := r_tail r\<rparr> else p) = p\<lparr>p_cached_tail := of_nat x\<rparr>"
    using cur(2) q room by (cases "looks_full r p") (force simp: quiet_at_def)+
  let ?p = "p\<lparr>p_cached_tail := of_nat x\<rparr>" and ?h = "t + length q" and ?b = "r_buffer r"
  let ?r = "r\<lparr>r_buffer := ?b[?h mod length ?b := Some v], r_head := of_nat ?h + 1\<rparr>"
  have "?b \<noteq> []" using geometryD(4) [OF g] by auto
  then have "holds (?b[?h mod length ?b := Some v]) t (Suc ?h) ((\<lambda>i. q ! (i - t))(?h := v))"
    using h geometryD(4) [OF g] room by (intro holds_push) auto
  then have h': "holds (?b[?h mod length ?b := Some v]) t (t + length (q @ [v])) (\<lambda>i. (q @ [v]) ! (i - t))"
    by (subst holds_cong [where g = "(\<lambda>i. q ! (i - t))(?h := v)"]) (auto simp: nth_append)
  have head: "p_cached_head p = of_nat ?h" using q by (simp add: quiet_at_def)
  have "push r p v = Some (Inr (), ?r, ?p\<lparr>p_cached_head := of_nat ?h + 1\<rparr>)"
    unfolding push_def Let_def p' using cur(1) [of x] x head
    by (simp add: write_slot_count [OF g] publish_head_def del: of_nat_add)
  moreover have "quiet_at (?r, ?p\<lparr>p_cached_head := of_nat ?h + 1\<rparr>, c) k (q @ [v]) t x ch"
    using q h' x by (auto simp: quiet_at_def geometry_def ac_simps)
  ultimately show ?thesis unfolding quiet_iff by blast
qed

lemma push_full:
  assumes q: "quiet_at (r, p, c) k q t pt ch" and full: "length q = 2 ^ k"
  shows "\<exists>p'. push r p v = Some (Inl v, r, p') \<and> quiet (r, p', c) k q"
proof -
  note cur = quiet_at_cursors [OF q]
  have t: "r_tail r = of_nat t" "pt \<le> t" "t + length q \<le> pt + 2 ^ k" using q by (simp_all add: quiet_at_def)
  have "push r p v = Some (Inl v, r, p\<lparr>p_cached_tail := r_tail r\<rparr>)"
    using cur(1) [of t] cur(2) t full by (simp add: push_def)
  moreover have "quiet_at (r, p\<lparr>p_cached_tail := r_tail r\<rparr>, c) k q t t ch" using q full by (simp add: quiet_at_def)
  ultimately show ?thesis unfolding quiet_iff by blast
qed

lemma push_quiet:
  assumes "quiet s k q"
  shows "\<exists>s'. push_on s v = Some (if length q < 2 ^ k then Inr () else Inl v, s') \<and>
    quiet s' k (if length q < 2 ^ k then q @ [v] else q)"
proof -
  obtain r p c t pt ch where s: "s = (r, p, c)" "quiet_at (r, p, c) k q t pt ch"
    using assms by (cases s) (auto simp: quiet_iff)
  then show ?thesis
    using push_room [OF s(2), of v] push_full [OF s(2), of v] quiet_at_cursors(5) [OF s(2)]
    by (cases "length q < 2 ^ k") (auto simp: push_on_def)
qed

lemma pop_value:
  assumes q: "quiet_at (r, p, c) k (v # q) t pt ch"
  shows "\<exists>r' c'. pop r c = Some (Inr v, r', c') \<and> quiet (r', p, c') k q"
proof -
  note cur = quiet_at_cursors [OF q]
  have g: "geometry r k" and h: "holds (r_buffer r) t (t + length (v # q)) (\<lambda>i. (v # q) ! (i - t))"
    using q by (simp_all add: quiet_at_def)
  define x where "x = (if t = ch then t + length (v # q) else ch)"
  have x: "t < x" "x \<le> t + length (v # q)" using q by (auto simp: x_def quiet_at_def)
  have c': "(if looks_empty c then c\<lparr>c_cached_head := r_head r\<rparr> else c) = c\<lparr>c_cached_head := of_nat x\<rparr>"
    using cur(4) q by (simp add: x_def quiet_at_def)
  let ?c = "c\<lparr>c_cached_head := of_nat x\<rparr>" and ?b = "r_buffer r"
  let ?r = "r\<lparr>r_buffer := ?b[t mod length ?b := None], r_tail := of_nat t + 1\<rparr>"
  have "?b \<noteq> []" using geometryD(4) [OF g] by auto
  then have "holds (?b[t mod length ?b := None]) (Suc t) (t + length (v # q)) (\<lambda>i. (v # q) ! (i - t))"
    using h geometryD(4) [OF g] cur(5) by (intro holds_pop) auto
  then have h': "holds (?b[t mod length ?b := None]) (Suc t) (Suc t + length q) (\<lambda>i. q ! (i - Suc t))"
    by (subst holds_cong [where g = "\<lambda>i. (v # q) ! (i - t)"]) (auto simp: nth_Cons' diff_Suc split: nat.split)
  have "pop r c = Some (Inr v, ?r, ?c\<lparr>c_cached_tail := of_nat t + 1\<rparr>)"
    unfolding pop_def Let_def c' using cur(3) [of x] x q take_slot_count [OF g h]
    by (simp add: publish_tail_def quiet_at_def)
  moreover have "quiet_at (?r, p, ?c\<lparr>c_cached_tail := of_nat t + 1\<rparr>) k q (Suc t) pt x"
    using q h' x by (auto simp: quiet_at_def geometry_def ac_simps)
  ultimately show ?thesis unfolding quiet_iff by blast
qed

lemma pop_nothing:
  assumes q: "quiet_at (r, p, c) k [] t pt ch"
  shows "\<exists>c'. pop r c = Some (Inl (), r, c') \<and> quiet (r, p, c') k []"
proof -
  have "pop r c = Some (Inl (), r, c\<lparr>c_cached_head := r_head r\<rparr>)"
    using quiet_at_cursors(4) [OF q] q by (simp add: pop_def quiet_at_def looks_empty_def)
  moreover have "quiet_at (r, p, c\<lparr>c_cached_head := r_head r\<rparr>) k [] t pt t" using q by (simp add: quiet_at_def)
  ultimately show ?thesis unfolding quiet_iff by blast
qed

lemma pop_quiet:
  assumes "quiet s k q"
  shows "\<exists>s'. pop_on s = Some (case q of [] \<Rightarrow> Inl () | x # _ \<Rightarrow> Inr x, s') \<and> quiet s' k (tl q)"
proof -
  obtain r p c t pt ch where s: "s = (r, p, c)" "quiet_at (r, p, c) k q t pt ch"
    using assms by (cases s) (auto simp: quiet_iff)
  show ?thesis
    using s pop_nothing [of r p c k t pt ch] pop_value [of r p c k _ _ t pt ch]
    by (cases q) (force simp: pop_on_def)+
qed

text \<open>What a client of a bounded queue relies on.\<close>

locale bounded_queue =
  fixes rep :: "'q \<Rightarrow> nat \<Rightarrow> 'a list \<Rightarrow> bool"
    and enq :: "'q \<Rightarrow> 'a \<Rightarrow> (('a + unit) \<times> 'q) option"
    and deq :: "'q \<Rightarrow> ((unit + 'a) \<times> 'q) option"
    and room :: "nat \<Rightarrow> nat"
  assumes rep_room: "rep s k q \<Longrightarrow> length q \<le> room k"
    and enq_rep: "rep s k q \<Longrightarrow> \<exists>s'. enq s v = Some (if length q < room k then Inr () else Inl v, s') \<and>
      rep s' k (if length q < room k then q @ [v] else q)"
    and deq_rep: "rep s k q \<Longrightarrow> \<exists>s'. deq s = Some (case q of [] \<Rightarrow> Inl () | x # _ \<Rightarrow> Inr x, s') \<and>
      rep s' k (tl q)"
begin

fun enq_all :: "'q \<Rightarrow> 'a list \<Rightarrow> 'q option" where
  "enq_all s [] = Some s"
| "enq_all s (v # vs) = (case enq s v of Some (Inr u, s') \<Rightarrow> enq_all s' vs | _ \<Rightarrow> None)"

text \<open>Drain at most \<open>n\<close> values.\<close>

fun drain :: "nat \<Rightarrow> 'q \<Rightarrow> ('a list \<times> 'q) option" where
  "drain 0 s = Some ([], s)"
| "drain (Suc n) s = (case deq s of Some (Inr v, s') \<Rightarrow> map_option (\<lambda>(vs, s''). (v # vs, s'')) (drain n s')
     | Some (Inl u, s') \<Rightarrow> Some ([], s') | None \<Rightarrow> None)"

lemma enq_all_rep:
  "rep s k q \<Longrightarrow> length q + length vs \<le> room k \<Longrightarrow> \<exists>s'. enq_all s vs = Some s' \<and> rep s' k (q @ vs)"
proof (induction vs arbitrary: s q)
  case (Cons v vs)
  from enq_rep [OF Cons.prems(1), of v] Cons.prems(2)
  obtain s' where s': "enq s v = Some (Inr (), s')" "rep s' k (q @ [v])" by auto
  have "length (q @ [v]) + length vs \<le> room k" using Cons.prems(2) by simp
  from Cons.IH [OF s'(2) this] obtain s'' where "enq_all s' vs = Some s''" "rep s'' k ((q @ [v]) @ vs)" by blast
  with s'(1) show ?case by simp
qed auto

lemma drain_rep:
  "rep s k q \<Longrightarrow> \<exists>s'. drain n s = Some (take n q, s') \<and> rep s' k (drop n q)"
proof (induction n arbitrary: s q)
  case (Suc n)
  from deq_rep [OF Suc.prems]
  obtain s' where s': "deq s = Some (case q of [] \<Rightarrow> Inl () | x # _ \<Rightarrow> Inr x, s')" "rep s' k (tl q)" by blast
  obtain s'' where "drain n s' = Some (take n (tl q), s'')" "rep s'' k (drop n (tl q))"
    using Suc.IH [OF s'(2)] by blast
  with s' show ?case by (cases q) simp_all
qed auto

text \<open>First in, first out, nothing lost.\<close>

lemma fifo:
  assumes "rep s k []" and "length vs \<le> room k"
  shows "\<exists>s' s''. enq_all s vs = Some s' \<and> drain (length vs) s' = Some (vs, s'') \<and> rep s'' k []"
  using enq_all_rep [OF assms(1), of vs] drain_rep [of _ k vs "length vs"] assms(2) by fastforce

end

interpretation spsc: bounded_queue quiet push_on pop_on "\<lambda>k. 2 ^ k"
  by unfold_locales (rule quiet_length push_quiet pop_quiet; assumption)+

section \<open>Dropping the ring\<close>

lemma drop_loop_holds:
  assumes "geometry r k" and "holds (r_buffer r) t (t + n) f" and "n \<le> 2 ^ k"
  shows "\<exists>r'. drop_loop r (of_nat t) (of_nat (t + n)) = Some (map f [t..<t + n], r') \<and>
    r_buffer r' = replicate (2 ^ k) None"
  using assms
proof (induction n arbitrary: r t)
  case 0
  have "r_buffer r = replicate (2 ^ k) None"
    using "0.prems"(2) geometryD(4) [OF "0.prems"(1)] by (intro nth_equalityI) (auto simp: holds_def)
  then show ?case by (subst drop_loop.simps) simp
next
  case (Suc n)
  note gD = geometryD [OF Suc.prems(1)]
  let ?b = "r_buffer r"
  let ?r = "r\<lparr>r_buffer := ?b[t mod length ?b := None]\<rparr>"
  have ne: "(of_nat t :: usize) \<noteq> of_nat (t + Suc n)"
    using count_eq [OF gD(1), of t "t + Suc n"] Suc.prems(3) by simp
  have ts: "take_slot r (of_nat t) = Some (f t, ?r)"
    using take_slot_count [OF Suc.prems(1,2)] by simp
  have "?b \<noteq> []" using gD(4) by auto
  then have "holds (r_buffer ?r) (Suc t) (Suc t + n) f"
    using holds_pop [OF Suc.prems(2)] gD(4) Suc.prems(3) by simp
  then obtain r' where "drop_loop ?r (of_nat (Suc t)) (of_nat (Suc t + n)) = Some (map f [Suc t..<Suc t + n], r')"
    "r_buffer r' = replicate (2 ^ k) None"
    using Suc.IH [of ?r "Suc t"] Suc.prems(1,3) by auto
  moreover have "[t..<t + Suc n] = t # [Suc t..<Suc t + n]" by (simp add: upt_rec)
  moreover have "(of_nat (Suc t + n) :: usize) = of_nat (t + Suc n)" "(of_nat (Suc t) :: usize) = of_nat t + 1"
    by simp_all
  ultimately show ?case
    using ne ts by (subst drop_loop.simps) (simp del: of_nat_Suc of_nat_add upt_Suc add_Suc add_Suc_right)
qed

lemma drop_quiet:
  assumes "quiet (r, p, c) k q"
  shows "\<exists>r'. drop_ring r = Some (q, r') \<and> r_buffer r' = replicate (2 ^ k) None"
proof -
  from assms obtain t where g: "geometry r k" and r: "r_tail r = of_nat t" "r_head r = of_nat (t + length q)"
    and h: "holds (r_buffer r) t (t + length q) (\<lambda>i. q ! (i - t))"
    unfolding quiet_def prod.case by blast
  have "map (\<lambda>i. q ! (i - t)) [t..<t + length q] = q"
    by (intro nth_equalityI) auto
  with drop_loop_holds [OF g h quiet_length [OF assms]] show ?thesis by (simp add: drop_ring_def r)
qed

end
