(* ===== verification/Ring_Concurrent.thy ===== *)
theory Ring_Concurrent
  imports Ring "HOL-Library.Sublist"
begin

text \<open>
  The ring of \<open>src/src/ring.rs\<close> under every interleaving of its producer and consumer. Each thread
  is at a point of \<open>push\<close> or \<open>pop\<close>: before the acquire load, before the access to the slot,
  before the release store. An acquire load returns a value of the other side's cursor that is at
  least as new as the last one loaded; it need not be the newest. Two histories, of the values
  published and of the values delivered, are carried along to state the theorems.
\<close>

datatype 'a p_pc = PIdle | PLoad 'a | PWrite 'a | PPublish 'a
datatype 'a c_pc = CIdle | CLoad | CRead | CPublish 'a

record 'a spsc_state =
  s_ring :: "'a ring_buffer_inner"
  s_prod :: producer
  s_cons :: consumer
  s_ppc :: "'a p_pc"
  s_cpc :: "'a c_pc"
  s_sent :: "'a list"
  s_received :: "'a list"
  s_tail_seen :: nat
  s_head_seen :: nat

definition spsc_init :: "usize \<Rightarrow> 'a spsc_state option" where
  "spsc_init capacity = map_option (\<lambda>(r, p, c).
     \<lparr>s_ring = r, s_prod = p, s_cons = c, s_ppc = PIdle, s_cpc = CIdle, s_sent = [], s_received = [],
      s_tail_seen = 0, s_head_seen = 0\<rparr>) (ring_buffer capacity)"

text \<open>One step of either thread; \<open>push_load\<close> and \<open>pop_load\<close> end the call with \<open>Full\<close> or \<open>Empty\<close>.\<close>

inductive spsc_step :: "'a spsc_state \<Rightarrow> 'a spsc_state \<Rightarrow> bool" where
  push_call: "s_ppc s = PIdle \<Longrightarrow>
    spsc_step s (s\<lparr>s_ppc := if looks_full (s_ring s) (s_prod s) then PLoad v else PWrite v\<rparr>)"
| push_load: "s_ppc s = PLoad v \<Longrightarrow> s_tail_seen s \<le> t \<Longrightarrow> t \<le> length (s_received s) \<Longrightarrow>
    p = (s_prod s)\<lparr>p_cached_tail := of_nat t\<rparr> \<Longrightarrow>
    spsc_step s (s\<lparr>s_prod := p, s_tail_seen := t,
      s_ppc := if looks_full (s_ring s) p then PIdle else PWrite v\<rparr>)"
| push_write: "s_ppc s = PWrite v \<Longrightarrow> write_slot (s_ring s) (p_cached_head (s_prod s)) v = Some r \<Longrightarrow>
    spsc_step s (s\<lparr>s_ring := r, s_ppc := PPublish v\<rparr>)"
| push_publish: "s_ppc s = PPublish v \<Longrightarrow> publish_head (s_ring s) (s_prod s) = (r, p) \<Longrightarrow>
    spsc_step s (s\<lparr>s_ring := r, s_prod := p, s_ppc := PIdle, s_sent := s_sent s @ [v]\<rparr>)"
| pop_call: "s_cpc s = CIdle \<Longrightarrow>
    spsc_step s (s\<lparr>s_cpc := if looks_empty (s_cons s) then CLoad else CRead\<rparr>)"
| pop_load: "s_cpc s = CLoad \<Longrightarrow> s_head_seen s \<le> h \<Longrightarrow> h \<le> length (s_sent s) \<Longrightarrow>
    c = (s_cons s)\<lparr>c_cached_head := of_nat h\<rparr> \<Longrightarrow>
    spsc_step s (s\<lparr>s_cons := c, s_head_seen := h, s_cpc := if looks_empty c then CIdle else CRead\<rparr>)"
| pop_read: "s_cpc s = CRead \<Longrightarrow> take_slot (s_ring s) (c_cached_tail (s_cons s)) = Some (v, r) \<Longrightarrow>
    spsc_step s (s\<lparr>s_ring := r, s_cpc := CPublish v\<rparr>)"
| pop_publish: "s_cpc s = CPublish v \<Longrightarrow> publish_tail (s_ring s) (s_cons s) = (r, c) \<Longrightarrow>
    spsc_step s (s\<lparr>s_ring := r, s_cons := c, s_cpc := CIdle, s_received := s_received s @ [v]\<rparr>)"

inductive spsc_reachable :: "usize \<Rightarrow> 'a spsc_state \<Rightarrow> bool" for capacity where
  start: "spsc_init capacity = Some s \<Longrightarrow> spsc_reachable capacity s"
| step: "spsc_reachable capacity s \<Longrightarrow> spsc_step s s' \<Longrightarrow> spsc_reachable capacity s'"

section \<open>The invariant\<close>

text \<open>The values in the slots: published or about to be, and not yet read.\<close>

fun pending :: "'a p_pc \<Rightarrow> 'a list" where
  "pending (PPublish v) = [v]"
| "pending _ = []"

fun taken :: "'a c_pc \<Rightarrow> 'a list" where
  "taken (CPublish v) = [v]"
| "taken _ = []"

fun may_write :: "'a p_pc \<Rightarrow> bool" where
  "may_write (PWrite v) = True"
| "may_write (PPublish v) = True"
| "may_write _ = False"

fun may_read :: "'a c_pc \<Rightarrow> bool" where
  "may_read CRead = True"
| "may_read (CPublish v) = True"
| "may_read _ = False"

definition spsc_inv :: "nat \<Rightarrow> 'a spsc_state \<Rightarrow> bool" where
  "spsc_inv k s \<longleftrightarrow>
     geometry (s_ring s) k \<and>
     r_head (s_ring s) = of_nat (length (s_sent s)) \<and> r_tail (s_ring s) = of_nat (length (s_received s)) \<and>
     s_prod s = \<lparr>p_cached_head = of_nat (length (s_sent s)), p_cached_tail = of_nat (s_tail_seen s)\<rparr> \<and>
     s_cons s = \<lparr>c_cached_tail = of_nat (length (s_received s)), c_cached_head = of_nat (s_head_seen s)\<rparr> \<and>
     s_tail_seen s \<le> length (s_received s) \<and> length (s_received s) \<le> s_head_seen s \<and>
     s_head_seen s \<le> length (s_sent s) \<and> length (s_sent s) \<le> s_tail_seen s + 2 ^ k \<and>
     (may_write (s_ppc s) \<longrightarrow> length (s_sent s) < s_tail_seen s + 2 ^ k) \<and>
     (may_read (s_cpc s) \<longrightarrow> length (s_received s) < s_head_seen s) \<and>
     prefix (s_received s @ taken (s_cpc s)) (s_sent s) \<and>
     holds (r_buffer (s_ring s)) (length (s_received s @ taken (s_cpc s)))
       (length (s_sent s @ pending (s_ppc s))) (\<lambda>i. (s_sent s @ pending (s_ppc s)) ! i)"

lemma spsc_invD:
  assumes "spsc_inv k s"
  shows "geometry (s_ring s) k" and "r_head (s_ring s) = of_nat (length (s_sent s))"
    and "r_tail (s_ring s) = of_nat (length (s_received s))"
    and "s_prod s = \<lparr>p_cached_head = of_nat (length (s_sent s)), p_cached_tail = of_nat (s_tail_seen s)\<rparr>"
    and "s_cons s = \<lparr>c_cached_tail = of_nat (length (s_received s)), c_cached_head = of_nat (s_head_seen s)\<rparr>"
    and "s_tail_seen s \<le> length (s_received s)" and "length (s_received s) \<le> s_head_seen s"
    and "s_head_seen s \<le> length (s_sent s)" and "length (s_sent s) \<le> s_tail_seen s + 2 ^ k"
    and "may_write (s_ppc s) \<Longrightarrow> length (s_sent s) < s_tail_seen s + 2 ^ k"
    and "may_read (s_cpc s) \<Longrightarrow> length (s_received s) < s_head_seen s"
    and "prefix (s_received s @ taken (s_cpc s)) (s_sent s)"
    and "holds (r_buffer (s_ring s)) (length (s_received s @ taken (s_cpc s)))
       (length (s_sent s @ pending (s_ppc s))) (\<lambda>i. (s_sent s @ pending (s_ppc s)) ! i)"
  using assms unfolding spsc_inv_def by blast+

lemma spsc_init_inv:
  assumes "spsc_init capacity = Some s"
  shows "\<exists>k < 64. capacity = 2 ^ k \<and> spsc_inv k s"
proof -
  from assms obtain r p c where rb: "ring_buffer capacity = Some (r, p, c)"
    and s: "s = \<lparr>s_ring = r, s_prod = p, s_cons = c, s_ppc = PIdle, s_cpc = CIdle, s_sent = [], s_received = [],
      s_tail_seen = 0, s_head_seen = 0\<rparr>"
    by (auto simp: spsc_init_def)
  then obtain k where k: "k < 64" "capacity = 2 ^ k"
    by (auto simp: ring_buffer_def is_power_of_two_def split: if_splits)
  then have "spsc_inv k s"
    using rb by (auto simp: s ring_buffer_def spsc_inv_def geometry_def holds_def unat_power split: if_splits)
  with k show ?thesis by blast
qed

text \<open>What the two checks say of the counts.\<close>

lemma looks_full_count:
  assumes "geometry r k" and "t \<le> h" and "h \<le> t + 2 ^ k"
  shows "looks_full r \<lparr>p_cached_head = of_nat h, p_cached_tail = of_nat t\<rparr> \<longleftrightarrow> h = t + 2 ^ k"
  using count_diff [OF geometryD(1) [OF assms(1)] assms(2,3)] geometryD(2) [OF assms(1)]
  by (simp add: looks_full_def)

lemma looks_empty_count:
  assumes "geometry r k" and "t \<le> h" and "h \<le> t + 2 ^ k"
  shows "looks_empty \<lparr>c_cached_tail = of_nat t, c_cached_head = of_nat h\<rparr> \<longleftrightarrow> t = h"
  using count_eq [OF geometryD(1) [OF assms(1)] assms(2,3)] by (simp add: looks_empty_def)

section \<open>The accesses to the slots\<close>

lemma spsc_write:
  assumes inv: "spsc_inv k s" and pc: "s_ppc s = PWrite v"
  defines "b \<equiv> r_buffer (s_ring s)" and "h \<equiv> length (s_sent s)"
  shows "write_slot (s_ring s) (p_cached_head (s_prod s)) v = Some ((s_ring s)\<lparr>r_buffer := b[h mod 2 ^ k := Some v]\<rparr>)"
    and "b ! (h mod 2 ^ k) = None"
    and "holds (b[h mod 2 ^ k := Some v]) (length (s_received s @ taken (s_cpc s))) (Suc h) (\<lambda>i. (s_sent s @ [v]) ! i)"
proof -
  note I = spsc_invD [OF inv] and len = geometryD(4) [OF spsc_invD(1) [OF inv]]
  have h0: "holds b (length (s_received s @ taken (s_cpc s))) h (\<lambda>i. s_sent s ! i)"
    using I(13) pc by (simp add: b_def h_def)
  have ne: "b \<noteq> []" using len by (auto simp: b_def)
  have "length (taken (s_cpc s)) \<le> (if may_read (s_cpc s) then 1 else 0)" by (cases "s_cpc s") auto
  then have lo: "length (s_received s @ taken (s_cpc s)) \<le> h" "h < length (s_received s @ taken (s_cpc s)) + length b"
    using I(6-11) pc len by (auto simp: b_def h_def split: if_splits)
  show "write_slot (s_ring s) (p_cached_head (s_prod s)) v = Some ((s_ring s)\<lparr>r_buffer := b[h mod 2 ^ k := Some v]\<rparr>)"
    using write_slot_count [OF I(1)] I(4) len by (simp add: b_def h_def)
  show "b ! (h mod 2 ^ k) = None"
    using holds_free [OF h0 ne lo] len by (simp add: b_def)
  have "holds (b[h mod 2 ^ k := Some v]) (length (s_received s @ taken (s_cpc s))) (Suc h) ((\<lambda>i. s_sent s ! i)(h := v))"
    using holds_push [OF h0 ne lo] len by (simp add: b_def)
  then show "holds (b[h mod 2 ^ k := Some v]) (length (s_received s @ taken (s_cpc s))) (Suc h) (\<lambda>i. (s_sent s @ [v]) ! i)"
    by (subst holds_cong [where g = "(\<lambda>i. s_sent s ! i)(h := v)"]) (auto simp: nth_append h_def)
qed

lemma spsc_read:
  assumes inv: "spsc_inv k s" and pc: "s_cpc s = CRead"
  defines "b \<equiv> r_buffer (s_ring s)" and "t \<equiv> length (s_received s)"
  shows "take_slot (s_ring s) (c_cached_tail (s_cons s)) =
      Some (s_sent s ! t, (s_ring s)\<lparr>r_buffer := b[t mod 2 ^ k := None]\<rparr>)"
    and "holds (b[t mod 2 ^ k := None]) (Suc t) (length (s_sent s @ pending (s_ppc s)))
      (\<lambda>i. (s_sent s @ pending (s_ppc s)) ! i)"
    and "t < length (s_sent s)"
proof -
  note I = spsc_invD [OF inv] and len = geometryD(4) [OF spsc_invD(1) [OF inv]]
  have h0: "holds b t (length (s_sent s @ pending (s_ppc s))) (\<lambda>i. (s_sent s @ pending (s_ppc s)) ! i)"
    using I(13) pc by (simp add: b_def t_def)
  have ne: "b \<noteq> []" using len by (auto simp: b_def)
  show lt: "t < length (s_sent s)" using I(8,11) pc by (simp add: t_def)
  have "length (pending (s_ppc s)) \<le> (if may_write (s_ppc s) then 1 else 0)" by (cases "s_ppc s") auto
  then have hi: "length (s_sent s @ pending (s_ppc s)) \<le> t + length b" "t < length (s_sent s @ pending (s_ppc s))"
    using I(6-10) lt len by (auto simp: b_def t_def split: if_splits)
  have "(s_sent s @ pending (s_ppc s)) ! t = s_sent s ! t" using lt by (simp add: nth_append)
  then show "take_slot (s_ring s) (c_cached_tail (s_cons s)) =
      Some (s_sent s ! t, (s_ring s)\<lparr>r_buffer := b[t mod 2 ^ k := None]\<rparr>)"
    using take_slot_count [OF I(1) h0 [unfolded b_def] hi(2)] I(5) len by (simp add: b_def t_def)
  show "holds (b[t mod 2 ^ k := None]) (Suc t) (length (s_sent s @ pending (s_ppc s)))
      (\<lambda>i. (s_sent s @ pending (s_ppc s)) ! i)"
    using holds_pop [OF h0 ne hi(2,1)] len by (simp add: b_def)
qed

section \<open>Every step keeps the invariant\<close>

lemma spsc_inv_write:
  assumes inv: "spsc_inv k s" and pc: "s_ppc s = PWrite v"
    and w: "write_slot (s_ring s) (p_cached_head (s_prod s)) v = Some r"
  shows "spsc_inv k (s\<lparr>s_ring := r, s_ppc := PPublish v\<rparr>)"
  using w spsc_write(1,3) [OF inv pc] spsc_invD [OF inv] pc by (auto simp: spsc_inv_def)

lemma spsc_inv_read:
  assumes inv: "spsc_inv k s" and pc: "s_cpc s = CRead"
    and w: "take_slot (s_ring s) (c_cached_tail (s_cons s)) = Some (v, r)"
  shows "spsc_inv k (s\<lparr>s_ring := r, s_cpc := CPublish v\<rparr>)"
proof -
  note rd = spsc_read [OF inv pc] and I = spsc_invD [OF inv]
  have "prefix (s_received s @ [s_sent s ! length (s_received s)]) (s_sent s)"
    using I(12) pc rd(3) by (simp add: append_one_prefix)
  then show ?thesis using w rd I pc by (auto simp: spsc_inv_def)
qed

lemma spsc_step_inv: "spsc_step s s' \<Longrightarrow> spsc_inv k s \<Longrightarrow> spsc_inv k s'"
proof (induction rule: spsc_step.induct)
  case (push_call s v)
  note I = spsc_invD [OF push_call.prems]
  have "looks_full (s_ring s) (s_prod s) \<longleftrightarrow> length (s_sent s) = s_tail_seen s + 2 ^ k"
    unfolding I(4) using I(6-9) by (intro looks_full_count [OF I(1)]) auto
  with push_call I show ?case by (auto simp: spsc_inv_def)
next
  case (push_load s v t p)
  note I = spsc_invD [OF push_load.prems]
  have "looks_full (s_ring s) p \<longleftrightarrow> length (s_sent s) = t + 2 ^ k"
    using looks_full_count [OF I(1), of t "length (s_sent s)"] push_load.hyps I(4,6-9) by simp
  with push_load I show ?case by (auto simp: spsc_inv_def)
next
  case (push_write s v r)
  then show ?case by (intro spsc_inv_write)
next
  case (push_publish s v r p)
  note I = spsc_invD [OF push_publish.prems]
  from push_publish.hyps I show ?case by (auto simp: spsc_inv_def publish_head_def)
next
  case (pop_call s)
  note I = spsc_invD [OF pop_call.prems]
  have "looks_empty (s_cons s) \<longleftrightarrow> length (s_received s) = s_head_seen s"
    unfolding I(5) using I(6-9) by (intro looks_empty_count [OF I(1)]) auto
  with pop_call I show ?case by (auto simp: spsc_inv_def)
next
  case (pop_load s h c)
  note I = spsc_invD [OF pop_load.prems]
  have "looks_empty c \<longleftrightarrow> length (s_received s) = h"
    using looks_empty_count [OF I(1), of "length (s_received s)" h] pop_load.hyps I(5-9) by simp
  with pop_load I show ?case by (auto simp: spsc_inv_def)
next
  case (pop_read s v r)
  then show ?case by (intro spsc_inv_read)
next
  case (pop_publish s v r c)
  note I = spsc_invD [OF pop_publish.prems]
  from pop_publish.hyps I show ?case by (auto simp: spsc_inv_def publish_tail_def)
qed

lemma spsc_reachable_inv:
  "spsc_reachable capacity s \<Longrightarrow> \<exists>k < 64. capacity = 2 ^ k \<and> spsc_inv k s"
  by (induction rule: spsc_reachable.induct) (auto dest: spsc_init_inv spsc_step_inv)

end
