(* ===== verification/Wire_Props.thy ===== *)
theory Wire_Props
  imports Protocol Ring_Concurrent
begin

text \<open>
  The properties of the wire format (\<open>src/src/protocol.rs\<close>) and of the ring between the two threads
  (\<open>src/src/ring.rs\<close>).
\<close>

section \<open>Samples\<close>

definition wire_order :: order where
  "wire_order = \<lparr>o_id = 258, o_trader_id = 7, o_side = Ask, o_price = I64 (- 5), o_quantity = 1000, o_timestamp = 99\<rparr>"

definition wire_fill :: fill where
  "wire_fill = \<lparr>f_taker_order_id = 1, f_maker_order_id = 2, f_price = I64 (- 3), f_quantity = 4, f_maker_fully_filled = True\<rparr>"

section \<open>Messages\<close>

text \<open>
  C15. A new order survives the wire. A buffer of forty bytes or more is accepted, only its first
  forty bytes are written, and decoding it, or just those bytes, gives the order back but
  for its time stamp, which becomes zero. A shorter buffer is refused and not written.
\<close>

theorem new_order_roundtrip:
  assumes "o_quantity ord \<noteq> 0"
  shows "if length buf < NEW_ORDER_SIZE then encode_new_order buf ord = (Inl BufferTooShort, buf)
    else \<exists>buf'. encode_new_order buf ord = (Inr NEW_ORDER_SIZE, buf') \<and> length buf' = length buf \<and>
      drop NEW_ORDER_SIZE buf' = drop NEW_ORDER_SIZE buf \<and>
      decode_message buf' = Inr (NewOrder (ord\<lparr>o_timestamp := 0\<rparr>)) \<and>
      decode_message (take NEW_ORDER_SIZE buf') = Inr (NewOrder (ord\<lparr>o_timestamp := 0\<rparr>))"
proof -
  have first: "new_order_bytes ord ! 0 = MSG_NEW_ORDER" by (simp add: new_order_bytes_def)
  have d: "decode_message (new_order_bytes ord @ rest) = Inr (NewOrder (ord\<lparr>o_timestamp := 0\<rparr>))" for rest
    using new_order_codec.dec_bytes [of ord rest] assms first
    by (simp add: decode_message_def read_u8_def nth_append)
  show ?thesis
    using new_order_codec.enc_short [of buf ord] encode_new_order_bytes [of buf ord] d [of "drop 40 buf"] d [of "[]"]
    by simp
qed

theorem new_order_roundtrip_witness:
  "\<exists>buf'. encode_new_order (replicate 48 255) wire_order = (Inr 40, buf') \<and>
     decode_message buf' = Inr (NewOrder (wire_order\<lparr>o_timestamp := 0\<rparr>))"
  using new_order_roundtrip [of wire_order "replicate 48 255"] by (auto simp: wire_order_def)

text \<open>
  A cancellation survives the wire, in sixteen bytes.
\<close>

theorem cancel_order_roundtrip:
  "if length buf < CANCEL_ORDER_SIZE then encode_cancel_order buf d = (Inl BufferTooShort, buf)
   else \<exists>buf'. encode_cancel_order buf d = (Inr CANCEL_ORDER_SIZE, buf') \<and> length buf' = length buf \<and>
     drop CANCEL_ORDER_SIZE buf' = drop CANCEL_ORDER_SIZE buf \<and> decode_message buf' = Inr (CancelOrder d) \<and>
     decode_message (take CANCEL_ORDER_SIZE buf') = Inr (CancelOrder d)"
proof -
  have first: "cancel_order_bytes d ! 0 = MSG_CANCEL_ORDER" by (simp add: cancel_order_bytes_def)
  have d: "decode_message (cancel_order_bytes d @ rest) = Inr (CancelOrder d)" for rest
    using cancel_codec.dec_bytes [of d rest] first by (simp add: decode_message_def read_u8_def nth_append)
  show ?thesis
    using cancel_codec.enc_short [of buf d] encode_cancel_order_bytes [of buf d] d [of "drop 16 buf"] d [of "[]"]
    by simp
qed

text \<open>
  C16. An execution report carries every field of its fill but the flag, with the sequence number
  and the time stamp it was given.
\<close>

theorem execution_report_roundtrip:
  "if length buf < EXECUTION_REPORT_SIZE then encode_execution_report buf n f ts = (Inl BufferTooShort, buf)
   else \<exists>buf'. encode_execution_report buf n f ts = (Inr EXECUTION_REPORT_SIZE, buf') \<and>
     length buf' = length buf \<and> drop EXECUTION_REPORT_SIZE buf' = drop EXECUTION_REPORT_SIZE buf \<and>
     decode_execution_report buf' = Inr \<lparr>x_seq_num = n, x_taker_order_id = f_taker_order_id f,
       x_maker_order_id = f_maker_order_id f, x_price = f_price f, x_quantity = f_quantity f, x_timestamp = ts\<rparr>"
  using report_codec.enc_short [of buf "(n, f, ts)"] encode_execution_report_bytes [of buf n f ts]
    decode_execution_report_bytes [of n f ts "drop 48 buf"] by simp

text \<open>
  C17. What the decoder accepts. A buffer decodes to a new order exactly when it has forty bytes,
  starts with the type of a new order, has a valid side and a quantity that is not zero; then the
  bytes of that order are those of the buffer, up to the six reserved ones, so no other order has
  this encoding. It decodes to a cancellation exactly when it has sixteen bytes and that type.
\<close>

theorem decode_message_exact:
  "(\<exists>ord. decode_message buf = Inr (NewOrder ord)) =
     (NEW_ORDER_SIZE \<le> length buf \<and> buf ! 0 = MSG_NEW_ORDER \<and> (buf ! 1 = 0 \<or> buf ! 1 = 1) \<and>
      (from_le (take 8 (drop 32 buf)) :: u64) \<noteq> 0) \<and>
   (\<exists>d. decode_message buf = Inr (CancelOrder d)) = (CANCEL_ORDER_SIZE \<le> length buf \<and> buf ! 0 = MSG_CANCEL_ORDER) \<and>
   (case decode_message buf of
      Inr (NewOrder ord) \<Rightarrow> buf ! 1 = encode_side (o_side ord) \<and>
        drop 8 (new_order_bytes ord) = take 32 (drop 8 buf) \<and> o_timestamp ord = 0
    | Inr (CancelOrder d) \<Rightarrow> drop 8 (cancel_order_bytes d) = take 8 (drop 8 buf)
    | Inl _ \<Rightarrow> True)"
proof -
  have new: "decode_message buf = Inr (NewOrder ord) \<longleftrightarrow> buf \<noteq> [] \<and> buf ! 0 = MSG_NEW_ORDER \<and> decode_new_order buf = Inr ord" for ord
    by (cases "decode_new_order buf"; cases "decode_cancel_order buf") (auto simp: decode_message_def read_u8_def)
  have can: "decode_message buf = Inr (CancelOrder d) \<longleftrightarrow> buf \<noteq> [] \<and> buf ! 0 = MSG_CANCEL_ORDER \<and> decode_cancel_order buf = Inr d" for d
    by (cases "decode_new_order buf"; cases "decode_cancel_order buf") (auto simp: decode_message_def read_u8_def)
  have ok: "(\<exists>ord. decode_new_order buf = Inr ord) = (40 \<le> length buf \<and> (buf ! 1 = 0 \<or> buf ! 1 = 1) \<and>
      (from_le (take 8 (drop 32 buf)) :: u64) \<noteq> 0)"
    by (auto simp: decode_new_order_def read_defs decode_side_def)
  have cok: "(\<exists>d. decode_cancel_order buf = Inr d) = (16 \<le> length buf)"
    "decode_cancel_order buf = Inr d \<Longrightarrow> drop 8 (cancel_order_bytes d) = take 8 (drop 8 buf)" for d
    by (auto simp: decode_cancel_order_def read_defs cancel_order_bytes_def split: if_splits)
  have "(\<exists>ord. decode_message buf = Inr (NewOrder ord)) = (buf \<noteq> [] \<and> buf ! 0 = MSG_NEW_ORDER \<and> (\<exists>ord. decode_new_order buf = Inr ord))"
    "(\<exists>d. decode_message buf = Inr (CancelOrder d)) = (buf \<noteq> [] \<and> buf ! 0 = MSG_CANCEL_ORDER \<and> (\<exists>d. decode_cancel_order buf = Inr d))"
    using new can by auto
  then show ?thesis
    unfolding ok cok(1) using decode_new_order_inv [of buf] new can cok(2)
    by (auto split: sum.split engine_command.split)
qed

section \<open>The ring\<close>

text \<open>
  C7. Under every interleaving of the producer and the consumer, with cursor loads that may be
  stale and counters that wrap, the values delivered are the first of the values published, in
  order, each once; and no more values are in the ring than it has slots.
\<close>

theorem ring_delivers_in_order:
  assumes "spsc_reachable capacity s"
  shows "prefix (s_received s) (s_sent s) \<and> length (s_sent s) \<le> length (s_received s) + unat capacity"
proof -
  obtain k where k: "k < 64" "capacity = 2 ^ k" "spsc_inv k s" using spsc_reachable_inv [OF assms] by blast
  have "prefix (s_received s) (s_sent s)" using spsc_invD(12) [OF k(3)] by (meson append_prefixD)
  moreover have "length (s_sent s) \<le> length (s_received s) + 2 ^ k" using spsc_invD(6,9) [OF k(3)] by simp
  ultimately show ?thesis using k(1,2) by (simp add: unat_power)
qed

text \<open>A run of the two threads: one push, one pop.\<close>

definition ring_started :: "nat spsc_state" where
  "ring_started = \<lparr>s_ring = \<lparr>r_buffer = [None, None], r_capacity = 2, r_mask = 1, r_head = 0, r_tail = 0\<rparr>,
     s_prod = \<lparr>p_cached_head = 0, p_cached_tail = 0\<rparr>, s_cons = \<lparr>c_cached_tail = 0, c_cached_head = 0\<rparr>,
     s_ppc = PIdle, s_cpc = CIdle, s_sent = [], s_received = [], s_tail_seen = 0, s_head_seen = 0\<rparr>"

definition ring_pushed :: "nat spsc_state" where
  "ring_pushed = ring_started\<lparr>s_ring := \<lparr>r_buffer = [Some 5, None], r_capacity = 2, r_mask = 1, r_head = 1, r_tail = 0\<rparr>,
     s_prod := \<lparr>p_cached_head = 1, p_cached_tail = 0\<rparr>, s_sent := [5]\<rparr>"

definition ring_reading :: "nat spsc_state" where
  "ring_reading = ring_pushed\<lparr>s_cons := \<lparr>c_cached_tail = 0, c_cached_head = 1\<rparr>, s_cpc := CRead, s_head_seen := 1\<rparr>"

definition ring_popped :: "nat spsc_state" where
  "ring_popped = ring_reading\<lparr>s_ring := \<lparr>r_buffer = [None, None], r_capacity = 2, r_mask = 1, r_head = 1, r_tail = 1\<rparr>,
     s_cons := \<lparr>c_cached_tail = 1, c_cached_head = 1\<rparr>, s_cpc := CIdle, s_received := [5]\<rparr>"

lemma ring_started_reachable: "spsc_reachable 2 ring_started"
proof (rule spsc_reachable.start)
  have "is_power_of_two 2" by (auto simp: is_power_of_two_def intro: bexI [of _ 1])
  moreover have "replicate 2 None = [None, None]" by (simp add: numeral_2_eq_2)
  ultimately show "spsc_init 2 = Some ring_started"
    by (simp add: spsc_init_def ring_buffer_def ring_started_def)
qed

lemma ring_pushed_reachable: "spsc_reachable 2 ring_pushed"
proof -
  let ?w = "ring_started\<lparr>s_ppc := PWrite 5\<rparr>"
  let ?p = "?w\<lparr>s_ring := \<lparr>r_buffer = [Some 5, None], r_capacity = 2, r_mask = 1, r_head = 0, r_tail = 0\<rparr>, s_ppc := PPublish 5\<rparr>"
  have "spsc_reachable 2 ?w"
    using spsc_reachable.step [OF ring_started_reachable spsc_step.push_call [of _ 5]]
    by (simp add: ring_started_def looks_full_def)
  from spsc_reachable.step [OF this spsc_step.push_write [of ?w 5 "s_ring ?p"]] have "spsc_reachable 2 ?p"
    by (simp add: ring_started_def write_slot_def)
  from spsc_reachable.step [OF this spsc_step.push_publish [of ?p 5 "s_ring ring_pushed" "s_prod ring_pushed"]]
  show ?thesis by (simp add: ring_started_def ring_pushed_def publish_head_def)
qed

lemma ring_reading_reachable: "spsc_reachable 2 ring_reading"
proof -
  let ?l = "ring_pushed\<lparr>s_cpc := CLoad\<rparr>"
  have "spsc_reachable 2 ?l"
    using spsc_reachable.step [OF ring_pushed_reachable spsc_step.pop_call]
    by (simp add: ring_pushed_def ring_started_def looks_empty_def)
  from spsc_reachable.step [OF this spsc_step.pop_load [of ?l 1 "s_cons ring_reading"]]
  show ?thesis by (simp add: ring_started_def ring_pushed_def ring_reading_def looks_empty_def)
qed

lemma ring_popped_reachable: "spsc_reachable 2 ring_popped"
proof -
  let ?p = "ring_reading\<lparr>s_ring := \<lparr>r_buffer = [None, None], r_capacity = 2, r_mask = 1, r_head = 1, r_tail = 0\<rparr>, s_cpc := CPublish 5\<rparr>"
  from spsc_reachable.step [OF ring_reading_reachable spsc_step.pop_read [of ring_reading 5 "s_ring ?p"]]
  have "spsc_reachable 2 ?p"
    by (simp add: ring_reading_def ring_started_def ring_pushed_def take_slot_def)
  from spsc_reachable.step [OF this spsc_step.pop_publish [of ?p 5 "s_ring ring_popped" "s_cons ring_popped"]]
  show ?thesis by (simp add: ring_started_def ring_pushed_def ring_reading_def ring_popped_def publish_tail_def)
qed

theorem ring_delivers_in_order_witness:
  "spsc_reachable 2 ring_popped \<and> s_received ring_popped = [5] \<and>
     prefix (s_received ring_popped) (s_sent ring_popped) \<and> length (s_sent ring_popped) \<le> length (s_received ring_popped) + 2"
  using ring_delivers_in_order [OF ring_popped_reachable] ring_popped_reachable
  by (simp add: ring_popped_def ring_reading_def)

text \<open>
  C8. No undefined behaviour. When the producer is about to write, its slot exists and is empty, so
  no value is overwritten or leaked; when the consumer is about to read, its slot holds an
  initialised value, the next one in order; and the two slots are never the same.
\<close>

theorem ring_slots_exclusive:
  assumes "spsc_reachable capacity s"
  defines "wr \<equiv> unat (p_cached_head (s_prod s) AND r_mask (s_ring s))"
    and "rd \<equiv> unat (c_cached_tail (s_cons s) AND r_mask (s_ring s))"
  shows "(\<forall>v. s_ppc s = PWrite v \<longrightarrow>
      vec_get (r_buffer (s_ring s)) wr = Some None \<and> write_slot (s_ring s) (p_cached_head (s_prod s)) v \<noteq> None) \<and>
    (s_cpc s = CRead \<longrightarrow> (\<exists>r. take_slot (s_ring s) (c_cached_tail (s_cons s)) =
      Some (s_sent s ! length (s_received s), r))) \<and>
    (\<forall>v. s_ppc s = PWrite v \<and> s_cpc s = CRead \<longrightarrow> wr \<noteq> rd)"
proof -
  obtain k where k: "k < 64" "capacity = 2 ^ k" "spsc_inv k s" using spsc_reachable_inv [OF assms(1)] by blast
  note I = spsc_invD [OF k(3)] and g = geometryD [OF spsc_invD(1) [OF k(3)]]
  have wr: "wr = length (s_sent s) mod 2 ^ k" and rd: "rd = length (s_received s) mod 2 ^ k"
    using I(4,5) g by (simp_all add: wr_def rd_def slot_of_count)
  have "vec_get (r_buffer (s_ring s)) wr = Some None \<and> write_slot (s_ring s) (p_cached_head (s_prod s)) v \<noteq> None"
    if "s_ppc s = PWrite v" for v
    using spsc_write(1,2) [OF k(3) that] g(4) by (simp add: wr)
  moreover have "\<exists>r. take_slot (s_ring s) (c_cached_tail (s_cons s)) = Some (s_sent s ! length (s_received s), r)"
    if "s_cpc s = CRead"
    using spsc_read(1) [OF k(3) that] by blast
  moreover have "wr \<noteq> rd" if "s_ppc s = PWrite v" "s_cpc s = CRead" for v
  proof -
    have "length (s_received s) < length (s_sent s)" "length (s_sent s) < length (s_received s) + 2 ^ k"
      using I(6,8,10,11) that by auto
    then show ?thesis using slot_distinct unfolding wr rd by metis
  qed
  ultimately show ?thesis by blast
qed

definition ring_both :: "nat spsc_state" where
  "ring_both = ring_reading\<lparr>s_ppc := PWrite 6\<rparr>"

theorem ring_slots_exclusive_witness:
  "spsc_reachable 2 ring_both \<and> s_ppc ring_both = PWrite 6 \<and> s_cpc ring_both = CRead \<and>
     write_slot (s_ring ring_both) (p_cached_head (s_prod ring_both)) 6 \<noteq> None \<and>
     (\<exists>r. take_slot (s_ring ring_both) (c_cached_tail (s_cons ring_both)) = Some (5, r))"
proof -
  have r: "spsc_reachable 2 ring_both"
    using spsc_reachable.step [OF ring_reading_reachable spsc_step.push_call [of _ 6]]
    by (simp add: ring_both_def ring_reading_def ring_pushed_def ring_started_def looks_full_def)
  have "s_ppc ring_both = PWrite 6" "s_cpc ring_both = CRead" "s_sent ring_both ! length (s_received ring_both) = 5"
    by (simp_all add: ring_both_def ring_reading_def ring_pushed_def ring_started_def)
  with ring_slots_exclusive [OF r] r show ?thesis by auto
qed

text \<open>
  C36. Neither thread ever waits for the other: from every reachable state a call of \<open>push\<close> or of \<open>pop\<close>
  that has begun has a next step of its own, and a load that sees the newest cursor ends in
  \<open>Full\<close> or \<open>Empty\<close> only when the ring really is full or empty.
\<close>

theorem ring_never_stuck:
  assumes "spsc_reachable capacity s"
  shows "(s_ppc s \<noteq> PIdle \<longrightarrow> (\<exists>s'. spsc_step s s' \<and> s_cpc s' = s_cpc s \<and> s_ppc s' \<noteq> s_ppc s)) \<and>
    (s_cpc s \<noteq> CIdle \<longrightarrow> (\<exists>s'. spsc_step s s' \<and> s_ppc s' = s_ppc s \<and> s_cpc s' \<noteq> s_cpc s)) \<and>
    (looks_full (s_ring s) ((s_prod s)\<lparr>p_cached_tail := r_tail (s_ring s)\<rparr>) \<longleftrightarrow>
      length (s_sent s) = length (s_received s) + unat capacity) \<and>
    (looks_empty ((s_cons s)\<lparr>c_cached_head := r_head (s_ring s)\<rparr>) \<longleftrightarrow> length (s_sent s) = length (s_received s))"
proof -
  obtain k where k: "k < 64" "capacity = 2 ^ k" "spsc_inv k s" using spsc_reachable_inv [OF assms(1)] by blast
  note I = spsc_invD [OF k(3)]
  have "\<exists>s'. spsc_step s s' \<and> s_cpc s' = s_cpc s \<and> s_ppc s' \<noteq> s_ppc s" if "s_ppc s \<noteq> PIdle"
  proof (cases "s_ppc s")
    case (PLoad v)
    show ?thesis using spsc_step.push_load [OF PLoad order_refl I(6) refl] PLoad by (auto intro!: exI split: if_splits)
  next
    case (PWrite v)
    show ?thesis using spsc_step.push_write [OF PWrite spsc_write(1) [OF k(3) PWrite]] PWrite by (auto intro!: exI)
  next
    case (PPublish v)
    show ?thesis
      using spsc_step.push_publish [OF PPublish, of "fst (publish_head (s_ring s) (s_prod s))"
        "snd (publish_head (s_ring s) (s_prod s))"] PPublish by (auto intro!: exI)
  qed (use that in simp)
  moreover have "\<exists>s'. spsc_step s s' \<and> s_ppc s' = s_ppc s \<and> s_cpc s' \<noteq> s_cpc s" if "s_cpc s \<noteq> CIdle"
  proof (cases "s_cpc s")
    case CLoad
    show ?thesis using spsc_step.pop_load [OF CLoad order_refl I(8) refl] CLoad by (auto intro!: exI split: if_splits)
  next
    case CRead
    show ?thesis using spsc_step.pop_read [OF CRead spsc_read(1) [OF k(3) CRead]] CRead by (auto intro!: exI)
  next
    case (CPublish v)
    show ?thesis
      using spsc_step.pop_publish [OF CPublish, of "fst (publish_tail (s_ring s) (s_cons s))"
        "snd (publish_tail (s_ring s) (s_cons s))"] CPublish by (auto intro!: exI)
  qed (use that in simp)
  moreover have "looks_full (s_ring s) ((s_prod s)\<lparr>p_cached_tail := r_tail (s_ring s)\<rparr>) \<longleftrightarrow>
      length (s_sent s) = length (s_received s) + unat capacity"
    using looks_full_count [OF I(1), of "length (s_received s)" "length (s_sent s)"] I(3,4,6-9) k(1,2)
    by (simp add: unat_power)
  moreover have "looks_empty ((s_cons s)\<lparr>c_cached_head := r_head (s_ring s)\<rparr>) \<longleftrightarrow> length (s_sent s) = length (s_received s)"
    using looks_empty_count [OF I(1), of "length (s_received s)" "length (s_sent s)"] I(2,5-9) by auto
  ultimately show ?thesis by blast
qed

theorem ring_never_stuck_witness:
  "spsc_reachable 2 ring_reading \<and> s_cpc ring_reading \<noteq> CIdle \<and>
     (\<exists>s'. spsc_step ring_reading s' \<and> s_ppc s' = s_ppc ring_reading \<and> s_cpc s' \<noteq> s_cpc ring_reading)"
proof -
  have "s_cpc ring_reading \<noteq> CIdle" by (simp add: ring_reading_def)
  with ring_never_stuck [OF ring_reading_reachable] ring_reading_reachable show ?thesis by blast
qed

text \<open>Operations on a ring that nobody else uses, and the same on a list.\<close>

datatype 'a ring_op = Push 'a | Pop

datatype 'a ring_result = Pushed "'a + unit" | GotBack "unit + 'a"

fun ring_run :: "'a ring_buffer_inner \<times> producer \<times> consumer \<Rightarrow> 'a ring_op list \<Rightarrow>
    ('a ring_result list \<times> 'a ring_buffer_inner \<times> producer \<times> consumer) option" where
  "ring_run s [] = Some ([], s)"
| "ring_run s (Push v # ops) = do {
     (r, s) \<leftarrow> push_on s v;
     (rs, s) \<leftarrow> ring_run s ops;
     Some (Pushed r # rs, s)
   }"
| "ring_run s (Pop # ops) = do {
     (r, s) \<leftarrow> pop_on s;
     (rs, s) \<leftarrow> ring_run s ops;
     Some (GotBack r # rs, s)
   }"

fun list_run :: "nat \<Rightarrow> 'a list \<Rightarrow> 'a ring_op list \<Rightarrow> 'a ring_result list \<times> 'a list" where
  "list_run cap q [] = ([], q)"
| "list_run cap q (Push v # ops) =
     (if length q < cap then (case list_run cap (q @ [v]) ops of (rs, q') \<Rightarrow> (Pushed (Inr ()) # rs, q'))
      else (case list_run cap q ops of (rs, q') \<Rightarrow> (Pushed (Inl v) # rs, q')))"
| "list_run cap q (Pop # ops) =
     (case q of [] \<Rightarrow> (case list_run cap [] ops of (rs, q') \<Rightarrow> (GotBack (Inl ()) # rs, q'))
      | v # q1 \<Rightarrow> (case list_run cap q1 ops of (rs, q') \<Rightarrow> (GotBack (Inr v) # rs, q')))"

lemma ring_run_quiet:
  "quiet s k q \<Longrightarrow> \<exists>s'. ring_run s ops = Some (fst (list_run (2 ^ k) q ops), s') \<and> quiet s' k (snd (list_run (2 ^ k) q ops))"
proof (induction ops arbitrary: s q)
  case (Cons op ops)
  show ?case
  proof (cases op)
    case (Push v)
    let ?q = "if length q < 2 ^ k then q @ [v] else q"
    obtain s1 where s1: "push_on s v = Some (if length q < 2 ^ k then Inr () else Inl v, s1)" "quiet s1 k ?q"
      using push_quiet [OF Cons.prems] by blast
    from Cons.IH [OF s1(2)] s1(1) Push show ?thesis
      by (cases "length q < 2 ^ k") (auto split: prod.splits)
  next
    case Pop
    obtain s1 where s1: "pop_on s = Some (case q of [] \<Rightarrow> Inl () | x # _ \<Rightarrow> Inr x, s1)" "quiet s1 k (tl q)"
      using pop_quiet [OF Cons.prems] by blast
    from Cons.IH [OF s1(2)] s1(1) Pop show ?thesis by (cases q) (auto split: prod.splits)
  qed
qed simp

text \<open>
  C37. Without interference the ring is a bounded list. Any sequence of pushes and pops on a new ring
  returns what the same sequence returns on a list of at most that many elements, and dropping
  the ring then drops exactly the values left in the list, each once and in order.
\<close>

theorem ring_equals_list:
  assumes "ring_buffer capacity = Some s"
  shows "\<exists>r p c r'. ring_run s ops = Some (fst (list_run (unat capacity) [] ops), r, p, c) \<and>
    drop_ring r = Some (snd (list_run (unat capacity) [] ops), r') \<and>
    r_buffer r' = replicate (unat capacity) None"
proof -
  obtain k where k: "k < 64" "capacity = 2 ^ k" "quiet s k []" using quiet_new [OF assms] by blast
  obtain r p c where "ring_run s ops = Some (fst (list_run (2 ^ k) [] ops), r, p, c)"
    "quiet (r, p, c) k (snd (list_run (2 ^ k) [] ops))"
    using ring_run_quiet [OF k(3), of ops] by auto
  with drop_quiet [OF this(2)] k show ?thesis by (auto simp: unat_power)
qed

theorem ring_equals_list_witness:
  "\<exists>s :: nat ring_buffer_inner \<times> producer \<times> consumer. ring_buffer 2 = Some s \<and>
     (\<exists>r p c r'. ring_run s [Push 1, Push 2, Push 3, Pop, Push 4] =
        Some ([Pushed (Inr ()), Pushed (Inr ()), Pushed (Inl 3), GotBack (Inr 1), Pushed (Inr ())], r, p, c) \<and>
        drop_ring r = Some ([2, 4], r'))"
proof -
  have "is_power_of_two 2" by (auto simp: is_power_of_two_def intro: bexI [of _ 1])
  then obtain s :: "nat ring_buffer_inner \<times> producer \<times> consumer" where s: "ring_buffer 2 = Some s"
    by (simp add: ring_buffer_def)
  from ring_equals_list [OF s, of "[Push 1, Push 2, Push 3, Pop, Push 4]"] s show ?thesis by auto
qed

text \<open>
  \<open>ring_buffer\<close> panics exactly when the capacity is zero or no power of two.
\<close>

theorem ring_buffer_capacity:
  "(ring_buffer capacity :: ('a ring_buffer_inner \<times> producer \<times> consumer) option) \<noteq> None \<longleftrightarrow>
     (\<exists>k. k < 64 \<and> capacity = 2 ^ k)"
proof -
  have "0 < (2 ^ k :: usize)" if "k < 64" for k using that by (simp add: word_gt_0)
  then show ?thesis by (auto simp: ring_buffer_def is_power_of_two_def not_le)
qed

end
