(* ===== verification/Store_Props.thy ===== *)
theory Store_Props
  imports Engine_Props
begin

text \<open>
  The properties of the write-ahead log and of the snapshots (\<open>src/src/wal.rs\<close>, \<open>src/src/snapshot.rs\<close>).
\<close>

section \<open>Reading a log to its end\<close>

text \<open>What a \<open>for\<close> loop over the iterator sees, in at most \<open>n\<close> rounds.\<close>

fun read_all :: "(u8 list \<Rightarrow> u32) \<Rightarrow> wal_iterator \<Rightarrow> nat \<Rightarrow> (wal_error + nat \<times> engine_command) list option" where
  "read_all crc it 0 = Some []"
| "read_all crc it (Suc n) = do {
     (item, it) \<leftarrow> next_record crc it;
     (case item of
        None \<Rightarrow> Some []
      | Some x \<Rightarrow> do { xs \<leftarrow> read_all crc it n; Some (x # xs) })
   }"

lemma read_all_past:
  "at_records crc it ps \<Longrightarrow> i_start_record it \<le> i_current_record it \<Longrightarrow>
     read_all crc it n =
       Some (map (\<lambda>j. record_item (Suc (i_current_record it + j)) (ps ! j)) [0..<min n (length ps)])"
proof (induction n arbitrary: it ps)
  case (Suc n)
  show ?case
  proof (cases ps)
    case Nil
    then show ?thesis using next_end Suc.prems(1) by simp
  next
    case (Cons pl qs)
    obtain it' where nx: "next_record crc it = Some (Some (record_item (Suc (i_current_record it)) pl), it')"
      and it': "at_records crc it' qs" "i_current_record it' = Suc (i_current_record it)" "i_start_record it' = i_start_record it"
      using next_past [OF Suc.prems(1) [unfolded Cons] Suc.prems(2)] by blast
    have "map (\<lambda>j. record_item (Suc (i_current_record it + j)) (ps ! j)) [0..<Suc (min n (length qs))] =
        record_item (Suc (i_current_record it)) pl #
        map (\<lambda>j. record_item (Suc (i_current_record it' + j)) (qs ! j)) [0..<min n (length qs)]"
      unfolding map_upt_Suc by (simp add: Cons it'(2))
    then show ?thesis using nx Suc.IH [OF it'(1)] it'(2,3) Suc.prems(2) Cons by simp
  qed
qed simp

lemma read_all_from:
  assumes "wal_ok crc w ps"
  shows "read_all crc (iter_from w start) n =
    Some (map (\<lambda>j. record_item (Suc (start + j)) (ps ! (start + j))) [0..<min n (length ps - start)])"
proof (cases n)
  case (Suc m)
  have it: "at_records crc (iter_from w start) ps" using assms by (rule iter_from_records)
  have st: "i_current_record (iter_from w start) = 0" "i_start_record (iter_from w start) = start"
    by (simp_all add: iter_from_def)
  show ?thesis
  proof (cases "start < length ps")
    case True
    obtain it' where nx: "next_record crc (iter_from w start) = Some (Some (record_item (Suc start) (ps ! start)), it')"
      and it': "at_records crc it' (drop (Suc start) ps)" "i_current_record it' = Suc start" "i_start_record it' = start"
      using next_skip(2) [OF it] st True by auto
    have len: "min n (length ps - start) = Suc (min m (length ps - Suc start))" using True Suc by simp
    have "map (\<lambda>j. record_item (Suc (start + j)) (ps ! (start + j))) [0..<Suc (min m (length ps - Suc start))] =
        record_item (Suc start) (ps ! start) #
        map (\<lambda>j. record_item (Suc (i_current_record it' + j)) (drop (Suc start) ps ! j)) [0..<min m (length ps - Suc start)]"
      unfolding map_upt_Suc using True by (auto simp: it'(2) nth_drop)
    then show ?thesis using nx read_all_past [OF it'(1)] it'(2,3) Suc len by simp
  next
    case False
    then obtain it' where "next_record crc (iter_from w start) = Some (None, it')" using next_skip(1) [OF it] st by auto
    then show ?thesis using False Suc by simp
  qed
qed simp

section \<open>Samples\<close>

definition sum_crc :: "u8 list \<Rightarrow> u32" where
  "sum_crc bs = 7 + sum_list (map ucast bs)"

text \<open>Sample codecs, which only serialise snapshots of an empty book.\<close>

definition empty_snapshot :: "nat \<Rightarrow> snapshot" where
  "empty_snapshot n = \<lparr>sn_wal_record_count = n, sn_orders = [], sn_best_bid = None, sn_best_ask = None, sn_checksum = 7\<rparr>"

definition sample_codecs :: codecs where
  "sample_codecs = \<lparr>bin_serialize = \<lambda>snap. (let n = sn_wal_record_count snap in
       if n < 256 \<and> snap = empty_snapshot n then Some [of_nat n] else None),
     bin_orders = \<lambda>os. map (\<lambda>x. ucast (o_id x)) os,
     bin_deserialize = \<lambda>bs. (case bs of [b] \<Rightarrow> Some (empty_snapshot (unat b)) | _ \<Rightarrow> None), crc_hash = sum_crc\<rparr>"

definition sample_directory :: directory where
  "sample_directory = [(snapshot_filename 3, [3]), (snapshot_filename 5, [5, 5]), (snapshot_filename 4, [4])]"

lemma sample_log:
  obtains w where "logs sum_crc w [CancelOrder 5, CancelOrder 6]" and "clean w"
proof -
  obtain w0 where w0: "wal_ok sum_crc w0 []" "clean w0" using open_empty [of sum_crc 64] by blast
  obtain w1 where w1: "wal_ok sum_crc w1 [command_bytes (CancelOrder 5)]" "clean w1"
    using append_clean [OF w0, of "CancelOrder 5"] by auto
  obtain w2 where "wal_ok sum_crc w2 [command_bytes (CancelOrder 5), command_bytes (CancelOrder 6)]" "clean w2"
    using append_clean [OF w1, of "CancelOrder 6"] by auto
  then show thesis using that by (simp add: logs_def)
qed

section \<open>The log\<close>

text \<open>
  \<open>align_up\<close> is the least multiple of eight at or above its argument, below the last eight values
  of the word.
\<close>

theorem align_up_least:
  assumes "unat n < 2 ^ 64 - 7"
  shows "8 dvd unat (align_up n) \<and> unat n \<le> unat (align_up n) \<and> unat (align_up n) < unat n + 8"
  using align_up_spec [of n] assms by (auto; linarith)

theorem align_up_least_witness: "8 dvd unat (align_up 41) \<and> 41 \<le> unat (align_up 41) \<and> unat (align_up 41) < 49"
  using align_up_least [of 41] by simp

text \<open>
  C12. \<open>append\<close> returns on every log. The mapping grows only where the record does not fit behind the others,
  to twice its size or, where that is not enough, to what the record needs. Where the record fits, or
  the file can grow, the command is added as the next record, its number is returned, and the bytes
  of the earlier records stay as they are; and only where it does not fit and the file cannot be
  grown and mapped, the error is reported, and the records, the mapped bytes and their size stay as
  they were.
\<close>

theorem append_adds_record:
  assumes "logs crc w cs"
  shows "\<exists>r w'. append crc w c g = Some (r, w') \<and>
    (case r of
       Inr n \<Rightarrow> (record_fits w c \<or> g = GrowOk) \<and> n = Suc (length cs) \<and> logs crc w' (cs @ [c]) \<and>
         take (w_write_pos w) (w_mmap w') = take (w_write_pos w) (w_mmap w) \<and>
         w_mapped_size w' = (if record_fits w c then w_mapped_size w
           else max (w_mapped_size w * 2) (w_write_pos w + record_size (length (command_bytes c))))
     | Inl e \<Rightarrow> e = WalIo \<and> \<not> record_fits w c \<and> g \<noteq> GrowOk \<and> logs crc w' cs \<and> w_mmap w' = w_mmap w \<and>
         w_mapped_size w' = w_mapped_size w)"
  using append_exact [OF assms [unfolded logs_def], of c g] unfolding logs_def map_append list.map length_map .

text \<open>An append to a mapping that is full, where the file cannot grow, and where it can.\<close>

theorem append_adds_record_witness:
  "\<exists>w w' w''. logs sum_crc w [] \<and> append sum_crc w (CancelOrder 5) SetLenFails = Some (Inl WalIo, w') \<and> logs sum_crc w' [] \<and>
     append sum_crc w (CancelOrder 5) GrowOk = Some (Inr 1, w'') \<and> logs sum_crc w'' [CancelOrder 5] \<and> w_mapped_size w'' = 24"
proof -
  obtain w where w: "open_with_size sum_crc [] 8 GrowOk = Some (Inr w)" "logs sum_crc w []"
    using open_empty [of sum_crc 8] by (auto simp: logs_def)
  have m: "w_mapped_size w = 8"
    using w open_ok [of sum_crc "[]" 8] by (auto simp: wal_ok_def)
  have "w_write_pos w = 0" using w(2) by (simp add: logs_def wal_ok_def)
  with m have f: "\<not> record_fits w (CancelOrder 5)" "w_write_pos w + record_size (length (command_bytes (CancelOrder 5))) = 24"
    by (simp_all add: record_fits_def record_size_eq)
  have "\<exists>w'. append sum_crc w (CancelOrder 5) SetLenFails = Some (Inl WalIo, w') \<and> logs sum_crc w' []"
    using append_adds_record [OF w(2), of "CancelOrder 5" SetLenFails] f(1) by (auto simp: split_sum_ex)
  moreover have "\<exists>w''. append sum_crc w (CancelOrder 5) GrowOk = Some (Inr 1, w'') \<and> logs sum_crc w'' [CancelOrder 5] \<and>
      w_mapped_size w'' = 24"
    using append_adds_record [OF w(2), of "CancelOrder 5" GrowOk] f m by (auto simp: split_sum_ex)
  ultimately show ?thesis using w(2) by blast
qed

text \<open>
  C13. Every file whatsoever can be opened: the scan ends, without reading out of range, at the end of
  the longest chain of records with a fitting checksum from the start of the file, and the count is
  its length.
\<close>

theorem open_any_file:
  "\<exists>w ps. open_with_size crc bytes n GrowOk = Some (Inr w) \<and> w_mmap w = bytes @ replicate (n - length bytes) 0 \<and>
     chain crc (w_mmap w) 0 ps (w_write_pos w) \<and> no_rec crc (w_mmap w) (w_write_pos w) \<and>
     w_record_count w = length ps \<and> w_write_pos w \<le> length (w_mmap w)"
proof -
  obtain w ps where w: "open_with_size crc bytes n GrowOk = Some (Inr w)" "wal_ok crc w ps"
    "no_rec crc (w_mmap w) (w_write_pos w)" "w_mmap w = bytes @ replicate (n - length bytes) 0"
    using open_ok by blast
  with wal_ok_pos [OF w(2)] show ?thesis by (auto simp: wal_ok_def)
qed

text \<open>
  A torn tail costs no complete record. Whatever bytes follow the records of a log, and
  however the file was cut behind them, opening it finds these records first.
\<close>

theorem torn_tail_keeps_records:
  assumes "wal_ok crc w ps" and "bytes = take (w_write_pos w) (w_mmap w) @ tail"
  shows "\<exists>w' qs. open_with_size crc bytes n GrowOk = Some (Inr w') \<and> wal_ok crc w' (ps @ qs)"
proof -
  have "take (w_write_pos w) bytes = take (w_write_pos w) (w_mmap w)" "w_write_pos w \<le> length bytes"
    using wal_ok_pos [OF assms(1)] by (auto simp: assms(2))
  from reopen_prefix [OF assms(1) this, of n] show ?thesis by blast
qed

theorem torn_tail_keeps_records_witness:
  "\<exists>w w' qs. wal_ok sum_crc w [cancel_order_bytes 5, cancel_order_bytes 6] \<and>
     open_with_size sum_crc (take (w_write_pos w) (w_mmap w) @ [40, 0, 0, 0, 1, 2, 3]) 64 GrowOk = Some (Inr w') \<and>
     wal_ok sum_crc w' ([cancel_order_bytes 5, cancel_order_bytes 6] @ qs)"
proof -
  obtain w where "logs sum_crc w [CancelOrder 5, CancelOrder 6]" by (rule sample_log)
  then have w: "wal_ok sum_crc w [cancel_order_bytes 5, cancel_order_bytes 6]" by (simp add: logs_def)
  from torn_tail_keeps_records [OF w refl, of "[40, 0, 0, 0, 1, 2, 3]" 64] w show ?thesis by blast
qed

text \<open>
  C14. Reading the log gives back what was appended: from a start record, the commands after it in
  order with their numbers, and then the iteration ends. Only the time stamps are lost.
\<close>

theorem log_read_back:
  assumes "logs crc w cs" and "\<forall>c \<in> set cs. loggable c" and "length cs < n"
  shows "read_all crc (iter_from w start) n =
    Some (map (\<lambda>j. Inr (Suc j, strip_time (cs ! j))) [start..<length cs])"
proof -
  have len: "min n (length (map command_bytes cs) - start) = length cs - start" using assms(3) by simp
  have "map (\<lambda>j. record_item (Suc (start + j)) (map command_bytes cs ! (start + j))) [0..<length cs - start] =
      map (\<lambda>j. Inr (Suc j, strip_time (cs ! j))) [start..<length cs]"
    using assms(2) by (intro nth_equalityI) (auto simp: record_item_def decode_command_bytes)
  then show ?thesis using read_all_from [OF assms(1) [unfolded logs_def], of start n] unfolding len by simp
qed

theorem log_read_back_witness:
  "\<exists>w. logs sum_crc w [CancelOrder 5, CancelOrder 6] \<and>
     read_all sum_crc (iter_from w 0) 5 = Some [Inr (1, CancelOrder 5), Inr (2, CancelOrder 6)] \<and>
     read_all sum_crc (iter_from w 1) 5 = Some [Inr (2, CancelOrder 6)]"
proof -
  obtain w where w: "logs sum_crc w [CancelOrder 5, CancelOrder 6]" by (rule sample_log)
  have "\<forall>c \<in> set [CancelOrder 5, CancelOrder 6]. loggable c" by simp
  from log_read_back [OF w this, of 5 0] log_read_back [OF w this, of 5 1] w show ?thesis
    by (auto simp: upt_rec)
qed

text \<open>
  C40. Once a file has been opened, reading its log never reports a corrupt or a truncated record:
  the scan has already ended in front of it. The only error left is a record that is no command.
\<close>

theorem opened_log_never_corrupt:
  assumes "open_with_size crc bytes size0 g = Some (Inr w)"
  shows "\<exists>items. read_all crc (iter_from w start) n = Some items \<and>
    (\<forall>x \<in> set items. (\<exists>j c. x = Inr (j, c)) \<or> (\<exists>e. x = Inl (WalProtocol e)))"
proof -
  have "open_with_size crc bytes size0 g = open_with_size crc bytes size0 GrowOk"
    using assms by (auto simp: open_with_size_def Let_def split: if_splits)
  then obtain ps where ok: "wal_ok crc w ps" using assms open_ok [of crc bytes size0] by auto
  show ?thesis
    using read_all_from [OF ok, of start n] by (auto simp: record_item_def split: sum.splits)
qed

theorem opened_log_never_corrupt_witness:
  "\<exists>w items. open_with_size sum_crc [16, 0, 0, 0, 1, 2] 64 GrowOk = Some (Inr w) \<and>
     read_all sum_crc (iter_from w 0) 9 = Some items \<and> (\<forall>x \<in> set items. (\<exists>j c. x = Inr (j, c)) \<or> (\<exists>e. x = Inl (WalProtocol e)))"
proof -
  obtain w where w: "open_with_size sum_crc [16, 0, 0, 0, 1, 2] 64 GrowOk = Some (Inr w)"
    using open_ok [of sum_crc "[16, 0, 0, 0, 1, 2]" 64] by blast
  from opened_log_never_corrupt [OF w, of 0 9] w show ?thesis by blast
qed

text \<open>
  \<open>truncate_to\<close> at the end of the first records drops the later ones and nothing else, and
  leaves zeros where they were.
\<close>

theorem truncate_drops_tail:
  assumes "wal_ok crc w (ps @ qs)" and "chain crc (w_mmap w) 0 ps off"
  shows "\<exists>w'. truncate_to w off (length ps) = Some w' \<and> wal_ok crc w' ps \<and> (clean w \<longrightarrow> clean w')"
  using truncate_spec [OF assms] .

theorem truncate_drops_tail_witness:
  "\<exists>w off w'. wal_ok sum_crc w [cancel_order_bytes 5, cancel_order_bytes 6] \<and>
     truncate_to w off 1 = Some w' \<and> wal_ok sum_crc w' [cancel_order_bytes 5] \<and> clean w'"
proof -
  obtain w where "logs sum_crc w [CancelOrder 5, CancelOrder 6]" and cl: "clean w" by (rule sample_log)
  then have w: "wal_ok sum_crc w ([cancel_order_bytes 5] @ [cancel_order_bytes 6])" by (simp add: logs_def)
  then obtain off where "chain sum_crc (w_mmap w) 0 [cancel_order_bytes 5] off"
    unfolding wal_ok_def chain_append by blast
  from truncate_drops_tail [OF w this] w cl show ?thesis by auto
qed

text \<open>
  C39. Opening a log ends it in front of a damaged record and leaves the bytes behind it. Where a
  later record starts right after the place of the damaged one, the next append of a command of
  that size makes it part of the log again: the next open finds the appended command and then
  the stale record, which the log did not hold when the command was appended.
\<close>

theorem stale_records_return:
  assumes "wal_ok crc w ps"
    and "is_rec crc (w_mmap w) (w_write_pos w + record_size (length (command_bytes c))) pl"
  shows "\<exists>w' w'' qs. append crc w c g = Some (Inr (Suc (length ps)), w') \<and> wal_ok crc w' (ps @ [command_bytes c]) \<and>
    open_with_size crc (wal_file w') n GrowOk = Some (Inr w'') \<and> wal_ok crc w'' (ps @ command_bytes c # pl # qs)"
  using stale_record_joins [OF assms] .

definition damaged_file :: "u8 list" where
  "damaged_file = [16, 0, 0, 0, 0, 0, 0, 0] @ cancel_order_bytes 6 @ record_bytes sum_crc (cancel_order_bytes 7)"

lemma damaged_bytes:
  "damaged_file = [16, 0, 0, 0, 0, 0, 0, 0, 2, 0, 0, 0, 0, 0, 0, 0, 6, 0, 0, 0, 0, 0, 0, 0,
     16, 0, 0, 0, 16, 0, 0, 0, 2, 0, 0, 0, 0, 0, 0, 0, 7, 0, 0, 0, 0, 0, 0, 0]"
  by code_simp

lemma damaged_opens_empty:
  obtains w where "open_with_size sum_crc damaged_file 48 GrowOk = Some (Inr w)" and "wal_ok sum_crc w []"
    and "is_rec sum_crc (w_mmap w) (w_write_pos w + record_size 16) (cancel_order_bytes 7)"
proof -
  obtain w ps where w: "open_with_size sum_crc damaged_file 48 GrowOk = Some (Inr w)" "wal_ok sum_crc w ps"
    "w_mmap w = damaged_file"
    using open_ok [of sum_crc damaged_file 48] by (auto simp: damaged_bytes)
  have no: "\<not> is_rec sum_crc damaged_file 0 pl" for pl
  proof
    assume r: "is_rec sum_crc damaged_file 0 pl"
    have "u32_at damaged_file 0 = Some 16" "u32_at damaged_file 4 = Some 0" by (code_simp, code_simp)
    then have "length pl = 16" "sum_crc pl = 0" using is_rec_read(3,4,5) [OF r] by auto
    moreover from this have "pl = take 16 (drop 8 damaged_file)" using r by (simp add: is_rec_def)
    moreover have "sum_crc (take 16 (drop 8 damaged_file)) = 15" by code_simp
    ultimately show False by simp
  qed
  have rs: "record_size 16 = 24" by (simp add: record_size_eq)
  have ps: "ps = []" using w(2,3) no by (cases ps) (auto simp: wal_ok_def)
  then have "w_write_pos w = 0" using w(2) by (simp add: wal_ok_def)
  moreover have "is_rec sum_crc damaged_file 24 (cancel_order_bytes 7)"
  proof -
    have c7: "cancel_order_bytes 7 = [2, 0, 0, 0, 0, 0, 0, 0, 7, 0, 0, 0, 0, 0, 0, 0]" by code_simp
    have "to_le 4 (16 :: u32) = [16, 0, 0, 0]" "to_le 4 (sum_crc (cancel_order_bytes 7)) = [16, 0, 0, 0]" by (code_simp, code_simp)
    then show ?thesis unfolding is_rec_def by (simp add: damaged_bytes record_size_eq c7 del: to_le.simps)
  qed
  ultimately show thesis using that w ps rs by simp
qed

theorem stale_records_return_witness:
  "\<exists>w w' w'' qs. open_with_size sum_crc damaged_file 48 GrowOk = Some (Inr w) \<and> w_record_count w = 0 \<and>
     append sum_crc w (CancelOrder 8) GrowOk = Some (Inr 1, w') \<and>
     open_with_size sum_crc (wal_file w') 48 GrowOk = Some (Inr w'') \<and>
     wal_ok sum_crc w'' (cancel_order_bytes 8 # cancel_order_bytes 7 # qs)"
proof -
  obtain w where w: "open_with_size sum_crc damaged_file 48 GrowOk = Some (Inr w)" "wal_ok sum_crc w []"
    "is_rec sum_crc (w_mmap w) (w_write_pos w + record_size 16) (cancel_order_bytes 7)" by (rule damaged_opens_empty)
  have "length (command_bytes (CancelOrder 8)) = 16" by simp
  with stale_records_return [OF w(2), of "CancelOrder 8" "cancel_order_bytes 7" GrowOk 48] w show ?thesis
    by (auto simp: wal_ok_def)
qed

section \<open>Snapshots\<close>

text \<open>
  C18. A snapshot of a book restores that book. \<open>capture\<close> returns, its checksum verifies, and \<open>restore\<close>
  rebuilds every resting order in its place in the queue, with the best prices the snapshot
  recorded; with too small an arena it is refused.
\<close>

theorem snapshot_roundtrip:
  assumes "represents (e_book e) A"
  shows "\<exists>snap. capture k e n = Some snap \<and> sn_wal_record_count snap = n \<and> verify_checksum k snap = Inr () \<and>
    (if length (resting A) \<le> unat c
     then \<exists>e'. restore snap c = Some (Inr e') \<and> represents (e_book e') A \<and>
       best_bid (e_book e') = sn_best_bid snap \<and> best_ask (e_book e') = sn_best_ask snap
     else \<exists>err. restore snap c = Some (Inl (Restore err)))"
proof -
  obtain snap where snap: "capture k e n = Some snap" "sn_wal_record_count snap = n" "sn_orders snap = resting A"
    "sn_best_bid snap = best_price (A Bid)" "sn_best_ask snap = best_price (A Ask)"
    "sn_checksum snap = compute_checksum k (resting A)"
    using that [OF capture_spec [OF assms, of k n]] by simp
  show ?thesis
  proof (cases "length (resting A) \<le> unat c")
    case True
    from restore_spec [OF assms True snap(3)] obtain e' where e': "restore snap c = Some (Inr e')" "represents (e_book e') A"
      by blast
    then show ?thesis
      using snap True best_represents [OF e'(2), of Bid] best_represents [OF e'(2), of Ask]
      by (auto simp: verify_checksum_def)
  next
    case False
    then obtain err where "restore_from_orders (resting A) c = Some (Inl err)"
      using restore_refines [of "resting A" c] by auto
    then show ?thesis using snap False by (auto simp: verify_checksum_def restore_def)
  qed
qed

theorem snapshot_roundtrip_witness:
  "\<exists>(e :: matching_engine) snap e'. represents (e_book e) sample_book \<and> capture sample_codecs e 2 = Some snap \<and>
     verify_checksum sample_codecs snap = Inr () \<and> restore snap 9 = Some (Inr e') \<and> represents (e_book e') sample_book"
proof -
  obtain e :: matching_engine where e: "represents (e_book e) sample_book" by (rule sample_engine)
  have "length (resting sample_book) \<le> unat (9 :: u32)" by (simp add: resting_def)
  with snapshot_roundtrip [OF e, of sample_codecs 2 9] e show ?thesis by auto
qed

text \<open>
  C19. Of all snapshot files in the directory, \<open>load_latest\<close> returns the one with the greatest name
  among those that can be read, deserialise and carry a fitting checksum, and none only if there
  is no such file; a damaged file never hides a good one.
\<close>

theorem load_latest_newest_valid:
  assumes "hm_inv d"
  shows "case load_latest k True readable (Some d) of
      Inl e \<Rightarrow> False
    | Inr None \<Rightarrow> (\<forall>f snap. is_snapshot_name f \<longrightarrow> \<not> valid_file k readable d f snap)
    | Inr (Some snap) \<Rightarrow> (\<exists>f. is_snapshot_name f \<and> valid_file k readable d f snap \<and>
        (\<forall>g s. is_snapshot_name g \<and> valid_file k readable d g s \<longrightarrow> g \<le> f))"
proof -
  have listed: "f \<in> set (snapshot_files d)" if "is_snapshot_name f" "valid_file k readable d f s" for f s
    using that hash.in_keys [OF assms, of f]
    by (auto simp: set_snapshot_files valid_file_def load_from_file_def split: option.splits)
  show ?thesis
  proof (cases "load_loop k readable d (snapshot_files d)")
    case None
    then show ?thesis using load_loop_spec(1) [OF None] listed by (auto simp: load_latest_files)
  next
    case (Some snap)
    from load_loop_spec(2) [OF this] obtain us f vs where f: "snapshot_files d = us @ f # vs"
      "valid_file k readable d f snap" "\<forall>u \<in> set us. \<forall>s. \<not> valid_file k readable d u s" by blast
    have srt: "sorted_wrt (\<ge>) (snapshot_files d)" by (simp add: snapshot_files_def sorted_wrt_rev)
    have "g \<le> f" if "is_snapshot_name g" "valid_file k readable d g s" for g s
      using listed [OF that] that(2) f srt by (auto simp: sorted_wrt_append)
    moreover have "is_snapshot_name f" using f(1) set_snapshot_files [of d] by auto
    ultimately show ?thesis using Some f(2) by (auto simp: load_latest_files)
  qed
qed

theorem load_latest_newest_valid_witness:
  "hm_inv sample_directory \<and> (\<exists>f snap. load_latest sample_codecs True (\<lambda>_. True) (Some sample_directory) = Inr (Some snap) \<and>
     sn_wal_record_count snap = 4 \<and> valid_file sample_codecs (\<lambda>_. True) sample_directory f snap \<and>
     (\<forall>g s. is_snapshot_name g \<and> valid_file sample_codecs (\<lambda>_. True) sample_directory g s \<longrightarrow> g \<le> f))"
proof -
  have inv: "hm_inv sample_directory" by code_simp
  have "map_option sn_wal_record_count (projr (load_latest sample_codecs True (\<lambda>_. True) (Some sample_directory))) = Some 4"
    by code_simp
  with load_latest_newest_valid [OF inv, of sample_codecs "\<lambda>_. True"] inv show ?thesis
    by (auto split: sum.splits option.splits)
qed

text \<open>A half-written file has another name until it is complete.\<close>

lemma failed_save_unseen:
  assumes "save k snap dir io = (Inl e, dir')" and "\<forall>d. dir = Some d \<longrightarrow> hm_inv d"
  shows "load_latest k True readable dir' = load_latest k True readable dir"
proof -
  let ?d = "case dir of None \<Rightarrow> [] | Some d \<Rightarrow> d"
  have inv: "hm_inv ?d" using assms(2) hash.invar_empty by (cases dir) auto
  have "load_latest k True readable (Some ?d) = load_latest k True readable dir"
    by (cases dir) (auto simp: load_latest_def hm_keys_def)
  note seen = this save_tmp_unseen [OF refl inv, of k readable "sn_wal_record_count snap"]
  show ?thesis
  proof (cases "bin_serialize k snap")
    case None
    then show ?thesis using assms(1) seen(1) by (cases io) (simp_all add: save_def Let_def)
  next
    case (Some data)
    then show ?thesis using assms(1) seen(1) seen(2) [of data] by (cases io) (auto simp: save_def Let_def seen(2))
  qed
qed

lemma saved_is_latest:
  assumes "bin_serialize k snap = Some data" and "bin_deserialize k data = Some snap"
    and "verify_checksum k snap = Inr ()" and "hm_inv d"
    and "\<forall>f \<in> set (hm_keys d). is_snapshot_name f \<longrightarrow> (\<exists>m \<le> sn_wal_record_count snap. f = snapshot_filename m)"
    and "sn_wal_record_count snap < 10 ^ 10" and "readable (snapshot_filename (sn_wal_record_count snap))"
  shows "\<exists>d'. save k snap (Some d) SaveOk = (Inr (snapshot_filename (sn_wal_record_count snap)), Some d') \<and>
    load_latest k True readable (Some d') = Inr (Some snap)"
proof -
  let ?f = "snapshot_filename (sn_wal_record_count snap)"
  obtain d' where d': "save k snap (Some d) SaveOk = (Inr ?f, Some d')" "hm_inv d'"
    and get: "hm_get d' f = (if f = ?f then Some data else if f = ?f @ ''.tmp'' then None else hm_get d f)" for f
    using save_ok [OF assms(1,4)] by blast
  have "f \<le> ?f" if "f \<in> set (filter is_snapshot_name (hm_keys d'))" for f
  proof (cases "f = ?f")
    case False
    then have "f \<in> set (hm_keys d)" using that hash.in_keys [OF d'(2)] hash.in_keys [OF assms(4)] get [of f] by (auto split: if_splits)
    moreover have "is_snapshot_name f" using that by simp
    ultimately obtain m where "m \<le> sn_wal_record_count snap" "f = snapshot_filename m" using assms(5) by blast
    then show ?thesis using filename_less [of "sn_wal_record_count snap" m] assms(6) by (simp add: not_less [symmetric])
  qed simp
  moreover have "?f \<in> set (filter is_snapshot_name (hm_keys d'))"
    using hash.in_keys [OF d'(2), of ?f] get [of ?f] by (simp add: filename_is_snapshot)
  ultimately obtain fs where "snapshot_files d' = ?f # fs" unfolding snapshot_files_def by (metis rev_sort_hd)
  moreover have "load_from_file k readable d' ?f = Inr snap" using get [of ?f] assms(2,7) by (simp add: load_from_file_def)
  ultimately show ?thesis using d'(1) assms(3) by (simp add: load_latest_files)
qed

text \<open>
  C20. A save is seen completely or not at all. Where it fails, wherever it fails, \<open>load_latest\<close> returns
  what it returned before. Where it succeeds, the file has the name of the count, and \<open>load_latest\<close>
  returns the saved snapshot, as long as \<open>bincode\<close> reads back what it wrote, the other snapshots were
  taken no later and the count fits the ten digits of the name.
\<close>

theorem save_outcome:
  assumes "save k snap (Some d) io = (r, dir')" and "hm_inv d"
  shows "case r of
      Inl e \<Rightarrow> load_latest k True readable dir' = load_latest k True readable (Some d)
    | Inr f \<Rightarrow> f = snapshot_filename (sn_wal_record_count snap) \<and>
        ((\<forall>data. bin_serialize k snap = Some data \<longrightarrow> bin_deserialize k data = Some snap) \<and>
         verify_checksum k snap = Inr () \<and> sn_wal_record_count snap < 10 ^ 10 \<and> readable f \<and>
         (\<forall>g \<in> set (hm_keys d). is_snapshot_name g \<longrightarrow> (\<exists>m \<le> sn_wal_record_count snap. g = snapshot_filename m)) \<longrightarrow>
         load_latest k True readable dir' = Inr (Some snap))"
proof (cases r)
  case (Inl e)
  then show ?thesis using failed_save_unseen [of k snap "Some d" io e dir' readable] assms by simp
next
  case (Inr f)
  then obtain data where "bin_serialize k snap = Some data" "io = SaveOk" "f = snapshot_filename (sn_wal_record_count snap)"
    using assms(1) by (auto simp: save_def Let_def split: if_splits option.splits save_io.splits)
  then show ?thesis using Inr assms saved_is_latest [of k snap data d readable] by auto
qed

theorem save_outcome_witness:
  "(\<exists>e dir'. save sample_codecs (empty_snapshot 9) (Some sample_directory) RenameFails = (Inl e, dir') \<and>
      load_latest sample_codecs True (\<lambda>_. True) dir' = load_latest sample_codecs True (\<lambda>_. True) (Some sample_directory)) \<and>
   (\<exists>dir'. save sample_codecs (empty_snapshot 9) (Some sample_directory) SaveOk = (Inr (snapshot_filename 9), dir') \<and>
      load_latest sample_codecs True (\<lambda>_. True) dir' = Inr (Some (empty_snapshot 9)))"
proof -
  let ?s = "empty_snapshot 9" and ?save = "save sample_codecs (empty_snapshot 9) (Some sample_directory)"
  have "\<forall>data. bin_serialize sample_codecs ?s = Some data \<longrightarrow> bin_deserialize sample_codecs data = Some ?s"
    "verify_checksum sample_codecs ?s = Inr ()" and n: "sn_wal_record_count ?s = 9"
    by (simp_all add: sample_codecs_def empty_snapshot_def verify_checksum_def compute_checksum_def sum_crc_def)
  moreover have "\<forall>f \<in> set (hm_keys sample_directory). is_snapshot_name f \<longrightarrow>
      (\<exists>m \<le> sn_wal_record_count ?s. f = snapshot_filename m)"
  proof -
    have "\<exists>m \<le> 9. snapshot_filename j = snapshot_filename m" if "j \<le> 9" for j :: nat using that by blast
    then show ?thesis by (simp add: sample_directory_def hm_keys_def empty_snapshot_def)
  qed
  ultimately have good: "(\<forall>data. bin_serialize sample_codecs ?s = Some data \<longrightarrow> bin_deserialize sample_codecs data = Some ?s) \<and>
      verify_checksum sample_codecs ?s = Inr () \<and> (\<forall>f \<in> set (hm_keys sample_directory). is_snapshot_name f \<longrightarrow>
      (\<exists>m \<le> sn_wal_record_count ?s. f = snapshot_filename m))" by blast
  obtain e where f: "fst (?save RenameFails) = Inl e"
    by (simp add: save_def sample_codecs_def empty_snapshot_def Let_def)
  have t: "fst (?save SaveOk) = Inr (snapshot_filename 9)"
    by (simp add: save_def sample_codecs_def empty_snapshot_def Let_def)
  have inv: "hm_inv sample_directory" by code_simp
  obtain d1 d2 where s: "?save RenameFails = (Inl e, d1)" "?save SaveOk = (Inr (snapshot_filename 9), d2)"
    using f t by (metis prod.collapse)
  from save_outcome [OF s(1) inv, of "\<lambda>_. True"] save_outcome [OF s(2) inv, of "\<lambda>_. True"] good n s
  show ?thesis by auto
qed

text \<open>
  Beyond ten digits the order of the names is no longer that of the counts: the name of the
  snapshot at ten thousand million records sorts before that of the one at a record less.
\<close>

theorem filename_order_breaks: "snapshot_filename 10000000000 < snapshot_filename 9999999999"
  by (simp add: snapshot_filename_def pad10_def decimal.simps digit_def less_char_def)

end
