(* ===== verification/Gateway.thy ===== *)
theory Gateway
  imports Recovery Ring_Concurrent
begin

text \<open>
  \<open>src/src/gateway.rs\<close>: the TCP side that frames and decodes commands, the matching thread that logs
  them, applies them and multicasts a report per fill, and the start-up. The sockets are data: a
  client stream is the bytes it delivers and how it ends; the datagrams handed to \<open>send_to\<close> are
  collected. The ring between the two threads is \<open>Ring_Concurrent\<close>; the retry loop around \<open>push\<close> and
  the shutdown handshake are the step relation at the end.
\<close>

section \<open>Data\<close>

record gateway_config =
  g_listen_addr :: "nat list \<times> nat"
  g_multicast_addr :: "nat list \<times> nat"
  g_ring_capacity :: usize
  g_arena_capacity :: u32
  g_data_dir :: "string option"
  g_snapshot_interval :: nat

definition gateway_config_default :: gateway_config where
  "gateway_config_default =
     \<lparr>g_listen_addr = ([0, 0, 0, 0], 9000), g_multicast_addr = ([239, 1, 1, 1], 9001),
      g_ring_capacity = 65536, g_arena_capacity = 1048576, g_data_dir = None, g_snapshot_interval = 10000\<rparr>"

datatype gateway_error = GwIo | GwProtocol protocol_error

text \<open>How a client stream ends: in order, by a reset, or with another error.\<close>

datatype stream_end = Eof | ConnReset | ReadFails

section \<open>The client side\<close>

text \<open>
  \<open>now_nanos\<close> of a system clock that stands \<open>clock\<close> nanoseconds after the epoch (before it, where
  negative: \<open>duration_since\<close> fails there and \<open>unwrap_or_default\<close> is zero). The cast keeps the low 64 bits.
\<close>

definition now_nanos :: "int \<Rightarrow> u64" where
  "now_nanos clock =
     (let duration_since = (if clock < 0 then None else Some (nat clock)) in
      of_nat (case duration_since of None \<Rightarrow> 0 | Some nanos \<Rightarrow> nanos))"

text \<open>Where a read finds no more bytes: the loop breaks and the flag is set, or the error is returned.\<close>

fun end_of_stream :: "stream_end \<Rightarrow> engine_command list \<times> (gateway_error + unit) \<times> bool" where
  "end_of_stream ReadFails = ([], Inl GwIo, False)"
| "end_of_stream _ = ([], Inr (), True)"

fun stamp :: "u64 \<Rightarrow> engine_command \<Rightarrow> engine_command" where
  "stamp t (NewOrder ord) = NewOrder (ord\<lparr>o_timestamp := t\<rparr>)"
| "stamp t (CancelOrder d) = CancelOrder d"

text \<open>
  The commands given to \<open>push\<close>, in order, the result, and whether the flag \<open>shutdown\<close> was set.
  \<open>now i\<close> is what \<open>now_nanos()\<close> returns for the \<open>i\<close>-th message.
\<close>

function handle_client ::
  "(nat \<Rightarrow> u64) \<Rightarrow> nat \<Rightarrow> stream_end \<Rightarrow> u8 list \<Rightarrow> engine_command list \<times> (gateway_error + unit) \<times> bool" where
  "handle_client now i fin bytes =
     (case bytes of
        [] \<Rightarrow> end_of_stream fin
      | msg_type # rest \<Rightarrow>
          (case message_size msg_type of
             Inl e \<Rightarrow> ([], Inl (GwProtocol e), False)
           | Inr sz \<Rightarrow>
               (if sz - 1 \<le> length rest then
                  let msg_buf = splice ((replicate 48 0)[0 := msg_type]) 1 (take (sz - 1) rest) in
                  (case decode_message (take sz msg_buf) of
                     Inl e \<Rightarrow> ([], Inl (GwProtocol e), False)
                   | Inr cmd \<Rightarrow>
                       (case handle_client now (i + 1) fin (drop (sz - 1) rest) of
                          (cmds, r, b) \<Rightarrow> (stamp (now i) cmd # cmds, r, b)))
                else end_of_stream fin)))"
  by pat_completeness auto

termination by (relation "measure (\<lambda>(now, i, fin, bytes). length bytes)") auto

declare handle_client.simps [simp del]

section \<open>The matching thread\<close>

record matcher =
  m_engine :: matching_engine
  m_wal :: "wal option"
  m_seq_num :: u32
  m_report_buf :: "u8 list"
  m_sent :: "u8 list list"

text \<open>\<open>for fill in &result.fills\<close>\<close>

fun report_fills :: "matcher \<Rightarrow> u64 \<Rightarrow> fill list \<Rightarrow> matcher" where
  "report_fills m timestamp [] = m"
| "report_fills m timestamp (fill # fills) =
     (let m = m\<lparr>m_seq_num := m_seq_num m + 1\<rparr> in
      case encode_execution_report (m_report_buf m) (m_seq_num m) fill timestamp of
        (Inr _, buf) \<Rightarrow> report_fills (m\<lparr>m_report_buf := buf, m_sent := m_sent m @ [buf]\<rparr>) timestamp fills
      | (Inl _, buf) \<Rightarrow> report_fills (m\<lparr>m_report_buf := buf\<rparr>) timestamp fills)"

definition process_command :: "(u8 list \<Rightarrow> u32) \<Rightarrow> engine_command \<Rightarrow> matcher \<Rightarrow> grow \<Rightarrow> matcher option" where
  "process_command crc cmd m g = do {
     m \<leftarrow> (case m_wal m of
       Some w \<Rightarrow> do { (_, w) \<leftarrow> append crc w cmd g; Some (m\<lparr>m_wal := Some w\<rparr>) }
     | None \<Rightarrow> Some m);
     (case cmd of
        NewOrder ord \<Rightarrow> do {
          let timestamp = o_timestamp ord;
          (r, engine) \<leftarrow> add_order (m_engine m) ord;
          let m = m\<lparr>m_engine := engine\<rparr>;
          Some (case r of Inr result \<Rightarrow> report_fills m timestamp (r_fills result) | Inl _ \<Rightarrow> m)
        }
      | CancelOrder order_id \<Rightarrow> do {
          (_, engine) \<leftarrow> engine_cancel_order (m_engine m) order_id;
          Some (m\<lparr>m_engine := engine\<rparr>)
        })
   }"

text \<open>The state of \<open>matching_loop\<close>; \<open>l_dir\<close> is the snapshot directory, where there is one.\<close>

record loop_state =
  l_matcher :: matcher
  l_cmds_since_snapshot :: nat
  l_dir :: "directory option option"

definition start_loop :: "matching_engine \<Rightarrow> wal option \<Rightarrow> directory option option \<Rightarrow> loop_state" where
  "start_loop engine wal dir =
     \<lparr>l_matcher = \<lparr>m_engine = engine, m_wal = wal, m_seq_num = 0, m_report_buf = replicate EXECUTION_REPORT_SIZE 0,
        m_sent = []\<rparr>, l_cmds_since_snapshot = 0, l_dir = dir\<rparr>"

text \<open>The arm \<open>Ok(cmd)\<close> of the loop.\<close>

definition on_command :: "codecs \<Rightarrow> nat \<Rightarrow> loop_state \<Rightarrow> engine_command \<Rightarrow> grow \<Rightarrow> save_io \<Rightarrow> loop_state option" where
  "on_command k snapshot_interval st cmd g io = do {
     m \<leftarrow> process_command (crc_hash k) cmd (l_matcher st) g;
     let st = st\<lparr>l_matcher := m, l_cmds_since_snapshot := l_cmds_since_snapshot st + 1\<rparr>;
     (case (m_wal m, l_dir st) of
        (Some w, Some dir) \<Rightarrow>
          (if l_cmds_since_snapshot st \<ge> snapshot_interval then do {
             snap \<leftarrow> capture k (m_engine m) (w_record_count w);
             Some (st\<lparr>l_dir := Some (snd (save k snap dir io)), l_cmds_since_snapshot := 0\<rparr>)
           } else Some st)
      | _ \<Rightarrow> Some st)
   }"

text \<open>
  What the loop observes in turn: a command popped (with what the file system will answer), or an
  empty ring and the value of \<open>shutdown\<close>. The result is the state and whether the loop has ended.
\<close>

datatype observation = Popped engine_command grow save_io | EmptySeen bool

fun drain_loop :: "codecs \<Rightarrow> loop_state \<Rightarrow> observation list \<Rightarrow> (loop_state \<times> bool) option" where
  "drain_loop k st [] = Some (st, False)"
| "drain_loop k st (Popped cmd g io # obs) = do {
     m \<leftarrow> process_command (crc_hash k) cmd (l_matcher st) g;
     drain_loop k (st\<lparr>l_matcher := m\<rparr>) obs
   }"
| "drain_loop k st (EmptySeen _ # obs) = Some (st, True)"

fun matching_loop :: "codecs \<Rightarrow> nat \<Rightarrow> loop_state \<Rightarrow> observation list \<Rightarrow> (loop_state \<times> bool) option" where
  "matching_loop k snapshot_interval st [] = Some (st, False)"
| "matching_loop k snapshot_interval st (Popped cmd g io # obs) = do {
     st \<leftarrow> on_command k snapshot_interval st cmd g io;
     matching_loop k snapshot_interval st obs
   }"
| "matching_loop k snapshot_interval st (EmptySeen shutdown # obs) =
     (if shutdown then drain_loop k st obs else matching_loop k snapshot_interval st obs)"

section \<open>Start-up\<close>

text \<open>
  The part of \<open>run\<close> before the threads: the ring (\<open>None\<close> is the panic of \<open>ring_buffer\<close>) and the
  engine, recovered or fresh. A failed recovery starts fresh and without a log.
\<close>

definition run_start ::
  "codecs \<Rightarrow> gateway_config \<Rightarrow> disk \<Rightarrow> recovery_io \<Rightarrow> (engine_command spsc_state \<times> loop_state) option" where
  "run_start k config disk io = do {
     ring \<leftarrow> spsc_init (g_ring_capacity config);
     (case g_data_dir config of
        Some _ \<Rightarrow> do {
          r \<leftarrow> recover k disk (g_arena_capacity config) io;
          (case r of
             Inr (engine, wal) \<Rightarrow> Some (ring, start_loop engine (Some wal) (Some (d_snapshots disk)))
           | Inl _ \<Rightarrow> Some (ring, start_loop (engine_with_capacity (g_arena_capacity config)) None None))
        }
      | None \<Rightarrow> Some (ring, start_loop (engine_with_capacity (g_arena_capacity config)) None None))
   }"

text \<open>Which of the sockets can be set up.\<close>

record net_io =
  n_udp :: bool
  n_listen :: bool
  n_accept :: bool

text \<open>
  \<open>run\<close> as a whole, for a client that sends \<open>bytes\<close> and a matching thread that observes \<open>obs\<close>: the
  result and the state of the matching thread when \<open>run\<close> returns. The flag is set after
  \<open>handle_client\<close>, whatever its result; \<open>None\<close> is a panic, or a \<open>join\<close> with a thread that
  has not ended. Without a client the matching thread is left behind as it started.
\<close>

definition run ::
  "codecs \<Rightarrow> gateway_config \<Rightarrow> disk \<Rightarrow> recovery_io \<Rightarrow> net_io \<Rightarrow> (nat \<Rightarrow> u64) \<Rightarrow> stream_end \<Rightarrow> u8 list \<Rightarrow>
     observation list \<Rightarrow> ((gateway_error + unit) \<times> loop_state) option" where
  "run k config disk io net now fin bytes obs = do {
     (ring, st) \<leftarrow> run_start k config disk io;
     (if \<not> n_udp net then Some (Inl GwIo, st)
      else if \<not> n_listen net then Some (Inl GwIo, st)
      else if \<not> n_accept net then Some (Inl GwIo, st)
      else do {
        let (cmds, result, flag) = handle_client now 0 fin bytes;
        (st, ended) \<leftarrow> matching_loop k (g_snapshot_interval config) st obs;
        (if ended then Some (result, st) else None)
      })
   }"

end
