(* ===== verification/Gateway_Laws.thy ===== *)
theory Gateway_Laws
  imports Gateway
begin

text \<open>
  What the gateway guarantees: the client side delivers exactly the messages of the stream; the
  matching thread goes on whatever the file system answers, applies every popped command once, tries
  to log it first and reports each returned fill once, with consecutive sequence numbers; its
  snapshots belong to the history of its commands, so that a restart finds the book again, less
  perhaps some commands that the log could not take.
\<close>

section \<open>The client side\<close>

lemma stamp_strip [simp]: "stamp t (strip_time c) = stamp t c"
  by (cases c) simp_all

lemma loggable_stamp [simp]: "loggable (stamp t c) = loggable c"
  by (cases c) simp_all

lemma strip_stamp [simp]: "strip_time (stamp t c) = strip_time c"
  by (cases c) simp_all

lemma message_size_command:
  obtains b bs where "command_bytes c = b # bs" and "message_size b = Inr (Suc (length bs))" and "length bs < 48"
proof (cases c)
  case (NewOrder ord)
  then show thesis using that [of "hd (command_bytes c)" "tl (command_bytes c)"]
    by (simp add: new_order_bytes_def message_size_def)
next
  case (CancelOrder d)
  then show thesis using that [of "hd (command_bytes c)" "tl (command_bytes c)"]
    by (simp add: cancel_order_bytes_def message_size_def)
qed

lemma handle_client_message:
  assumes "loggable c"
  shows "handle_client now i fin (command_bytes c @ rest) =
    (case handle_client now (i + 1) fin rest of (cmds, r, b) \<Rightarrow> (stamp (now i) c # cmds, r, b))"
proof -
  obtain b bs where c: "command_bytes c = b # bs" "message_size b = Inr (Suc (length bs))" "length bs < 48"
    by (rule message_size_command)
  have "splice ((replicate 48 0)[0 := b]) 1 bs = b # bs @ drop (Suc (length bs)) ((replicate 48 0)[0 := b])"
    by (simp add: splice_def take_Suc_conv_app_nth)
  then have "take (Suc (length bs)) (splice ((replicate 48 0)[0 := b]) 1 bs) = command_bytes c"
    using c by simp
  then show ?thesis
    using c decode_command_bytes [OF assms]
    by (subst handle_client.simps) (simp add: Let_def split: prod.split)
qed

lemma handle_client_stream:
  "\<forall>c \<in> set cs. loggable c \<Longrightarrow>
     handle_client now i fin (concat (map command_bytes cs) @ rest) =
       (case handle_client now (i + length cs) fin rest of
          (cmds, r, b) \<Rightarrow> (map2 (\<lambda>j c. stamp (now j) c) [i..<i + length cs] cs @ cmds, r, b))"
proof (induction cs arbitrary: i)
  case (Cons c cs)
  have "[i..<i + length (c # cs)] = i # [i + 1..<i + 1 + length cs]" by (simp add: upt_rec)
  with Cons show ?case by (simp add: handle_client_message del: upt_Suc split: prod.split)
qed (simp split: prod.split)

lemma decode_message_loggable: "decode_message buf = Inr c \<Longrightarrow> loggable c"
  by (cases "read_u8 buf 0"; cases "decode_new_order buf"; cases "decode_cancel_order buf")
    (auto simp: decode_message_def split: if_splits dest!: decode_new_order_inv)

lemma handle_client_loggable:
  "c \<in> set (fst (handle_client now i fin bytes)) \<Longrightarrow> loggable c"
proof (induction now i fin bytes rule: handle_client.induct)
  case (1 now i fin bytes)
  have e: "fst (end_of_stream fin) = []" by (cases fin) simp_all
  show ?case
  proof (cases bytes)
    case Nil
    with "1.prems" e show ?thesis by (simp add: handle_client.simps [of _ _ _ "[]"])
  next
    case (Cons b rest)
    show ?thesis
    proof (cases "\<exists>sz cmd. message_size b = Inr sz \<and> sz - 1 \<le> length rest \<and>
        decode_message (take sz (splice ((replicate 48 0)[0 := b]) 1 (take (sz - 1) rest))) = Inr cmd")
      case True
      then obtain sz cmd where m: "message_size b = Inr sz" "sz - 1 \<le> length rest"
        "decode_message (take sz (splice ((replicate 48 0)[0 := b]) 1 (take (sz - 1) rest))) = Inr cmd" by blast
      then have "c \<in> set (stamp (now i) cmd # fst (handle_client now (i + 1) fin (drop (sz - 1) rest)))"
        using "1.prems" Cons by (simp add: handle_client.simps [of _ _ _ "b # rest"] Let_def split: prod.splits)
      then show ?thesis using "1.IH" [OF Cons m(1,2) refl m(3)] decode_message_loggable [OF m(3)] by auto
    next
      case False
      then show ?thesis
        using "1.prems" Cons e by (auto simp: handle_client.simps [of _ _ _ "b # rest"] Let_def split: sum.splits if_splits)
    qed
  qed
qed

section \<open>Reports\<close>

fun reports :: "u32 \<Rightarrow> u64 \<Rightarrow> fill list \<Rightarrow> u8 list list" where
  "reports n ts [] = []"
| "reports n ts (f # fs) = report_bytes (n + 1, f, ts) # reports (n + 1) ts fs"

lemma reports_nth:
  "i < length fs \<Longrightarrow> reports n ts fs ! i = report_bytes (n + 1 + of_nat i, fs ! i, ts)"
proof (induction fs arbitrary: n i)
  case (Cons f fs)
  then show ?case by (cases i) (simp_all add: ac_simps)
qed simp

lemma length_reports [simp]: "length (reports n ts fs) = length fs"
  by (induction fs arbitrary: n) auto

lemma report_fills_spec:
  assumes "length (m_report_buf m) = 48"
  shows "m_sent (report_fills m ts fs) = m_sent m @ reports (m_seq_num m) ts fs \<and>
    m_seq_num (report_fills m ts fs) = m_seq_num m + of_nat (length fs) \<and>
    m_engine (report_fills m ts fs) = m_engine m \<and> m_wal (report_fills m ts fs) = m_wal m \<and>
    length (m_report_buf (report_fills m ts fs)) = 48"
  using assms
proof (induction fs arbitrary: m)
  case (Cons f fs)
  let ?b = "report_bytes (m_seq_num m + 1, f, ts)"
  let ?m = "m\<lparr>m_seq_num := m_seq_num m + 1, m_report_buf := ?b, m_sent := m_sent m @ [?b]\<rparr>"
  have "report_fills m ts (f # fs) = report_fills ?m ts fs"
    using Cons.prems by (simp add: Let_def encode_execution_report_bytes)
  then show ?case using Cons.IH [of ?m] by (simp add: ac_simps)
qed simp

section \<open>One command\<close>

text \<open>
  The fills that \<open>add_order\<close> returns, and so the fills that are reported. With an error it returns none,
  also where the order has traded before it was refused as a duplicate.
\<close>

fun returned_fills :: "matching_engine \<Rightarrow> engine_command \<Rightarrow> fill list" where
  "returned_fills e (NewOrder ord) = (case add_order e ord of Some (Inr result, _) \<Rightarrow> r_fills result | _ \<Rightarrow> [])"
| "returned_fills e (CancelOrder d) = []"

fun a_fills :: "nat \<Rightarrow> abook \<Rightarrow> engine_command \<Rightarrow> fill list" where
  "a_fills cap A (NewOrder ord) = (case fst (a_add_order cap A ord) of Inr r \<Rightarrow> r_fills r | Inl _ \<Rightarrow> [])"
| "a_fills cap A (CancelOrder d) = []"

lemma returned_fills_refines:
  assumes "represents (e_book e) A"
  shows "returned_fills e cmd = a_fills (capacity_of (e_book e)) A cmd"
proof (cases cmd)
  case (NewOrder ord)
  obtain r A' where a: "a_add_order (capacity_of (e_book e)) A ord = (r, A')" by fastforce
  from add_order_refines [OF assms a] a NewOrder show ?thesis by (cases r) auto
qed simp

fun time_of :: "engine_command \<Rightarrow> u64" where
  "time_of (NewOrder ord) = o_timestamp ord"
| "time_of (CancelOrder d) = 0"

lemma process_command_spec:
  assumes rep: "represents (e_book (m_engine m)) A" and cap: "capacity_of (e_book (m_engine m)) = cap"
    and buf: "length (m_report_buf m) = 48"
    and wal: "case m_wal m of None \<Rightarrow> wo' = None | Some w \<Rightarrow> \<exists>r w'. append crc w cmd g = Some (r, w') \<and> wo' = Some w'"
  shows "\<exists>m'. process_command crc cmd m g = Some m' \<and> m_wal m' = wo' \<and>
    represents (e_book (m_engine m')) (a_command cap A cmd) \<and> capacity_of (e_book (m_engine m')) = cap \<and>
    length (m_report_buf m') = 48 \<and> m_sent m' = m_sent m @ reports (m_seq_num m) (time_of cmd) (a_fills cap A cmd) \<and>
    m_seq_num m' = m_seq_num m + of_nat (length (a_fills cap A cmd))"
proof -
  define m1 where "m1 = m\<lparr>m_wal := wo'\<rparr>"
  have w: "(case m_wal m of Some w \<Rightarrow> append crc w cmd g \<bind> (\<lambda>(_, w). Some (m\<lparr>m_wal := Some w\<rparr>)) | None \<Rightarrow> Some m) = Some m1"
    using wal by (cases "m_wal m") (auto simp: m1_def)
  show ?thesis
  proof (cases cmd)
    case (NewOrder ord)
    obtain r A' where a: "a_add_order (capacity_of (e_book (m_engine m))) A ord = (r, A')" by fastforce
    obtain e' where e': "add_order (m_engine m) ord = Some (r, e')" "represents (e_book e') A'"
      "capacity_of (e_book e') = cap"
      using add_order_refines [OF rep a] cap by auto
    define m' where "m' = (case r of Inr result \<Rightarrow> report_fills (m1\<lparr>m_engine := e'\<rparr>) (o_timestamp ord) (r_fills result)
      | Inl _ \<Rightarrow> m1\<lparr>m_engine := e'\<rparr>)"
    have "process_command crc cmd m g = Some m'"
      unfolding process_command_def w using e'(1) NewOrder by (cases r) (simp_all add: m'_def m1_def Let_def)
    moreover have "m_wal m' = wo' \<and> m_engine m' = e' \<and> length (m_report_buf m') = 48 \<and>
        m_sent m' = m_sent m @ reports (m_seq_num m) (time_of cmd) (a_fills cap A cmd) \<and>
        m_seq_num m' = m_seq_num m + of_nat (length (a_fills cap A cmd))"
      using report_fills_spec [of "m1\<lparr>m_engine := e'\<rparr>"] buf a cap NewOrder
      by (cases r) (auto simp: m'_def m1_def)
    ultimately show ?thesis using e' a cap NewOrder by auto
  next
    case (CancelOrder d)
    obtain r A' where a: "a_cancel_order A d = (r, A')" by fastforce
    from cancel_order_refines [OF rep a] obtain e' where e': "engine_cancel_order (m_engine m) d = Some (r, e')"
      "represents (e_book e') A'" "capacity_of (e_book e') = cap" using cap by auto
    have "process_command crc cmd m g = Some (m1\<lparr>m_engine := e'\<rparr>)"
      unfolding process_command_def w using e'(1) CancelOrder by (simp add: m1_def)
    then show ?thesis using e' a CancelOrder buf by (auto simp: m1_def)
  qed
qed

text \<open>
  A matching thread that works: its engine stands for a book, and its log, where it has one, holds
  records. Every command keeps it so, whatever the log answers.
\<close>

definition matcher_ok :: "(u8 list \<Rightarrow> u32) \<Rightarrow> nat \<Rightarrow> matcher \<Rightarrow> abook \<Rightarrow> bool" where
  "matcher_ok crc cap m A \<longleftrightarrow> represents (e_book (m_engine m)) A \<and> capacity_of (e_book (m_engine m)) = cap \<and>
     length (m_report_buf m) = 48 \<and> (\<forall>w. m_wal m = Some w \<longrightarrow> (\<exists>ps. wal_ok crc w ps))"

lemma process_command_ok:
  assumes "matcher_ok crc cap m A"
  shows "\<exists>m'. process_command crc cmd m g = Some m' \<and> matcher_ok crc cap m' (a_command cap A cmd) \<and>
    m_sent m' = m_sent m @ reports (m_seq_num m) (time_of cmd) (a_fills cap A cmd) \<and>
    m_seq_num m' = m_seq_num m + of_nat (length (a_fills cap A cmd))"
proof -
  from assms have m: "represents (e_book (m_engine m)) A" "capacity_of (e_book (m_engine m)) = cap"
    "length (m_report_buf m) = 48" by (simp_all add: matcher_ok_def)
  obtain wo' where wo': "case m_wal m of None \<Rightarrow> wo' = None | Some w \<Rightarrow> \<exists>r w'. append crc w cmd g = Some (r, w') \<and> wo' = Some w'"
    "\<And>w'. wo' = Some w' \<Longrightarrow> \<exists>ps. wal_ok crc w' ps"
  proof (cases "m_wal m")
    case (Some w)
    then obtain ps where "wal_ok crc w ps" using assms by (auto simp: matcher_ok_def)
    then obtain r w' where "append crc w cmd g = Some (r, w')" "\<exists>ps. wal_ok crc w' ps"
      using append_spec [of crc w ps cmd g] by blast
    then show thesis using Some that [of "Some w'"] by auto
  qed (use that in auto)
  from process_command_spec [OF m wo'(1)] wo'(2) show ?thesis by (auto simp: matcher_ok_def)
qed

lemma on_command_ok:
  assumes "matcher_ok (crc_hash k) cap (l_matcher st) A"
  shows "\<exists>st'. on_command k interval st cmd g io = Some st' \<and>
    process_command (crc_hash k) cmd (l_matcher st) g = Some (l_matcher st')"
proof -
  from process_command_ok [OF assms, of cmd g] obtain m where m: "process_command (crc_hash k) cmd (l_matcher st) g = Some m"
    "represents (e_book (m_engine m)) (a_command cap A cmd)" by (auto simp: matcher_ok_def)
  from capture_spec [OF m(2), of k] m(1) show ?thesis
    by (cases "m_wal m"; cases "l_dir st") (auto simp: on_command_def Let_def)
qed

section \<open>The matching thread and its log\<close>

text \<open>The command is in the log, where there is one.\<close>

definition recorded :: "(u8 list \<Rightarrow> u32) \<Rightarrow> matcher \<Rightarrow> engine_command \<Rightarrow> grow \<Rightarrow> bool" where
  "recorded crc m cmd g \<longleftrightarrow> (case m_wal m of
     None \<Rightarrow> True
   | Some w \<Rightarrow> (case append crc w cmd g of Some (Inr _, _) \<Rightarrow> True | _ \<Rightarrow> False))"

text \<open>The history after a command.\<close>

definition history_after :: "codecs \<Rightarrow> matcher \<Rightarrow> history \<Rightarrow> engine_command \<Rightarrow> grow \<Rightarrow> history" where
  "history_after k m full cmd g = full @ [(cmd, recorded (crc_hash k) m cmd g)]"

definition log_inv :: "codecs \<Rightarrow> u32 \<Rightarrow> matcher \<Rightarrow> history \<Rightarrow> bool" where
  "log_inv k c m full \<longleftrightarrow> (\<exists>A. matcher_ok (crc_hash k) (unat c) m A \<and> live_with c full A) \<and>
     (\<forall>w. m_wal m = Some w \<longrightarrow> logs (crc_hash k) w (logged full) \<and> clean w)"

lemma append_recorded:
  assumes "logs (crc_hash k) w (logged full)" and "clean w" and "m_wal m = Some w"
  shows "\<exists>r w'. append (crc_hash k) w cmd g = Some (r, w') \<and> logs (crc_hash k) w' (logged (history_after k m full cmd g)) \<and> clean w' \<and>
    (g = GrowOk \<longrightarrow> recorded (crc_hash k) m cmd g)"
  using append_spec [OF assms(1) [unfolded logs_def], of cmd g] assms
  by (auto simp: history_after_def logged_def recorded_def logs_def clean_def)

lemma process_command_log:
  assumes inv: "log_inv k c m full"
  shows "\<exists>m'. process_command (crc_hash k) cmd m g = Some m' \<and>
    log_inv k c m' (history_after k m full cmd g) \<and> (m_wal m' = None \<longleftrightarrow> m_wal m = None)"
proof -
  from inv obtain A where A: "matcher_ok (crc_hash k) (unat c) m A" "live_with c full A" by (auto simp: log_inv_def)
  then have m: "represents (e_book (m_engine m)) A" "capacity_of (e_book (m_engine m)) = unat c" "length (m_report_buf m) = 48"
    by (simp_all add: matcher_ok_def)
  obtain wo' where wo': "case m_wal m of None \<Rightarrow> wo' = None
      | Some w \<Rightarrow> \<exists>r w'. append (crc_hash k) w cmd g = Some (r, w') \<and> wo' = Some w'"
    "\<And>w'. wo' = Some w' \<Longrightarrow> logs (crc_hash k) w' (logged (history_after k m full cmd g)) \<and> clean w'" "wo' = None \<longleftrightarrow> m_wal m = None"
  proof (cases "m_wal m")
    case (Some w)
    then have "logs (crc_hash k) w (logged full)" "clean w" using inv by (auto simp: log_inv_def)
    from append_recorded [OF this Some, of cmd g] obtain r w' where "append (crc_hash k) w cmd g = Some (r, w')"
      "logs (crc_hash k) w' (logged (history_after k m full cmd g))" "clean w'" by blast
    with Some that [of "Some w'"] show thesis by auto
  qed (use that in auto)
  obtain m' where m': "process_command (crc_hash k) cmd m g = Some m'" "m_wal m' = wo'"
    "represents (e_book (m_engine m')) (a_command (unat c) A cmd)" "capacity_of (e_book (m_engine m')) = unat c"
    "length (m_report_buf m') = 48"
    using process_command_spec [OF m wo'(1)] by blast
  have "live_with c (history_after k m full cmd g) (a_command (unat c) A cmd)"
    unfolding history_after_def by (rule live_with_command [OF A(2)])
  moreover have "matcher_ok (crc_hash k) (unat c) m' (a_command (unat c) A cmd)"
    using m' wo'(2) by (auto simp: matcher_ok_def logs_def)
  ultimately show ?thesis using m'(1,2) wo'(2,3) by (auto simp: log_inv_def)
qed

text \<open>What is assumed of \<open>bincode\<close>: deserialising what it serialised gives the value back.\<close>

definition bincode_ok :: "codecs \<Rightarrow> bool" where
  "bincode_ok k \<longleftrightarrow> (\<forall>snap data. bin_serialize k snap = Some data \<longrightarrow> bin_deserialize k data = Some snap)"

text \<open>Every snapshot file belongs to the history.\<close>

definition dir_ok :: "codecs \<Rightarrow> u32 \<Rightarrow> history \<Rightarrow> directory option \<Rightarrow> bool" where
  "dir_ok k c full dir \<longleftrightarrow> (\<forall>d. dir = Some d \<longrightarrow> hm_inv d \<and>
     (\<forall>f data snap. is_snapshot_name f \<and> hm_get d f = Some data \<and> bin_deserialize k data = Some snap \<longrightarrow>
        snapshot_of_run c full snap))"

lemma dir_ok_after: "dir_ok k c full dir \<Longrightarrow> dir_ok k c (history_after k m full cmd g) dir"
  by (simp add: dir_ok_def history_after_def snapshot_of_run_mono)

lemma dir_ok_insert:
  assumes "dir_ok k c full (Some d)" and "is_snapshot_name f \<Longrightarrow> bin_deserialize k data = Some snap"
    and "snapshot_of_run c full snap"
  shows "dir_ok k c full (Some (hm_insert d f data))"
  using assms by (auto simp: dir_ok_def hash.get_ins hash.invar_ins split: if_splits)

lemma dir_ok_remove: "dir_ok k c full (Some d) \<Longrightarrow> dir_ok k c full (Some (hm_remove d f))"
  by (auto simp: dir_ok_def hash.get_del hash.invar_del)

lemma dir_ok_some: "dir_ok k c full dir \<Longrightarrow> dir_ok k c full (Some (case dir of None \<Rightarrow> [] | Some d \<Rightarrow> d))"
  by (auto simp: dir_ok_def hash.invar_empty hm_get_def split: option.splits)

lemma save_dir_ok:
  assumes k: "bincode_ok k" and d: "dir_ok k c full dir" and s: "snapshot_of_run c full snap"
  shows "dir_ok k c full (snd (save k snap dir io))"
proof -
  let ?d = "case dir of None \<Rightarrow> [] | Some d \<Rightarrow> d"
  note d' = dir_ok_some [OF d]
  show ?thesis
  proof (cases "bin_serialize k snap")
    case None
    then show ?thesis using d d' by (simp add: save_def Let_def)
  next
    case (Some data)
    then have de: "bin_deserialize k data = Some snap" using k by (auto simp: bincode_ok_def)
    have tmp: "dir_ok k c full (Some (hm_insert ?d (snapshot_filename n @ ''.tmp'') x))" for n x
      by (rule dir_ok_insert [OF d' _ s]) (simp add: tmp_is_not_snapshot)
    have "dir_ok k c full (Some (hm_insert (hm_remove (hm_insert ?d (snapshot_filename n @ ''.tmp'') data) g) f data))" for n f g
      by (rule dir_ok_insert [OF dir_ok_remove [OF tmp] _ s]) (rule de)
    then show ?thesis using Some d tmp by (cases io) (simp_all add: save_def Let_def)
  qed
qed

lemma on_command_log:
  fixes cmd :: engine_command and g :: grow
  assumes inv: "log_inv k c (l_matcher st) full" and d: "\<And>dir. l_dir st = Some dir \<Longrightarrow> dir_ok k c full dir"
    and k: "bincode_ok k"
  defines "full' \<equiv> history_after k (l_matcher st) full cmd g"
  shows "\<exists>st'. on_command k interval st cmd g io = Some st' \<and> log_inv k c (l_matcher st') full' \<and>
    (\<forall>dir. l_dir st' = Some dir \<longrightarrow> dir_ok k c full' dir) \<and>
    (m_wal (l_matcher st') = None \<longleftrightarrow> m_wal (l_matcher st) = None) \<and> (l_dir st' = None \<longleftrightarrow> l_dir st = None)"
proof -
  obtain m where m: "process_command (crc_hash k) cmd (l_matcher st) g = Some m" "log_inv k c m full'"
    "m_wal m = None \<longleftrightarrow> m_wal (l_matcher st) = None"
    using process_command_log [OF inv, of cmd g] unfolding full'_def by auto
  have d': "dir_ok k c full' dir" if "l_dir st = Some dir" for dir
    unfolding full'_def by (rule dir_ok_after [OF d [OF that]])
  let ?st = "st\<lparr>l_matcher := m, l_cmds_since_snapshot := l_cmds_since_snapshot st + 1\<rparr>"
  show ?thesis
  proof (cases "\<exists>w dir. m_wal m = Some w \<and> l_dir st = Some dir \<and> interval \<le> l_cmds_since_snapshot st + 1")
    case True
    then obtain w dir where t: "m_wal m = Some w" "l_dir st = Some dir" "interval \<le> l_cmds_since_snapshot st + 1" by blast
    obtain A where A: "represents (e_book (m_engine m)) A" "live_with c full' A" and "logs (crc_hash k) w (logged full')"
      using m(2) t(1) by (auto simp: log_inv_def matcher_ok_def)
    then have cnt: "w_record_count w = length (logged full')" by (simp add: logs_def wal_ok_def)
    obtain snap where snap: "capture k (m_engine m) (w_record_count w) = Some snap"
      "sn_orders snap = resting A" "sn_wal_record_count snap = length (logged full')"
      using capture_spec [OF A(1), of k "w_record_count w"] cnt by simp
    have "dir_ok k c full' (snd (save k snap dir io))"
      by (rule save_dir_ok [OF k d' [OF t(2)] snapshot_of_live [OF A(2) snap(2,3)]])
    moreover have "on_command k interval st cmd g io =
        Some (?st\<lparr>l_dir := Some (snd (save k snap dir io)), l_cmds_since_snapshot := 0\<rparr>)"
      using m(1) t snap(1) by (simp add: on_command_def)
    ultimately show ?thesis using m(2,3) t by auto
  next
    case False
    then have "on_command k interval st cmd g io = Some ?st"
      using m(1) by (auto simp: on_command_def Let_def split: option.splits)
    then show ?thesis using m(2,3) d' by auto
  qed
qed

text \<open>The commands a run of the loop consumes: up to the empty ring seen while draining.\<close>

fun drained :: "observation list \<Rightarrow> engine_command list" where
  "drained [] = []"
| "drained (Popped cmd g io # obs) = cmd # drained obs"
| "drained (EmptySeen b # obs) = []"

fun consumed :: "observation list \<Rightarrow> engine_command list" where
  "consumed [] = []"
| "consumed (Popped cmd g io # obs) = cmd # consumed obs"
| "consumed (EmptySeen b # obs) = (if b then drained obs else consumed obs)"

section \<open>Restarts\<close>

lemma load_latest_run:
  assumes "dir_ok k c full dir" and "load_latest k listable readable dir = Inr (Some snap)"
  shows "snapshot_of_run c full snap"
proof -
  from assms(2) obtain d where d: "dir = Some d" "listable" by (auto simp: load_latest_def split: option.splits if_splits)
  with assms(2) have "load_loop k readable d (snapshot_files d) = Some snap" by (simp add: load_latest_files)
  from load_loop_spec(2) [OF this] obtain us f vs where "snapshot_files d = us @ f # vs" "valid_file k readable d f snap" by blast
  moreover then have "is_snapshot_name f" using set_snapshot_files [of d] by auto
  ultimately show ?thesis
    using assms(1) d by (auto simp: dir_ok_def valid_file_def load_from_file_def split: option.splits if_splits)
qed

text \<open>
  The file system answers: the directories can be created and listed, and the log file can be grown
  and mapped. Single snapshot files may be unreadable.
\<close>

definition io_ok :: "recovery_io \<Rightarrow> bool" where
  "io_ok io \<longleftrightarrow> io_mkdir io \<and> io_listable io \<and> io_grow io = GrowOk"

lemma io_ok_latest:
  assumes "io_ok io" and "dir_ok k c full dir"
  obtains latest where "load_latest k (io_listable io) (io_readable io) dir = Inr latest"
    and "\<And>s. latest = Some s \<Longrightarrow> snapshot_of_run c full s"
proof -
  obtain latest where l: "load_latest k (io_listable io) (io_readable io) dir = Inr latest"
    using assms(1) by (cases dir) (auto simp: load_latest_def io_ok_def)
  moreover have "snapshot_of_run c full s" if "latest = Some s" for s
    using load_latest_run [OF assms(2)] l that by blast
  ultimately show thesis by (rule that)
qed

text \<open>Where recovery succeeds, it has found what it needs.\<close>

lemma recover_success:
  assumes "recover k disk c io = Some (Inr (e, w))"
  obtains latest w' where "io_mkdir io" and "load_latest k (io_listable io) (io_readable io) (d_snapshots disk) = Inr latest"
    and "wal_open (crc_hash k) (case d_wal disk of None \<Rightarrow> [] | Some f \<Rightarrow> f) (io_grow io) = Some (Inr w')"
  using assms by (auto simp: recover_def split: if_splits sum.splits Option.bind_splits)

text \<open>A restart in order, with any answers with which recovery succeeds; and it does where the file system answers.\<close>

lemma restart_log:
  assumes inv: "log_inv k c m full" and w: "m_wal m = Some w" and d: "dir_ok k c full dir"
    and good: "\<forall>x \<in> set (logged full). loggable x"
    and r: "recover k \<lparr>d_wal = Some (wal_file w), d_snapshots = dir\<rparr> c io = Some (Inr (e, w'))"
  shows "log_inv k c (l_matcher (start_loop e (Some w') sd)) full"
proof -
  have lw: "logs (crc_hash k) w (logged full)" "clean w" using inv w by (auto simp: log_inv_def)
  obtain latest w1 where "io_mkdir io" "load_latest k (io_listable io) (io_readable io) dir = Inr latest"
    "wal_open (crc_hash k) (wal_file w) (io_grow io) = Some (Inr w1)" using recover_success [OF r] by auto
  moreover from this(2) have "snapshot_of_run c full s" if "latest = Some s" for s
    using load_latest_run [OF d] that by blast
  ultimately obtain A where "w' = w1" "logs (crc_hash k) w1 (logged full)" "clean w1" "represents (e_book e) A"
    "capacity_of (e_book e) = unat c" "live_with c full A"
    using recover_run [OF lw good, of "\<lparr>d_wal = Some (wal_file w), d_snapshots = dir\<rparr>" io w1 latest c] r by auto
  then show ?thesis by (auto simp: log_inv_def matcher_ok_def start_loop_def logs_def)
qed

lemma restart_succeeds:
  assumes "log_inv k c m full" and "m_wal m = Some w" and "dir_ok k c full dir"
    and "\<forall>x \<in> set (logged full). loggable x" and "io_ok io"
  shows "\<exists>e w'. recover k \<lparr>d_wal = Some (wal_file w), d_snapshots = dir\<rparr> c io = Some (Inr (e, w'))"
proof -
  have lw: "logs (crc_hash k) w (logged full)" "clean w" using assms(1,2) by (auto simp: log_inv_def)
  obtain w' where "wal_open (crc_hash k) (wal_file w) (io_grow io) = Some (Inr w')"
    using reopen_clean [OF lw(1) [unfolded logs_def] lw(2)] assms(5) by (auto simp: wal_open_def io_ok_def)
  moreover obtain latest where "load_latest k (io_listable io) (io_readable io) dir = Inr latest"
    "\<And>s. latest = Some s \<Longrightarrow> snapshot_of_run c full s" using io_ok_latest [OF assms(5,3)] by blast
  ultimately show ?thesis
    using recover_run [OF lw assms(4), of "\<lparr>d_wal = Some (wal_file w), d_snapshots = dir\<rparr>" io w' latest c] assms(5)
    by (auto simp: io_ok_def)
qed

lemma first_start_log:
  assumes "recover k \<lparr>d_wal = None, d_snapshots = None\<rparr> c io = Some (Inr (e, w))"
  shows "log_inv k c (l_matcher (start_loop e (Some w) sd)) []"
proof -
  let ?disk = "\<lparr>d_wal = None, d_snapshots = None\<rparr>"
  obtain w0 where w0: "wal_open (crc_hash k) [] GrowOk = Some (Inr w0)" "logs (crc_hash k) w0 []" "clean w0"
    using open_empty [of "crc_hash k" DEFAULT_INITIAL_SIZE] by (auto simp: wal_open_def logs_def)
  obtain w1 where w1: "io_mkdir io" "wal_open (crc_hash k) [] (io_grow io) = Some (Inr w1)" using recover_success [OF assms] by auto
  then have "w1 = w0" using wal_open_grow [OF w1(2)] w0(1) by simp
  moreover have "load_latest k (io_listable io) (io_readable io) (d_snapshots ?disk) = Inr None" by (simp add: load_latest_def)
  ultimately obtain A where "w = w0" "represents (e_book e) A" "capacity_of (e_book e) = unat c" "live_with c [] A"
    using recover_opened [of k "[]" io w0 "[]" ?disk None c] w0 w1 assms by auto
  then show ?thesis using w0 by (auto simp: log_inv_def matcher_ok_def start_loop_def logs_def)
qed

lemma first_start_succeeds: "io_ok io \<Longrightarrow> \<exists>e w. recover k \<lparr>d_wal = None, d_snapshots = None\<rparr> c io = Some (Inr (e, w))"
proof -
  assume io: "io_ok io"
  obtain w0 where "wal_open (crc_hash k) [] GrowOk = Some (Inr w0)" "logs (crc_hash k) w0 []"
    using open_empty [of "crc_hash k" DEFAULT_INITIAL_SIZE] by (auto simp: wal_open_def logs_def)
  then show ?thesis
    using recover_opened [of k "[]" io w0 "[]" "\<lparr>d_wal = None, d_snapshots = None\<rparr>" None c] io
    by (auto simp: io_ok_def load_latest_def)
qed

text \<open>
  The lifetime of a gateway with a data directory: a first start, commands in the loop and in the
  drain at its end, and restarts of the process at any point, with the log file and the snapshot
  directory as they were. The file system may answer anything: appends may fail to grow the log,
  snapshots may fail to be saved, and a recovery may find files it cannot read; only a start that
  fails altogether is no step of this life, since the gateway then runs without a log. The history
  has all commands processed, in order, each with whether its append has succeeded.
\<close>

inductive lifetime :: "codecs \<Rightarrow> nat \<Rightarrow> u32 \<Rightarrow> history \<Rightarrow> loop_state \<Rightarrow> bool"
  for k interval c where
  first_start: "recover k \<lparr>d_wal = None, d_snapshots = None\<rparr> c io = Some (Inr (e, w)) \<Longrightarrow>
    lifetime k interval c [] (start_loop e (Some w) (Some None))"
| command: "lifetime k interval c full st \<Longrightarrow> loggable cmd \<Longrightarrow> on_command k interval st cmd g io = Some st' \<Longrightarrow>
    lifetime k interval c (history_after k (l_matcher st) full cmd g) st'"
| drained_command: "lifetime k interval c full st \<Longrightarrow> loggable cmd \<Longrightarrow>
    process_command (crc_hash k) cmd (l_matcher st) g = Some m \<Longrightarrow>
    lifetime k interval c (history_after k (l_matcher st) full cmd g) (st\<lparr>l_matcher := m\<rparr>)"
| restart: "lifetime k interval c full st \<Longrightarrow> m_wal (l_matcher st) = Some w \<Longrightarrow> l_dir st = Some dir \<Longrightarrow>
    recover k \<lparr>d_wal = Some (wal_file w), d_snapshots = dir\<rparr> c io = Some (Inr (e, w')) \<Longrightarrow>
    lifetime k interval c full (start_loop e (Some w') (Some dir))"

lemma lifetime_inv:
  assumes "lifetime k interval c full st" and "bincode_ok k"
  shows "log_inv k c (l_matcher st) full \<and> (\<forall>x \<in> set (map fst full). loggable x) \<and> m_wal (l_matcher st) \<noteq> None \<and>
    (\<exists>dir. l_dir st = Some dir \<and> dir_ok k c full dir)"
  using assms(1)
proof (induction rule: lifetime.induct)
  case (first_start io e w)
  then show ?case using first_start_log [OF first_start(1)] by (auto simp: start_loop_def dir_ok_def)
next
  case (command full st cmd g io st')
  then obtain dir where dir: "l_dir st = Some dir" "dir_ok k c full dir" by blast
  with command on_command_log [of k c st full interval cmd g io] assms(2)
  have "log_inv k c (l_matcher st') (history_after k (l_matcher st) full cmd g)"
    "\<forall>d. l_dir st' = Some d \<longrightarrow> dir_ok k c (history_after k (l_matcher st) full cmd g) d"
    "m_wal (l_matcher st') \<noteq> None" "l_dir st' \<noteq> None" by auto
  with command show ?case by (auto simp: history_after_def)
next
  case (drained_command full st cmd g m)
  then show ?case
    using process_command_log [of k c "l_matcher st" full cmd g] dir_ok_after [of k c full _ "l_matcher st" cmd g]
    by (auto simp: history_after_def)
next
  case (restart full st w dir io e w')
  then show ?case
    using restart_log [of k c "l_matcher st" full w dir io e w'] logged_subset by (fastforce simp: start_loop_def)
qed

end
