(* ===== verification/Gateway_Threads.thy ===== *)
theory Gateway_Threads
  imports Gateway_Laws
begin

text \<open>
  The two threads of \<open>src/src/gateway.rs\<close> around the ring. The client thread pushes its commands in
  turn, calling \<open>push\<close> again with the same command as long as the ring is full, and then sets
  \<open>shutdown\<close>. The matching thread pops; when \<open>pop\<close> returns empty it loads \<open>shutdown\<close>, and once it has
  seen it set it drains the ring until \<open>pop\<close> returns empty again, and stops. The load of \<open>shutdown\<close>
  may miss a store that has happened; once it has seen it, the acquire/release pair makes every
  earlier store to \<open>head\<close> visible.
\<close>

datatype mode = Running | Checking | Draining | Stopped

record gw =
  q_spsc :: "engine_command spsc_state"
  q_todo :: "engine_command list"
  q_shutdown :: bool
  q_mode :: mode

text \<open>\<open>pop\<close> has returned \<open>Err(Empty)\<close>.\<close>

definition saw_empty :: "'a spsc_state \<Rightarrow> 'a spsc_state \<Rightarrow> bool" where
  "saw_empty q q' \<longleftrightarrow> s_cpc q = CLoad \<and> s_cpc q' = CIdle"

fun calls :: "'a list \<Rightarrow> 'a p_pc \<Rightarrow> 'a p_pc \<Rightarrow> bool" where
  "calls todo PIdle pc \<longleftrightarrow> (case todo of [] \<Rightarrow> False | v # _ \<Rightarrow> pc = PLoad v \<or> pc = PWrite v)"
| "calls todo _ pc \<longleftrightarrow> True"

fun after_empty :: "mode \<Rightarrow> mode" where
  "after_empty Draining = Stopped"
| "after_empty _ = Checking"

inductive gw_step :: "gw \<Rightarrow> gw \<Rightarrow> bool" where
  produce: "spsc_step (q_spsc g) q' \<Longrightarrow> s_cpc q' = s_cpc (q_spsc g) \<Longrightarrow> calls (q_todo g) (s_ppc (q_spsc g)) (s_ppc q') \<Longrightarrow>
    gw_step g (g\<lparr>q_spsc := q',
      q_todo := if length (s_sent (q_spsc g)) < length (s_sent q') then tl (q_todo g) else q_todo g\<rparr>)"
| set_shutdown: "q_todo g = [] \<Longrightarrow> s_ppc (q_spsc g) = PIdle \<Longrightarrow> gw_step g (g\<lparr>q_shutdown := True\<rparr>)"
| consume: "spsc_step (q_spsc g) q' \<Longrightarrow> s_ppc q' = s_ppc (q_spsc g) \<Longrightarrow> q_mode g = Running \<or> q_mode g = Draining \<Longrightarrow>
    (q_mode g = Draining \<and> s_cpc (q_spsc g) = CLoad \<longrightarrow> s_head_seen q' = length (s_sent (q_spsc g))) \<Longrightarrow>
    gw_step g (g\<lparr>q_spsc := q', q_mode := if saw_empty (q_spsc g) q' then after_empty (q_mode g) else q_mode g\<rparr>)"
| check: "q_mode g = Checking \<Longrightarrow> (seen \<longrightarrow> q_shutdown g) \<Longrightarrow>
    gw_step g (g\<lparr>q_mode := if seen then Draining else Running\<rparr>)"

inductive gw_reachable :: "usize \<Rightarrow> engine_command list \<Rightarrow> gw \<Rightarrow> bool" for capacity cmds where
  start: "spsc_init capacity = Some q \<Longrightarrow>
    gw_reachable capacity cmds \<lparr>q_spsc = q, q_todo = cmds, q_shutdown = False, q_mode = Running\<rparr>"
| step: "gw_reachable capacity cmds g \<Longrightarrow> gw_step g g' \<Longrightarrow> gw_reachable capacity cmds g'"

fun value_of :: "'a p_pc \<Rightarrow> 'a list" where
  "value_of PIdle = []"
| "value_of (PLoad v) = [v]"
| "value_of (PWrite v) = [v]"
| "value_of (PPublish v) = [v]"

definition gw_inv :: "engine_command list \<Rightarrow> gw \<Rightarrow> bool" where
  "gw_inv cmds g \<longleftrightarrow> (\<exists>k. spsc_inv k (q_spsc g)) \<and> s_sent (q_spsc g) @ q_todo g = cmds \<and>
     prefix (value_of (s_ppc (q_spsc g))) (q_todo g) \<and> (q_shutdown g \<longrightarrow> q_todo g = []) \<and>
     (q_mode g = Draining \<or> q_mode g = Stopped \<longrightarrow> q_shutdown g) \<and>
     (q_mode g = Stopped \<longrightarrow> length (s_received (q_spsc g)) = length (s_sent (q_spsc g)))"

lemma produce_sent:
  assumes "spsc_step q q'" and "s_cpc q' = s_cpc q" and "calls todo (s_ppc q) (s_ppc q')"
    and "prefix (value_of (s_ppc q)) todo"
  shows "s_received q' = s_received q" and "s_sent q' @ (if length (s_sent q) < length (s_sent q') then tl todo else todo) = s_sent q @ todo"
    and "prefix (value_of (s_ppc q')) (if length (s_sent q) < length (s_sent q') then tl todo else todo)"
    and "todo \<noteq> []"
  using assms
  by (cases rule: spsc_step.cases; auto simp: prefix_def split: list.splits if_splits)+

lemma consume_sent:
  assumes "spsc_step q q'" and "s_ppc q' = s_ppc q"
  shows "s_sent q' = s_sent q"
  using assms by (cases rule: spsc_step.cases) (auto split: if_splits)

lemma saw_empty_count:
  assumes "spsc_step q q'" and "spsc_inv k q" and "saw_empty q q'"
  shows "length (s_received q') = s_head_seen q'"
  using assms(1)
proof (cases rule: spsc_step.cases)
  case (pop_load h c)
  note I = spsc_invD [OF assms(2)]
  have "looks_empty c \<longleftrightarrow> length (s_received q) = h"
    using looks_empty_count [OF I(1), of "length (s_received q)" h] pop_load I(5-9) by simp
  then show ?thesis using pop_load assms(3) by (auto simp: saw_empty_def split: if_splits)
qed (use assms(3) in \<open>auto simp: saw_empty_def split: if_splits\<close>)

lemma gw_step_inv: "gw_step g g' \<Longrightarrow> gw_inv cmds g \<Longrightarrow> gw_inv cmds g'"
proof (induction rule: gw_step.induct)
  case (produce g q')
  then obtain k where k: "spsc_inv k (q_spsc g)" "prefix (value_of (s_ppc (q_spsc g))) (q_todo g)" by (auto simp: gw_inv_def)
  note P = produce_sent [OF produce.hyps k(2)] and inv' = spsc_step_inv [OF produce.hyps(1) k(1)]
  have "\<not> q_shutdown g" using produce.prems P(4) by (auto simp: gw_inv_def)
  with P inv' produce.prems show ?case by (auto simp: gw_inv_def)
next
  case (set_shutdown g)
  then show ?case by (auto simp: gw_inv_def)
next
  case (consume g q')
  then obtain k where k: "spsc_inv k (q_spsc g)" by (auto simp: gw_inv_def)
  note inv' = spsc_step_inv [OF consume.hyps(1) k] and C = consume_sent [OF consume.hyps(1,2)]
  have "length (s_received q') = length (s_sent q')" if "q_mode g = Draining" "saw_empty (q_spsc g) q'"
    using saw_empty_count [OF consume.hyps(1) k that(2)] consume.hyps(4) that C by (simp add: saw_empty_def)
  with inv' C consume.prems consume.hyps(2,3) show ?case by (auto simp: gw_inv_def)
next
  case (check g seen)
  then show ?case by (auto simp: gw_inv_def)
qed

lemma gw_reachable_inv: "gw_reachable capacity cmds g \<Longrightarrow> gw_inv cmds g"
proof (induction rule: gw_reachable.induct)
  case (start q)
  then obtain k where "spsc_inv k q" using spsc_init_inv by blast
  moreover have "s_sent q = []" "s_ppc q = PIdle" using start by (auto simp: spsc_init_def)
  ultimately show ?case by (auto simp: gw_inv_def)
qed (rule gw_step_inv)

lemma gw_received_prefix:
  assumes "gw_reachable capacity cmds g"
  shows "prefix (s_received (q_spsc g)) cmds" and "q_mode g = Stopped \<Longrightarrow> s_received (q_spsc g) = cmds"
proof -
  have inv: "gw_inv cmds g" by (rule gw_reachable_inv [OF assms])
  then obtain k where k: "spsc_inv k (q_spsc g)" and c: "s_sent (q_spsc g) @ q_todo g = cmds" by (auto simp: gw_inv_def)
  have p: "prefix (s_received (q_spsc g)) (s_sent (q_spsc g))"
    using spsc_invD(12) [OF k] by (meson append_prefixD)
  then show "prefix (s_received (q_spsc g)) cmds" using c by (meson prefixI prefix_order.trans)
  show "s_received (q_spsc g) = cmds" if "q_mode g = Stopped"
    using p inv that c by (auto simp: gw_inv_def prefix_def)
qed

end
