(* ===== verification/Gateway_Liveness.thy ===== *)
theory Gateway_Liveness
  imports Gateway_Threads
begin

text \<open>
  The gateway can always shut down: from every reachable state of the two threads a run leads to
  the stop of the matching thread. The argument is a measure on states and, in every state but
  the last, a step of one of the threads that lowers it: the producer goes on while the ring has
  room, the consumer empties a full ring, and after the flag is set the consumer drains and stops.
\<close>

section \<open>Steps of one thread\<close>

fun p_rank :: "'a p_pc \<Rightarrow> nat" where
  "p_rank PIdle = 4"
| "p_rank (PLoad v) = 3"
| "p_rank (PWrite v) = 2"
| "p_rank (PPublish v) = 1"

fun c_rank :: "'a c_pc \<Rightarrow> nat" where
  "c_rank CIdle = 3"
| "c_rank CLoad = 2"
| "c_rank CRead = 1"
| "c_rank (CPublish v) = 0"

definition p_step :: "'a spsc_state \<Rightarrow> 'a spsc_state \<Rightarrow> bool" where
  "p_step s s' \<longleftrightarrow> spsc_step s s' \<and> s_cpc s' = s_cpc s \<and> s_received s' = s_received s \<and>
     (s_sent s' = s_sent s \<and> p_rank (s_ppc s') < p_rank (s_ppc s) \<or>
      length (s_sent s') = Suc (length (s_sent s)) \<and> s_ppc s' = PIdle \<and> s_ppc s \<noteq> PIdle)"

lemma producer_call: "s_ppc s = PIdle \<Longrightarrow> \<exists>s'. p_step s s' \<and> (s_ppc s' = PLoad v \<or> s_ppc s' = PWrite v)"
  using spsc_step.push_call [of s v]
  by (intro exI [of _ "s\<lparr>s_ppc := if looks_full (s_ring s) (s_prod s) then PLoad v else PWrite v\<rparr>"]) (auto simp: p_step_def)

lemma producer_goes_on:
  assumes inv: "spsc_inv k s" and pc: "s_ppc s \<noteq> PIdle" and room: "length (s_sent s) \<noteq> length (s_received s) + 2 ^ k"
  shows "\<exists>s'. p_step s s'"
proof (cases "s_ppc s")
  case (PLoad v)
  note I = spsc_invD [OF inv]
  let ?p = "(s_prod s)\<lparr>p_cached_tail := of_nat (length (s_received s))\<rparr>"
  have "\<not> looks_full (s_ring s) ?p"
    using looks_full_count [OF I(1), of "length (s_received s)" "length (s_sent s)"] I(4,6-9) room by simp
  then show ?thesis
    using spsc_step.push_load [OF PLoad I(6) order_refl refl] PLoad by (intro exI) (auto simp: p_step_def)
next
  case (PWrite v)
  then show ?thesis
    using spsc_step.push_write [OF PWrite spsc_write(1) [OF inv PWrite]] by (intro exI) (auto simp: p_step_def)
next
  case (PPublish v)
  then show ?thesis
    using spsc_step.push_publish [OF PPublish surjective_pairing] by (intro exI) (auto simp: p_step_def)
qed (use pc in simp)

definition c_step :: "'a spsc_state \<Rightarrow> 'a spsc_state \<Rightarrow> bool" where
  "c_step s s' \<longleftrightarrow> spsc_step s s' \<and> s_ppc s' = s_ppc s \<and> s_sent s' = s_sent s \<and>
     (s_cpc s = CLoad \<longrightarrow> s_head_seen s' = length (s_sent s)) \<and>
     (if saw_empty s s' then s_received s' = s_received s \<and> length (s_received s) = length (s_sent s)
      else s_received s' = s_received s \<and> c_rank (s_cpc s') < c_rank (s_cpc s) \<or>
        length (s_received s') = Suc (length (s_received s)) \<and> s_cpc s' = CIdle)"

lemma consumer_goes_on:
  assumes inv: "spsc_inv k s"
  shows "\<exists>s'. c_step s s'"
proof (cases "s_cpc s")
  case CIdle
  then show ?thesis using spsc_step.pop_call [OF CIdle] by (intro exI) (auto simp: c_step_def saw_empty_def)
next
  case CLoad
  note I = spsc_invD [OF inv]
  let ?c = "(s_cons s)\<lparr>c_cached_head := of_nat (length (s_sent s))\<rparr>"
  have "looks_empty ?c \<longleftrightarrow> length (s_received s) = length (s_sent s)"
    using looks_empty_count [OF I(1), of "length (s_received s)" "length (s_sent s)"] I(5-9) by simp
  then show ?thesis
    using spsc_step.pop_load [OF CLoad I(8) order_refl refl] CLoad by (intro exI) (auto simp: c_step_def saw_empty_def)
next
  case CRead
  then show ?thesis
    using spsc_step.pop_read [OF CRead spsc_read(1) [OF inv CRead]] by (intro exI) (auto simp: c_step_def saw_empty_def)
next
  case (CPublish v)
  then show ?thesis
    using spsc_step.pop_publish [OF CPublish surjective_pairing] by (intro exI) (auto simp: c_step_def saw_empty_def)
qed

section \<open>The measure\<close>

fun m_rank :: "bool \<Rightarrow> mode \<Rightarrow> nat" where
  "m_rank shutdown Running = 6"
| "m_rank shutdown Checking = (if shutdown then 4 else 8)"
| "m_rank shutdown Draining = 2"
| "m_rank shutdown Stopped = 0"

definition p_work :: "gw \<Rightarrow> nat" where
  "p_work g = 5 * length (q_todo g) + p_rank (s_ppc (q_spsc g)) + (if q_shutdown g then 0 else 1)"

definition c_work :: "gw \<Rightarrow> nat" where
  "c_work g = 4 * (length (s_sent (q_spsc g)) - length (s_received (q_spsc g))) + c_rank (s_cpc (q_spsc g)) +
     m_rank (q_shutdown g) (q_mode g)"

definition less_work :: "(gw \<times> gw) set" where
  "less_work = measures [p_work, c_work]"

lemma wf_less_work: "wf less_work"
  by (simp add: less_work_def)

text \<open>A step of the producer lowers its work.\<close>

lemma producer_progress:
  assumes "p_step (q_spsc g) q'" and "calls (q_todo g) (s_ppc (q_spsc g)) (s_ppc q')" and "q_todo g \<noteq> []"
  shows "\<exists>g'. gw_step g g' \<and> (g', g) \<in> less_work"
proof -
  let ?g = "g\<lparr>q_spsc := q', q_todo := if length (s_sent (q_spsc g)) < length (s_sent q') then tl (q_todo g) else q_todo g\<rparr>"
  have "gw_step g ?g" using gw_step.produce [OF _ _ assms(2)] assms(1) by (simp add: p_step_def)
  moreover have "p_work ?g < p_work g"
    using assms(1,3) by (cases "q_todo g"; cases "s_ppc (q_spsc g)") (auto simp: p_step_def p_work_def)
  ultimately show ?thesis by (auto simp: less_work_def)
qed

text \<open>A step of the consumer lowers its own, where the ring is not empty or the flag is set.\<close>

lemma consumer_progress:
  assumes inv: "spsc_inv k (q_spsc g)" and run: "q_mode g = Running \<or> q_mode g = Draining"
    and busy: "length (s_received (q_spsc g)) \<noteq> length (s_sent (q_spsc g)) \<or> q_shutdown g"
  shows "\<exists>g'. gw_step g g' \<and> (g', g) \<in> less_work"
proof -
  obtain q' where q': "c_step (q_spsc g) q'" using consumer_goes_on [OF inv] by blast
  have le: "length (s_received q') \<le> length (s_sent q')"
    using spsc_invD(7,8) [OF spsc_step_inv [OF _ inv]] q' by (meson c_step_def order_trans)
  let ?g = "g\<lparr>q_spsc := q', q_mode := if saw_empty (q_spsc g) q' then after_empty (q_mode g) else q_mode g\<rparr>"
  have "gw_step g ?g" using gw_step.consume [OF _ _ run] q' by (simp add: c_step_def)
  moreover have "p_work ?g = p_work g" using q' by (simp add: p_work_def c_step_def)
  moreover have "c_work ?g < c_work g"
  proof (cases "saw_empty (q_spsc g) q'")
    case True
    then show ?thesis using q' run busy by (auto simp: c_work_def c_step_def saw_empty_def)
  next
    case False
    then show ?thesis using q' le by (auto simp: c_work_def c_step_def)
  qed
  ultimately show ?thesis by (auto simp: less_work_def)
qed

lemma check_progress:
  assumes "q_mode g = Checking"
  shows "\<exists>g'. gw_step g g' \<and> (g', g) \<in> less_work"
  using gw_step.check [OF assms, of "q_shutdown g"] assms
  by (intro exI conjI) (auto simp: less_work_def p_work_def c_work_def)

lemma gw_progress:
  assumes inv: "gw_inv cmds g" and go: "q_mode g \<noteq> Stopped"
  shows "\<exists>g'. gw_step g g' \<and> (g', g) \<in> less_work"
proof -
  from inv obtain k where k: "spsc_inv k (q_spsc g)" "prefix (value_of (s_ppc (q_spsc g))) (q_todo g)"
    "q_shutdown g \<longrightarrow> q_todo g = []" "q_mode g = Draining \<longrightarrow> q_shutdown g" by (auto simp: gw_inv_def)
  have consumer: ?thesis if "length (s_received (q_spsc g)) \<noteq> length (s_sent (q_spsc g)) \<or> q_shutdown g"
  proof (cases "q_mode g")
    case Checking
    then show ?thesis by (rule check_progress)
  qed (use that consumer_progress [OF k(1)] go in auto)
  show ?thesis
  proof (cases "q_todo g")
    case Nil
    then have idle: "s_ppc (q_spsc g) = PIdle" using k(2) by (cases "s_ppc (q_spsc g)") auto
    show ?thesis
    proof (cases "q_shutdown g")
      case False
      then show ?thesis
        using gw_step.set_shutdown [OF Nil idle] by (intro exI conjI) (auto simp: less_work_def p_work_def)
    qed (use consumer in blast)
  next
    case (Cons v vs)
    show ?thesis
    proof (cases "s_ppc (q_spsc g) = PIdle")
      case True
      from producer_call [OF this, of v] obtain q' where "p_step (q_spsc g) q'" "s_ppc q' = PLoad v \<or> s_ppc q' = PWrite v" by blast
      then show ?thesis using producer_progress True Cons by auto
    next
      case False
      then have calls: "calls (q_todo g) (s_ppc (q_spsc g)) pc" for pc by (cases "s_ppc (q_spsc g)") auto
      show ?thesis
      proof (cases "length (s_sent (q_spsc g)) = length (s_received (q_spsc g)) + 2 ^ k")
        case True
        then show ?thesis using consumer by simp
      next
        case room: False
        from producer_goes_on [OF k(1) False room] obtain q' where "p_step (q_spsc g) q'" by blast
        then show ?thesis using producer_progress [OF _ calls] Cons by auto
      qed
    qed
  qed
qed

lemma gw_can_stop: "gw_inv cmds g \<Longrightarrow> \<exists>g'. gw_step\<^sup>*\<^sup>* g g' \<and> q_mode g' = Stopped"
proof (induction g rule: wf_induct_rule [OF wf_less_work])
  case (1 g)
  show ?case
  proof (cases "q_mode g = Stopped")
    case False
    then obtain g1 where g1: "gw_step g g1" "(g1, g) \<in> less_work" using gw_progress [OF "1.prems"] by blast
    from "1.IH" [OF g1(2) gw_step_inv [OF g1(1) "1.prems"]] g1(1) show ?thesis
      by (meson converse_rtranclp_into_rtranclp)
  qed blast
qed

lemma gw_reachable_steps: "gw_step\<^sup>*\<^sup>* g g' \<Longrightarrow> gw_reachable capacity cmds g \<Longrightarrow> gw_reachable capacity cmds g'"
  by (induction rule: rtranclp_induct) (auto intro: gw_reachable.step)

end
