(* ===== verification/Subscriber.thy ===== *)
theory Subscriber
  imports Gateway_Laws
begin

text \<open>
  \<open>src/examples/subscriber.rs\<close>: the receiver of the execution reports. The socket is data: what each
  \<open>recv_from\<close> returns, a datagram or an error. What the program prints is a list of events. The
  lemmas relate it to the sender in \<open>Gateway\<close>: it reports a gap exactly where datagrams were lost.
\<close>

section \<open>The program\<close>

datatype sub_event =
  RecvError
| ShortPacket nat
| DecodeError protocol_error
| Gap u32 u32 u32
| Printed execution_report

record subscriber =
  b_buf :: "u8 list"
  b_expected_seq :: u32

definition subscriber_new :: subscriber where
  "subscriber_new = \<lparr>b_buf = replicate EXECUTION_REPORT_SIZE 0, b_expected_seq = 1\<rparr>"

text \<open>\<open>recv_from\<close> fills the buffer from its start; what does not fit of the datagram is dropped.\<close>

definition recv_from :: "u8 list \<Rightarrow> u8 list \<Rightarrow> nat \<times> u8 list" where
  "recv_from buf datagram =
     (let n = min (length buf) (length datagram) in (n, splice buf 0 (take n datagram)))"

text \<open>One round of the \<open>loop\<close>: the events and the state after it. \<open>None\<close> is an error of the socket.\<close>

definition on_recv :: "subscriber \<Rightarrow> u8 list option \<Rightarrow> sub_event list \<times> subscriber" where
  "on_recv b recv =
     (case recv of
        None \<Rightarrow> ([RecvError], b)
      | Some datagram \<Rightarrow>
          (case recv_from (b_buf b) datagram of (n, buf) \<Rightarrow>
             let b = b\<lparr>b_buf := buf\<rparr> in
             if n < EXECUTION_REPORT_SIZE then ([ShortPacket n], b)
             else
               (case decode_execution_report (b_buf b) of
                  Inl e \<Rightarrow> ([DecodeError e], b)
                | Inr report \<Rightarrow>
                    ((if x_seq_num report \<noteq> b_expected_seq b
                      then [Gap (b_expected_seq b) (x_seq_num report) (x_seq_num report - b_expected_seq b)] else []) @
                       [Printed report],
                     b\<lparr>b_expected_seq := x_seq_num report + 1\<rparr>))))"

fun subscribe :: "subscriber \<Rightarrow> u8 list option list \<Rightarrow> sub_event list" where
  "subscribe b [] = []"
| "subscribe b (recv # recvs) = (case on_recv b recv of (events, b) \<Rightarrow> events @ subscribe b recvs)"

text \<open>The program: it panics where the socket cannot be bound or the group not joined, and then receives for ever.\<close>

definition subscriber_main :: "bool \<Rightarrow> bool \<Rightarrow> u8 list option list \<Rightarrow> sub_event list option" where
  "subscriber_main bound joined recvs =
     (if \<not> bound then None
      else if \<not> joined then None
      else Some (subscribe subscriber_new recvs))"

section \<open>Datagrams in sequence\<close>

text \<open>The datagrams \<open>ds\<close> carry the reports \<open>rs\<close>, numbered from \<open>n\<close> on.\<close>

fun sequenced :: "u32 \<Rightarrow> u8 list list \<Rightarrow> execution_report list \<Rightarrow> bool" where
  "sequenced n [] [] \<longleftrightarrow> True"
| "sequenced n (d # ds) (r # rs) \<longleftrightarrow> length d = 48 \<and> decode_execution_report d = Inr r \<and> x_seq_num r = n \<and>
     sequenced (n + 1) ds rs"
| "sequenced n _ _ \<longleftrightarrow> False"

lemma sequenced_length: "sequenced n ds rs \<Longrightarrow> length ds = length rs"
  by (induction n ds rs rule: sequenced.induct) auto

lemma sequenced_append:
  "sequenced n ds ps \<Longrightarrow> sequenced (n + of_nat (length ds)) es qs \<Longrightarrow> sequenced n (ds @ es) (ps @ qs)"
  by (induction n ds ps rule: sequenced.induct) (simp_all add: ac_simps)

lemma sequenced_split:
  "sequenced n (ds @ es) rs \<Longrightarrow>
     sequenced n ds (take (length ds) rs) \<and> sequenced (n + of_nat (length ds)) es (drop (length ds) rs)"
proof (induction ds arbitrary: n rs)
  case (Cons d ds)
  then show ?case using Cons.IH [of "n + 1" "tl rs"] by (cases rs) (simp_all add: ac_simps)
qed simp

lemma sequenced_decode: "sequenced n ds rs \<Longrightarrow> map decode_execution_report ds = map Inr rs"
  by (induction n ds rs rule: sequenced.induct) auto

text \<open>The sender numbers its datagrams from one on, whatever it is sent.\<close>

definition sends_in_sequence :: "matcher \<Rightarrow> bool" where
  "sends_in_sequence m \<longleftrightarrow> length (m_report_buf m) = 48 \<and> m_seq_num m = of_nat (length (m_sent m)) \<and>
     (\<exists>rs. sequenced 1 (m_sent m) rs)"

lemma reports_sequenced: "\<exists>rs. sequenced (n + 1) (reports n ts fs) rs"
proof (induction fs arbitrary: n)
  case Nil
  show ?case by (intro exI [of _ "[]"]) simp
next
  case (Cons f fs)
  then obtain rs where "sequenced (n + 1 + 1) (reports (n + 1) ts fs) rs" by blast
  then show ?case
    using decode_execution_report_bytes [of "n + 1" f ts "[]"]
    by (intro exI [of _ "\<lparr>x_seq_num = n + 1, x_taker_order_id = f_taker_order_id f, x_maker_order_id = f_maker_order_id f,
      x_price = f_price f, x_quantity = f_quantity f, x_timestamp = ts\<rparr> # rs"]) simp
qed

lemma report_fills_sequence: "sends_in_sequence m \<Longrightarrow> sends_in_sequence (report_fills m ts fs)"
  using report_fills_spec [of m ts fs] reports_sequenced [of "m_seq_num m" ts fs]
  by (auto simp: sends_in_sequence_def ac_simps intro: sequenced_append)

lemma process_command_sequence:
  assumes "process_command crc cmd m g = Some m'" and "sends_in_sequence m"
  shows "sends_in_sequence m'"
proof -
  have upd: "sends_in_sequence (m\<lparr>m_wal := w\<rparr>)" "sends_in_sequence (x\<lparr>m_engine := e\<rparr>) = sends_in_sequence x" for w x e
    using assms(2) by (simp_all add: sends_in_sequence_def)
  have "\<exists>m1. sends_in_sequence m1 \<and> (m' = m1 \<or> (\<exists>ts fs. m' = report_fills m1 ts fs))"
    using assms upd by (cases cmd)
      (auto simp: process_command_def Let_def split: Option.bind_splits option.splits sum.splits, metis+)
  then show ?thesis using report_fills_sequence by blast
qed

lemma drain_loop_sequence:
  "drain_loop k st obs = Some (st', b) \<Longrightarrow> sends_in_sequence (l_matcher st) \<Longrightarrow> sends_in_sequence (l_matcher st')"
  by (induction k st obs rule: drain_loop.induct)
    (auto split: Option.bind_splits dest: process_command_sequence)

lemma on_command_sequence:
  "on_command k interval st cmd g io = Some st' \<Longrightarrow> sends_in_sequence (l_matcher st) \<Longrightarrow> sends_in_sequence (l_matcher st')"
  by (auto simp: on_command_def Let_def split: Option.bind_splits option.splits if_splits dest: process_command_sequence)

lemma matching_loop_sequence:
  "matching_loop k interval st obs = Some (st', b) \<Longrightarrow> sends_in_sequence (l_matcher st) \<Longrightarrow> sends_in_sequence (l_matcher st')"
  by (induction k interval st obs rule: matching_loop.induct)
    (auto split: Option.bind_splits if_splits dest: on_command_sequence drain_loop_sequence)

section \<open>What the subscriber prints\<close>

definition gap :: "u32 \<Rightarrow> u32 \<Rightarrow> sub_event list" where
  "gap n m = (if m = n then [] else [Gap n m (m - n)])"

lemma on_recv_report:
  assumes "length (b_buf b) = 48" and "length d = 48" and "decode_execution_report d = Inr r"
  shows "on_recv b (Some d) = (gap (b_expected_seq b) (x_seq_num r) @ [Printed r],
    \<lparr>b_buf = d, b_expected_seq = x_seq_num r + 1\<rparr>)"
  using assms by (auto simp: on_recv_def recv_from_def Let_def splice_def gap_def)

lemma subscribe_sequence:
  "sequenced n ds rs \<Longrightarrow> length (b_buf b) = 48 \<Longrightarrow> ds \<noteq> [] \<Longrightarrow>
     subscribe b (map Some (ds @ es)) = gap (b_expected_seq b) n @ map Printed rs @
       subscribe \<lparr>b_buf = last ds, b_expected_seq = n + of_nat (length ds)\<rparr> (map Some es) \<and> length (last ds) = 48"
proof (induction n ds rs arbitrary: b rule: sequenced.induct)
  case (2 n d ds r rs)
  have r: "on_recv b (Some d) = (gap (b_expected_seq b) n @ [Printed r], \<lparr>b_buf = d, b_expected_seq = n + 1\<rparr>)"
    using on_recv_report [of b d r] "2.prems" by simp
  show ?case
  proof (cases ds)
    case Nil
    then show ?thesis using r "2.prems" sequenced_length [of "n + 1" ds rs] by simp
  next
    case (Cons d' ds')
    with "2.IH" [of "\<lparr>b_buf = d, b_expected_seq = n + 1\<rparr>"] "2.prems" r show ?thesis
      by (simp add: gap_def ac_simps)
  qed
qed simp_all

end
