(* ===== verification/Gateway_Reports.thy ===== *)
theory Gateway_Reports
  imports Subscriber
begin

text \<open>
  What the matching thread multicasts over a whole run: the reports of all fills that the commands
  return, in their order and numbered from one; and what a subscriber that receives them prints.
  An order that is refused returns no fills, and so none are reported for it.
\<close>

text \<open>The fills the commands of a run return, each with the time stamp of its taker.\<close>

fun run_fills :: "nat \<Rightarrow> abook \<Rightarrow> engine_command list \<Rightarrow> (fill \<times> u64) list" where
  "run_fills cap A [] = []"
| "run_fills cap A (c # cs) = map (\<lambda>f. (f, time_of c)) (a_fills cap A c) @ run_fills cap (a_command cap A c) cs"

lemma run_fills_append: "run_fills cap A (cs @ ds) = run_fills cap A cs @ run_fills cap (a_run cap A cs) ds"
  by (induction cs arbitrary: A) simp_all

text \<open>The reports of these fills, the first numbered \<open>n + 1\<close>.\<close>

definition report_of :: "u32 \<Rightarrow> fill \<times> u64 \<Rightarrow> execution_report" where
  "report_of n = (\<lambda>(f, ts). \<lparr>x_seq_num = n, x_taker_order_id = f_taker_order_id f, x_maker_order_id = f_maker_order_id f,
     x_price = f_price f, x_quantity = f_quantity f, x_timestamp = ts\<rparr>)"

fun numbered :: "u32 \<Rightarrow> (fill \<times> u64) list \<Rightarrow> execution_report list" where
  "numbered n [] = []"
| "numbered n (x # xs) = report_of (n + 1) x # numbered (n + 1) xs"

lemma length_numbered [simp]: "length (numbered n xs) = length xs"
  by (induction xs arbitrary: n) simp_all

lemma numbered_append: "numbered n (xs @ ys) = numbered n xs @ numbered (n + of_nat (length xs)) ys"
  by (induction xs arbitrary: n) (simp_all add: ac_simps)

lemma sequenced_reports: "sequenced (n + 1) (reports n ts fs) (numbered n (map (\<lambda>f. (f, ts)) fs))"
proof (induction fs arbitrary: n)
  case (Cons f fs)
  show ?case
    using Cons.IH [of "n + 1"] decode_execution_report_bytes [of "n + 1" f ts "[]"] by (simp add: report_of_def)
qed simp

text \<open>
  A matching thread that began with the book \<open>A\<close> and has taken the commands \<open>cs\<close>: it has the book they lead
  to, and has sent the reports of the fills they returned.
\<close>

definition reporting :: "(u8 list \<Rightarrow> u32) \<Rightarrow> nat \<Rightarrow> abook \<Rightarrow> engine_command list \<Rightarrow> matcher \<Rightarrow> bool" where
  "reporting crc cap A cs m \<longleftrightarrow> matcher_ok crc cap m (a_run cap A cs) \<and>
     sequenced 1 (m_sent m) (numbered 0 (run_fills cap A cs)) \<and> m_seq_num m = of_nat (length (run_fills cap A cs))"

lemma reporting_start:
  "matcher_ok crc cap (l_matcher (start_loop e w dir)) A \<Longrightarrow> reporting crc cap A [] (l_matcher (start_loop e w dir))"
  by (simp add: reporting_def start_loop_def)

lemma process_command_reporting:
  assumes "reporting crc cap A cs m"
  shows "\<exists>m'. process_command crc cmd m g = Some m' \<and> reporting crc cap A (cs @ [cmd]) m'"
proof -
  let ?B = "a_run cap A cs" and ?xs = "run_fills cap A cs"
  let ?fs = "a_fills cap ?B cmd"
  from assms have ok: "matcher_ok crc cap m ?B" and sent: "sequenced 1 (m_sent m) (numbered 0 ?xs)"
    and n: "m_seq_num m = of_nat (length ?xs)" by (simp_all add: reporting_def)
  obtain m' where m': "process_command crc cmd m g = Some m'" "matcher_ok crc cap m' (a_command cap ?B cmd)"
    "m_sent m' = m_sent m @ reports (m_seq_num m) (time_of cmd) ?fs" "m_seq_num m' = m_seq_num m + of_nat (length ?fs)"
    using process_command_ok [OF ok, of cmd g] by blast
  have len: "length (m_sent m) = length ?xs" using sequenced_length [OF sent] by simp
  have "sequenced 1 (m_sent m @ reports (of_nat (length ?xs)) (time_of cmd) ?fs)
      (numbered 0 ?xs @ numbered (of_nat (length ?xs)) (map (\<lambda>f. (f, time_of cmd)) ?fs))"
    using sent sequenced_reports [of "of_nat (length ?xs)" "time_of cmd" ?fs] len
    by (intro sequenced_append) (simp_all add: add.commute)
  then show ?thesis
    using m' n by (simp add: reporting_def run_fills_append numbered_append)
qed

lemma on_command_reporting:
  assumes "reporting (crc_hash k) cap A cs (l_matcher st)"
  shows "\<exists>st'. on_command k interval st cmd g io = Some st' \<and> reporting (crc_hash k) cap A (cs @ [cmd]) (l_matcher st')"
proof -
  from assms have "matcher_ok (crc_hash k) cap (l_matcher st) (a_run cap A cs)" by (simp add: reporting_def)
  from on_command_ok [OF this] process_command_reporting [OF assms, of cmd g] show ?thesis by fastforce
qed

text \<open>The loop goes on, whatever the file system answers, until the schedule ends it.\<close>

fun drain_ended :: "observation list \<Rightarrow> bool" where
  "drain_ended [] = False"
| "drain_ended (Popped cmd g io # obs) = drain_ended obs"
| "drain_ended (EmptySeen b # obs) = True"

fun loop_ended :: "observation list \<Rightarrow> bool" where
  "loop_ended [] = False"
| "loop_ended (Popped cmd g io # obs) = loop_ended obs"
| "loop_ended (EmptySeen b # obs) = (if b then drain_ended obs else loop_ended obs)"

lemma drain_loop_reporting:
  "reporting (crc_hash k) cap A cs (l_matcher st) \<Longrightarrow>
     \<exists>st'. drain_loop k st obs = Some (st', drain_ended obs) \<and> reporting (crc_hash k) cap A (cs @ drained obs) (l_matcher st')"
proof (induction k st obs arbitrary: cs rule: drain_loop.induct)
  case (2 k st cmd g io obs)
  obtain m where m: "process_command (crc_hash k) cmd (l_matcher st) g = Some m" "reporting (crc_hash k) cap A (cs @ [cmd]) m"
    using process_command_reporting [OF "2.prems", of cmd g] by blast
  with "2.IH" [OF m(1), of "cs @ [cmd]"] show ?case by simp
qed simp_all

lemma matching_loop_reporting:
  "reporting (crc_hash k) cap A cs (l_matcher st) \<Longrightarrow>
     \<exists>st'. matching_loop k interval st obs = Some (st', loop_ended obs) \<and>
       reporting (crc_hash k) cap A (cs @ consumed obs) (l_matcher st')"
proof (induction k interval st obs arbitrary: cs rule: matching_loop.induct)
  case (2 k interval st cmd g io obs)
  obtain st1 where st1: "on_command k interval st cmd g io = Some st1" "reporting (crc_hash k) cap A (cs @ [cmd]) (l_matcher st1)"
    using on_command_reporting [OF "2.prems", of interval cmd g io] by blast
  with "2.IH" [OF st1(1), of "cs @ [cmd]"] show ?case by simp
next
  case (3 k interval st b obs)
  then show ?case using "3.IH" [of cs] drain_loop_reporting [OF "3.prems", of obs] by (cases b) auto
qed simp

text \<open>A subscriber that receives a whole sequence prints it and reports no gap.\<close>

lemma subscribe_all:
  assumes "sequenced 1 ds rs"
  shows "subscribe subscriber_new (map Some ds) = map Printed rs"
proof (cases "ds = []")
  case True
  then show ?thesis using sequenced_length [OF assms] by simp
next
  case False
  then show ?thesis
    using subscribe_sequence [OF assms, of subscriber_new "[]"] by (simp add: subscriber_new_def gap_def)
qed

end
