(* ===== verification/Texts.thy ===== *)
theory Texts
  imports Gateway
begin

text \<open>
  The texts of the errors: the implementations of \<open>Display\<close> in \<open>src/src/protocol.rs\<close>, \<open>wal.rs\<close>,
  \<open>snapshot.rs\<close>, \<open>recovery.rs\<close> and \<open>gateway.rs\<close>, the derived \<open>Debug\<close> of the matching errors, which a
  failed restore carries, and the two \<open>Debug\<close> implementations written by hand. What the operating
  system and \<open>bincode\<close> say of an error are parameters, one text for each kind of failure, since the
  model does not keep which \<open>io::Error\<close> it was. The lemmas show that numbers can be read back from their
  digits, so that the texts of the errors of the protocol and of the engine, and those that carry an
  offset or checksums, tell what was wrong.
\<close>

section \<open>Numbers\<close>

fun hex_digit :: "nat \<Rightarrow> char" where
  "hex_digit d = (if d < 10 then char_of (48 + d) else char_of (87 + d))"

text \<open>\<open>{:x}\<close>, and the padding of \<open>{:02x}\<close> and \<open>{:#010x}\<close> (whose width counts the \<open>0x\<close>).\<close>

fun hexadecimal :: "nat \<Rightarrow> string" where
  "hexadecimal n = (if n < 16 then [hex_digit n] else hexadecimal (n div 16) @ [hex_digit (n mod 16)])"

declare hexadecimal.simps [simp del]

definition pad0 :: "nat \<Rightarrow> string \<Rightarrow> string" where
  "pad0 w s = replicate (w - length s) (CHR ''0'') @ s"

definition i64_text :: "i64 \<Rightarrow> string" where
  "i64_text x = (if i64_val x < 0 then ''-'' @ decimal (nat (- i64_val x)) else decimal (nat (i64_val x)))"

section \<open>Errors\<close>

record texts =
  t_io :: string
  t_serialize :: string
  t_deserialize :: string

fun protocol_error_text :: "protocol_error \<Rightarrow> string" where
  "protocol_error_text BufferTooShort = ''buffer too short''"
| "protocol_error_text (UnknownMessageType t) = ''unknown message type: 0x'' @ pad0 2 (hexadecimal (unat t))"
| "protocol_error_text (InvalidSide s) = ''invalid side: '' @ decimal (unat s)"
| "protocol_error_text ZeroQuantityMsg = ''zero quantity''"

fun wal_error_text :: "texts \<Rightarrow> wal_error \<Rightarrow> string" where
  "wal_error_text t WalIo = ''wal io error: '' @ t_io t"
| "wal_error_text t (WalProtocol e) = ''wal protocol error: '' @ protocol_error_text e"
| "wal_error_text t (Corruption offset) = ''wal corruption at offset '' @ decimal offset"
| "wal_error_text t (TruncatedRecord offset) = ''wal truncated record at offset '' @ decimal offset"

fun book_error_debug :: "book_error \<Rightarrow> string" where
  "book_error_debug (DuplicateOrderId d) = ''DuplicateOrderId('' @ decimal (unat d) @ '')''"
| "book_error_debug (OrderNotFound d) = ''OrderNotFound('' @ decimal (unat d) @ '')''"
| "book_error_debug (PriceLevelNotFound p) = ''PriceLevelNotFound('' @ i64_text p @ '')''"
| "book_error_debug (FillExceedsQuantity a r) =
     ''FillExceedsQuantity { available: '' @ decimal (unat a) @ '', requested: '' @ decimal (unat r) @ '' }''"
| "book_error_debug ArenaFull = ''ArenaFull''"

fun matching_error_debug :: "matching_error \<Rightarrow> string" where
  "matching_error_debug (BookError e) = ''Book('' @ book_error_debug e @ '')''"
| "matching_error_debug ZeroQuantity = ''ZeroQuantity''"

fun snapshot_error_text :: "texts \<Rightarrow> snapshot_error \<Rightarrow> string" where
  "snapshot_error_text t SnapIo = ''snapshot io error: '' @ t_io t"
| "snapshot_error_text t Serialize = ''snapshot serialize error: '' @ t_serialize t"
| "snapshot_error_text t Deserialize = ''snapshot deserialize error: '' @ t_deserialize t"
| "snapshot_error_text t (ChecksumMismatch expected actual) =
     ''snapshot checksum mismatch: expected 0x'' @ pad0 8 (hexadecimal (unat expected)) @
     '', got 0x'' @ pad0 8 (hexadecimal (unat actual))"
| "snapshot_error_text t (Restore e) = ''snapshot restore error: '' @ matching_error_debug e"

fun recovery_error_text :: "texts \<Rightarrow> recovery_error \<Rightarrow> string" where
  "recovery_error_text t (RecWal e) = ''recovery wal error: '' @ wal_error_text t e"
| "recovery_error_text t (RecSnapshot e) = ''recovery snapshot error: '' @ snapshot_error_text t e"

fun gateway_error_text :: "texts \<Rightarrow> gateway_error \<Rightarrow> string" where
  "gateway_error_text t GwIo = ''io error: '' @ t_io t"
| "gateway_error_text t (GwProtocol e) = ''protocol error: '' @ protocol_error_text e"

section \<open>Debugging output\<close>

fun side_debug :: "side \<Rightarrow> string" where
  "side_debug Bid = ''Bid''"
| "side_debug Ask = ''Ask''"

text \<open>\<open>f.debug_struct(name)\<close> with its fields, in the compact form.\<close>

fun debug_fields :: "(string \<times> string) list \<Rightarrow> string" where
  "debug_fields [] = []"
| "debug_fields [(name, val)] = name @ '': '' @ val"
| "debug_fields ((name, val) # fds) = name @ '': '' @ val @ '', '' @ debug_fields fds"

definition order_node_debug :: "order_node \<Rightarrow> string" where
  "order_node_debug n = ''OrderNode { '' @ debug_fields
     [(''id'', decimal (unat (n_id n))), (''trader_id'', decimal (unat (n_trader_id n))),
      (''price'', i64_text (n_price n)), (''quantity'', decimal (unat (n_quantity n))),
      (''timestamp'', decimal (unat (n_timestamp n))), (''prev'', decimal (unat (n_prev n))),
      (''next'', decimal (unat (n_next n))), (''side'', side_debug (n_side n))] @ '' }''"

text \<open>\<open>Full\<close> does not print the value it gives back.\<close>

definition full_debug :: "'a \<Rightarrow> string" where
  "full_debug val = ''Full(..)''"

section \<open>Reading the numbers back\<close>

definition dec_value :: "string \<Rightarrow> nat" where
  "dec_value = foldl (\<lambda>v c. 10 * v + (of_char c - 48)) 0"

lemma dec_value_decimal: "dec_value (decimal n) = n"
proof (induction n rule: decimal.induct)
  case (1 n)
  then show ?case by (simp add: decimal.simps [of n] dec_value_def of_char_digit)
qed

lemma decimal_inj [simp]: "decimal m = decimal n \<longleftrightarrow> m = n"
  by (metis dec_value_decimal)

lemma decimal_not [simp]: "CHR '','' \<notin> set (decimal n)" "CHR ''-'' \<notin> set (decimal n)"
  using decimal_chars [of "CHR '',''" n] decimal_chars [of "CHR ''-''" n] by auto

text \<open>A number is followed by a character that is no digit.\<close>

lemma until_comma:
  assumes "CHR '','' \<notin> set xs" and "CHR '','' \<notin> set ys" and "xs @ CHR '','' # us = ys @ CHR '','' # vs"
  shows "xs = ys \<and> us = vs"
proof -
  have "takeWhile (\<lambda>c. c \<noteq> CHR '','') (zs @ CHR '','' # ws) = zs" if "CHR '','' \<notin> set zs" for zs ws :: string
    using that by (induction zs) auto
  with assms have "xs = ys" by metis
  with assms(3) show ?thesis by simp
qed

definition hex_value :: "string \<Rightarrow> nat" where
  "hex_value = foldl (\<lambda>v c. 16 * v + (if of_char c < (58 :: nat) then of_char c - 48 else of_char c - 87)) 0"

lemma of_char_hex_digit: "d < 16 \<Longrightarrow> (of_char (hex_digit d) :: nat) = (if d < 10 then 48 + d else 87 + d)"
  by simp

lemma hex_value_hexadecimal: "hex_value (hexadecimal n) = n"
proof (induction n rule: hexadecimal.induct)
  case (1 n)
  show ?case
  proof (cases "n < 16")
    case True
    then show ?thesis by (simp add: hexadecimal.simps [of n] hex_value_def of_char_hex_digit del: hex_digit.simps)
  next
    case False
    have "n mod 16 < 16" by simp
    with False 1 [OF False] show ?thesis
      by (simp add: hexadecimal.simps [of n] hex_value_def of_char_hex_digit del: hex_digit.simps)
  qed
qed

lemma hex_value_pad: "hex_value (pad0 w s) = hex_value s"
proof -
  have "foldl (\<lambda>v c. 16 * v + (if of_char c < (58 :: nat) then of_char c - 48 else of_char c - 87)) (0 :: nat)
      (replicate m (CHR ''0'')) = 0" for m by (induction m) simp_all
  then show ?thesis by (simp add: hex_value_def pad0_def)
qed

lemma hex_inj [simp]: "pad0 w (hexadecimal m) = pad0 w (hexadecimal n) \<longleftrightarrow> m = n"
  by (metis hex_value_pad hex_value_hexadecimal)

lemma length_hexadecimal: "n < 16 ^ w \<Longrightarrow> 0 < w \<Longrightarrow> length (hexadecimal n) \<le> w"
proof (induction n arbitrary: w rule: hexadecimal.induct)
  case (1 n)
  show ?case
  proof (cases "n < 16")
    case True
    then show ?thesis using 1(3) by (simp add: hexadecimal.simps [of n])
  next
    case False
    then obtain v where v: "w = Suc v" "0 < v" using "1.prems" by (cases w; cases "w - 1") auto
    then have "n div 16 < 16 ^ v" using 1(2) by (simp add: less_mult_imp_div_less mult.commute)
    with 1(1) [OF False this v(2)] False v show ?thesis by (simp add: hexadecimal.simps [of n])
  qed
qed

lemma length_hex32 [simp]: "length (pad0 8 (hexadecimal (unat (x :: u32)))) = 8"
  using length_hexadecimal [of "unat x" 8] unat_lt2p [of x] by (simp add: pad0_def)

lemma i64_text_inj [simp]: "i64_text x = i64_text y \<longleftrightarrow> x = y"
proof -
  have "decimal n \<noteq> CHR ''-'' # s" for n s using decimal_not(2) [of n] by (metis list.set_intros(1))
  then have "i64_text x = i64_text y \<Longrightarrow> i64_val x = i64_val y"
    by (auto simp: i64_text_def split: if_splits dest: sym)
  then show ?thesis by (cases x; cases y) (auto simp: i64_val_def dest: signed_word_eqI)
qed

section \<open>Errors that carry numbers\<close>

lemma protocol_error_text_inj [simp]: "protocol_error_text e = protocol_error_text e' \<longleftrightarrow> e = e'"
  by (cases e; cases e') (simp_all add: word_unat_eq_iff)

lemma book_error_debug_inj [simp]: "book_error_debug e = book_error_debug e' \<longleftrightarrow> e = e'"
proof (cases "\<exists>a r a' r'. e = FillExceedsQuantity a r \<and> e' = FillExceedsQuantity a' r'")
  case True
  then obtain a r a' r' where e: "e = FillExceedsQuantity a r" "e' = FillExceedsQuantity a' r'" by blast
  have "book_error_debug e = book_error_debug e' \<Longrightarrow> a = a' \<and> r = r'"
    using until_comma [of "decimal (unat a)" "decimal (unat a')" "'' requested: '' @ decimal (unat r) @ '' }''"
      "'' requested: '' @ decimal (unat r') @ '' }''"] unfolding e by (simp add: word_unat_eq_iff)
  with e show ?thesis by auto
next
  case False
  then show ?thesis by (cases e; cases e') (simp_all flip: word_unat_eq_iff)
qed

lemma matching_error_debug_inj [simp]: "matching_error_debug e = matching_error_debug e' \<longleftrightarrow> e = e'"
  by (cases e; cases e') simp_all

lemma offset_text_inj:
  "wal_error_text t (Corruption m) = wal_error_text t (Corruption n) \<longleftrightarrow> m = n"
  "wal_error_text t (TruncatedRecord m) = wal_error_text t (TruncatedRecord n) \<longleftrightarrow> m = n"
  "wal_error_text t (Corruption m) \<noteq> wal_error_text t (TruncatedRecord n)"
  by simp_all

lemma checksum_text_inj:
  "snapshot_error_text t (ChecksumMismatch x y) = snapshot_error_text t (ChecksumMismatch x' y') \<longleftrightarrow> x = x' \<and> y = y'"
  by (simp add: append_eq_append_conv word_unat_eq_iff)

end
