(* ===== verification/Entry.thy ===== *)
theory Entry
  imports Texts
begin

text \<open>
  \<open>src/src/main.rs\<close>, and what \<open>run\<close> of \<open>src/src/gateway.rs\<close> prints. The lines written to the standard
  error stream are a list of strings; the address of the peer and the texts of the operating
  system are parameters.
\<close>

text \<open>\<open>SocketAddr\<close> of an IPv4 address.\<close>

fun dotted :: "nat list \<Rightarrow> string" where
  "dotted [] = []"
| "dotted [n] = decimal n"
| "dotted (n # ns) = decimal n @ ''.'' @ dotted ns"

definition socket_text :: "nat list \<times> nat \<Rightarrow> string" where
  "socket_text = (\<lambda>(ip, port). dotted ip @ '':'' @ decimal port)"

text \<open>The line for a failed recovery.\<close>

definition recovery_failed_line :: "texts \<Rightarrow> recovery_error \<Rightarrow> string" where
  "recovery_failed_line t e = ''ferrox: recovery failed: '' @ recovery_error_text t e @ '', starting fresh''"

definition run_log ::
  "texts \<Rightarrow> codecs \<Rightarrow> gateway_config \<Rightarrow> disk \<Rightarrow> recovery_io \<Rightarrow> net_io \<Rightarrow> string \<Rightarrow> string list" where
  "run_log t k config disk io net peer =
     (case g_data_dir config of
        Some _ \<Rightarrow>
          (case recover k disk (g_arena_capacity config) io of
             Some (Inl e) \<Rightarrow> [recovery_failed_line t e]
           | _ \<Rightarrow> [])
      | None \<Rightarrow> []) @
     (if \<not> n_udp net then []
      else if \<not> n_listen net then []
      else [''ferrox: listening on '' @ socket_text (g_listen_addr config)] @
        (if \<not> n_accept net then []
         else [''ferrox: client connected from '' @ peer, ''ferrox: client disconnected, shutting down'']))"

text \<open>The lines \<open>main\<close> prints before it calls \<open>run\<close>; the version is that of \<open>Cargo.toml\<close>.\<close>

definition banner :: "gateway_config \<Rightarrow> string list" where
  "banner config =
     [''Ferrox - Order Matching Engine'',
      ''ferrox v0.1.0'',
      ''  tcp listen:  '' @ socket_text (g_listen_addr config),
      ''  udp multicast: '' @ socket_text (g_multicast_addr config),
      ''  ring capacity: '' @ decimal (unat (g_ring_capacity config)),
      ''  arena capacity: '' @ decimal (unat (g_arena_capacity config)),
      (case g_data_dir config of Some dir \<Rightarrow> ''  data dir:    '' @ dir | None \<Rightarrow> ''  persistence: disabled''),
      []]"

definition main ::
  "texts \<Rightarrow> codecs \<Rightarrow> disk \<Rightarrow> recovery_io \<Rightarrow> net_io \<Rightarrow> string \<Rightarrow> (nat \<Rightarrow> u64) \<Rightarrow> stream_end \<Rightarrow> u8 list \<Rightarrow>
     observation list \<Rightarrow> string list \<times> ((gateway_error + unit) \<times> loop_state) option" where
  "main t k disk io net peer now fin bytes obs =
     (let config = gateway_config_default in
      (banner config @ run_log t k config disk io net peer, run k config disk io net now fin bytes obs))"

section \<open>What is printed\<close>

lemma digit_chars:
  "digit 0 = CHR ''0''" "digit 1 = CHR ''1''" "digit 2 = CHR ''2''" "digit 3 = CHR ''3''" "digit 4 = CHR ''4''"
  "digit 5 = CHR ''5''" "digit 6 = CHR ''6''" "digit 7 = CHR ''7''" "digit 8 = CHR ''8''" "digit 9 = CHR ''9''"
  by (code_simp+)

lemma banner_default:
  "banner gateway_config_default =
     [''Ferrox - Order Matching Engine'', ''ferrox v0.1.0'', ''  tcp listen:  0.0.0.0:9000'',
      ''  udp multicast: 239.1.1.1:9001'', ''  ring capacity: 65536'', ''  arena capacity: 1048576'',
      ''  persistence: disabled'', []]"
  by (simp add: banner_def gateway_config_default_def socket_text_def decimal.simps digit_chars digit_chars(2) [unfolded One_nat_def])

text \<open>
  The program as it is started has no data directory: it never touches the disk, and no recovery
  is attempted or reported.
\<close>

lemma main_without_disk:
  "main t k disk io net peer now fin bytes obs = main t k disk' io' net peer now fin bytes obs"
  by (simp add: main_def run_def run_log_def run_start_def gateway_config_default_def Let_def)

end
