(* ===== verification/Testing.thy ===== *)
theory Testing
  imports Prelude
begin

text \<open>
  The vocabulary of the repository's tests. A test is an \<open>option\<close>: \<open>None\<close> where an \<open>unwrap\<close>, an index or
  an assertion panics, and \<open>Some ()\<close> where it passes.
\<close>

definition unwrap :: "'e + 'a \<Rightarrow> 'a option" where
  "unwrap r = (case r of Inl _ \<Rightarrow> None | Inr x \<Rightarrow> Some x)"

definition unwrap_err :: "'e + 'a \<Rightarrow> 'e option" where
  "unwrap_err r = (case r of Inl e \<Rightarrow> Some e | Inr _ \<Rightarrow> None)"

definition check :: "bool \<Rightarrow> unit option" where
  "check b = (if b then Some () else None)"

text \<open>\<open>#[should_panic]\<close>.\<close>

definition panics :: "'a option \<Rightarrow> unit option" where
  "panics r = (case r of None \<Rightarrow> Some () | Some _ \<Rightarrow> None)"

end
