(* ===== verification/Book_Tests.thy ===== *)
theory Book_Tests
  imports Matching_Laws Testing
begin

text \<open>
  The test modules of \<open>src/src/arena.rs\<close> and \<open>src/src/book.rs\<close>, on the model. The tests of the arena are
  evaluated in the kernel. Those of the book are run on the priority lists the book represents, so
  that its arena of a million slots is never unfolded.
\<close>

section \<open>The arena\<close>

definition make_order :: "u64 \<Rightarrow> i64 \<Rightarrow> u64 \<Rightarrow> order option" where
  "make_order d price qty = order_new d d Bid price qty d"

text \<open>\<open>arena.alloc(&order).unwrap()\<close>.\<close>

definition alloc_unwrap :: "arena \<Rightarrow> order option \<Rightarrow> (u32 \<times> arena) option" where
  "alloc_unwrap arena ord = do {
     ord \<leftarrow> ord;
     (r, arena) \<leftarrow> alloc arena ord;
     index \<leftarrow> unwrap r;
     Some (index, arena)
   }"

text \<open>The loops of \<open>walk_forward_and_backward\<close>.\<close>

fun push_ids :: "arena \<Rightarrow> price_level \<Rightarrow> u64 list \<Rightarrow> (arena \<times> price_level) option" where
  "push_ids arena level [] = Some (arena, level)"
| "push_ids arena level (d # ds) = do {
     (idx, arena) \<leftarrow> alloc_unwrap arena (make_order d (I64 100) d);
     (arena, level) \<leftarrow> push_back arena level idx;
     push_ids arena level ds
   }"

partial_function (option) walk_ids :: "(order_node \<Rightarrow> u32) \<Rightarrow> arena \<Rightarrow> u32 \<Rightarrow> u64 list option" where
  "walk_ids link arena cur =
     (if cur = ARENA_NULL then Some []
      else do {
        n \<leftarrow> get arena cur;
        ds \<leftarrow> walk_ids link arena (link n);
        Some (n_id n # ds)
      })"

definition ordernode_roundtrip :: "unit option" where
  "ordernode_roundtrip = do {
     ord \<leftarrow> order_new 1 2 Ask (I64 100) 50 999;
     let node = from_order ord;
     let back = to_order node;
     check (back = ord)
   }"

definition arena_alloc_dealloc_cycle :: "unit option" where
  "arena_alloc_dealloc_cycle = do {
     let arena = arena_new 4;
     (i0, arena) \<leftarrow> alloc_unwrap arena (make_order 1 (I64 100) 10);
     (i1, arena) \<leftarrow> alloc_unwrap arena (make_order 2 (I64 101) 20);
     (i2, arena) \<leftarrow> alloc_unwrap arena (make_order 3 (I64 102) 30);
     (i3, arena) \<leftarrow> alloc_unwrap arena (make_order 4 (I64 103) 40);
     check (a_count arena = 4);
     check (i0 = 0);
     check (i1 = 1);
     check (i2 = 2);
     check (i3 = 3);
     arena \<leftarrow> dealloc arena i1;
     arena \<leftarrow> dealloc arena i3;
     check (a_count arena = 2);
     (i4, arena) \<leftarrow> alloc_unwrap arena (make_order 5 (I64 104) 50);
     (i5, arena) \<leftarrow> alloc_unwrap arena (make_order 6 (I64 105) 60);
     check (a_count arena = 4);
     check (i4 = 3);
     check (i5 = 1)
   }"

definition arena_full :: "unit option" where
  "arena_full = do {
     let arena = arena_new 2;
     (i0, arena) \<leftarrow> alloc_unwrap arena (make_order 1 (I64 100) 10);
     (i1, arena) \<leftarrow> alloc_unwrap arena (make_order 2 (I64 101) 20);
     ord \<leftarrow> make_order 3 (I64 102) 30;
     (r, arena) \<leftarrow> alloc arena ord;
     err \<leftarrow> unwrap_err r;
     check (err = Full)
   }"

definition arena_zero_capacity :: "unit option" where
  "arena_zero_capacity = do {
     let arena = arena_new 0;
     ord \<leftarrow> make_order 1 (I64 100) 10;
     (r, arena) \<leftarrow> alloc arena ord;
     err \<leftarrow> unwrap_err r;
     check (err = Full)
   }"

definition push_back_builds_list :: "unit option" where
  "push_back_builds_list = do {
     let arena = arena_new 8;
     let level = price_level_new;
     (i0, arena) \<leftarrow> alloc_unwrap arena (make_order 1 (I64 100) 10);
     (i1, arena) \<leftarrow> alloc_unwrap arena (make_order 2 (I64 100) 20);
     (i2, arena) \<leftarrow> alloc_unwrap arena (make_order 3 (I64 100) 30);
     (arena, level) \<leftarrow> push_back arena level i0;
     (arena, level) \<leftarrow> push_back arena level i1;
     (arena, level) \<leftarrow> push_back arena level i2;
     check (l_head level = i0);
     check (l_tail level = i2);
     check (l_count level = 3);
     check (l_qty level = 60);
     n \<leftarrow> get arena i0;
     check (n_prev n = ARENA_NULL);
     n \<leftarrow> get arena i0;
     check (n_next n = i1);
     n \<leftarrow> get arena i1;
     check (n_prev n = i0);
     n \<leftarrow> get arena i1;
     check (n_next n = i2);
     n \<leftarrow> get arena i2;
     check (n_prev n = i1);
     n \<leftarrow> get arena i2;
     check (n_next n = ARENA_NULL)
   }"

definition pop_front_drains_list :: "unit option" where
  "pop_front_drains_list = do {
     let arena = arena_new 8;
     let level = price_level_new;
     (i0, arena) \<leftarrow> alloc_unwrap arena (make_order 1 (I64 100) 10);
     (i1, arena) \<leftarrow> alloc_unwrap arena (make_order 2 (I64 100) 20);
     (i2, arena) \<leftarrow> alloc_unwrap arena (make_order 3 (I64 100) 30);
     (arena, level) \<leftarrow> push_back arena level i0;
     (arena, level) \<leftarrow> push_back arena level i1;
     (arena, level) \<leftarrow> push_back arena level i2;
     (popped, arena, level) \<leftarrow> pop_front arena level;
     popped \<leftarrow> popped;
     check (popped = i0);
     check (l_head level = i1);
     check (l_count level = 2);
     check (l_qty level = 50);
     n \<leftarrow> get arena i1;
     check (n_prev n = ARENA_NULL);
     (popped, arena, level) \<leftarrow> pop_front arena level;
     popped \<leftarrow> popped;
     check (popped = i1);
     check (l_head level = i2);
     check (l_count level = 1);
     (popped, arena, level) \<leftarrow> pop_front arena level;
     popped \<leftarrow> popped;
     check (popped = i2);
     check (l_head level = ARENA_NULL);
     check (l_tail level = ARENA_NULL);
     check (l_count level = 0);
     check (l_qty level = 0);
     (popped, arena, level) \<leftarrow> pop_front arena level;
     check (popped = None)
   }"

definition remove_head :: "unit option" where
  "remove_head = do {
     let arena = arena_new 8;
     let level = price_level_new;
     (i0, arena) \<leftarrow> alloc_unwrap arena (make_order 1 (I64 100) 10);
     (i1, arena) \<leftarrow> alloc_unwrap arena (make_order 2 (I64 100) 20);
     (i2, arena) \<leftarrow> alloc_unwrap arena (make_order 3 (I64 100) 30);
     (arena, level) \<leftarrow> push_back arena level i0;
     (arena, level) \<leftarrow> push_back arena level i1;
     (arena, level) \<leftarrow> push_back arena level i2;
     (arena, level) \<leftarrow> remove arena level i0;
     check (l_head level = i1);
     check (l_tail level = i2);
     check (l_count level = 2);
     check (l_qty level = 50);
     n \<leftarrow> get arena i1;
     check (n_prev n = ARENA_NULL)
   }"

definition remove_tail :: "unit option" where
  "remove_tail = do {
     let arena = arena_new 8;
     let level = price_level_new;
     (i0, arena) \<leftarrow> alloc_unwrap arena (make_order 1 (I64 100) 10);
     (i1, arena) \<leftarrow> alloc_unwrap arena (make_order 2 (I64 100) 20);
     (i2, arena) \<leftarrow> alloc_unwrap arena (make_order 3 (I64 100) 30);
     (arena, level) \<leftarrow> push_back arena level i0;
     (arena, level) \<leftarrow> push_back arena level i1;
     (arena, level) \<leftarrow> push_back arena level i2;
     (arena, level) \<leftarrow> remove arena level i2;
     check (l_head level = i0);
     check (l_tail level = i1);
     check (l_count level = 2);
     check (l_qty level = 30);
     n \<leftarrow> get arena i1;
     check (n_next n = ARENA_NULL)
   }"

definition remove_middle :: "unit option" where
  "remove_middle = do {
     let arena = arena_new 8;
     let level = price_level_new;
     (i0, arena) \<leftarrow> alloc_unwrap arena (make_order 1 (I64 100) 10);
     (i1, arena) \<leftarrow> alloc_unwrap arena (make_order 2 (I64 100) 20);
     (i2, arena) \<leftarrow> alloc_unwrap arena (make_order 3 (I64 100) 30);
     (arena, level) \<leftarrow> push_back arena level i0;
     (arena, level) \<leftarrow> push_back arena level i1;
     (arena, level) \<leftarrow> push_back arena level i2;
     (arena, level) \<leftarrow> remove arena level i1;
     check (l_head level = i0);
     check (l_tail level = i2);
     check (l_count level = 2);
     check (l_qty level = 40);
     n \<leftarrow> get arena i0;
     check (n_next n = i2);
     n \<leftarrow> get arena i2;
     check (n_prev n = i0)
   }"

definition remove_only_node :: "unit option" where
  "remove_only_node = do {
     let arena = arena_new 8;
     let level = price_level_new;
     (i0, arena) \<leftarrow> alloc_unwrap arena (make_order 1 (I64 100) 10);
     (arena, level) \<leftarrow> push_back arena level i0;
     (arena, level) \<leftarrow> remove arena level i0;
     check (l_head level = ARENA_NULL);
     check (l_tail level = ARENA_NULL);
     check (l_count level = 0);
     check (l_qty level = 0)
   }"

definition walk_forward_and_backward :: "unit option" where
  "walk_forward_and_backward = do {
     let arena = arena_new 8;
     let level = price_level_new;
     let ids = map of_nat [1..<6];
     (arena, level) \<leftarrow> push_ids arena level ids;
     forward \<leftarrow> walk_ids n_next arena (l_head level);
     check (forward = ids);
     backward \<leftarrow> walk_ids n_prev arena (l_tail level);
     check (backward = rev ids)
   }"

definition alloc_after_dealloc_reuses_slots :: "unit option" where
  "alloc_after_dealloc_reuses_slots = do {
     let arena = arena_new 3;
     let level = price_level_new;
     (i0, arena) \<leftarrow> alloc_unwrap arena (make_order 1 (I64 100) 10);
     (i1, arena) \<leftarrow> alloc_unwrap arena (make_order 2 (I64 100) 20);
     (i2, arena) \<leftarrow> alloc_unwrap arena (make_order 3 (I64 100) 30);
     (arena, level) \<leftarrow> push_back arena level i0;
     (arena, level) \<leftarrow> push_back arena level i1;
     (arena, level) \<leftarrow> push_back arena level i2;
     (arena, level) \<leftarrow> remove arena level i1;
     arena \<leftarrow> dealloc arena i1;
     (i3, arena) \<leftarrow> alloc_unwrap arena (make_order 4 (I64 100) 40);
     check (i3 = i1);
     n \<leftarrow> get arena i3;
     check (n_id n = 4);
     check (a_count arena = 3)
   }"

text \<open>The walk, unfolded as it runs.\<close>

declare walk_ids.simps [code]

lemma ordernode_roundtrip_passes: "ordernode_roundtrip = Some ()"
  by code_simp

lemma arena_alloc_dealloc_cycle_passes: "arena_alloc_dealloc_cycle = Some ()"
  by code_simp

lemma arena_full_passes: "arena_full = Some ()"
  by code_simp

lemma arena_zero_capacity_passes: "arena_zero_capacity = Some ()"
  by code_simp

lemma push_back_builds_list_passes: "push_back_builds_list = Some ()"
  by code_simp

lemma pop_front_drains_list_passes: "pop_front_drains_list = Some ()"
  by code_simp

lemma remove_head_passes: "remove_head = Some ()"
  by code_simp

lemma remove_tail_passes: "remove_tail = Some ()"
  by code_simp

lemma remove_middle_passes: "remove_middle = Some ()"
  by code_simp

lemma remove_only_node_passes: "remove_only_node = Some ()"
  by code_simp

lemma walk_forward_and_backward_passes: "walk_forward_and_backward = Some ()"
  by code_simp

lemma alloc_after_dealloc_reuses_slots_passes: "alloc_after_dealloc_reuses_slots = Some ()"
  by code_simp

section \<open>The book\<close>

definition book_bid :: "u64 \<Rightarrow> i64 \<Rightarrow> u64 \<Rightarrow> u64 \<Rightarrow> order option" where
  "book_bid d price qty ts = order_new d 1 Bid price qty ts"

definition book_ask :: "u64 \<Rightarrow> i64 \<Rightarrow> u64 \<Rightarrow> u64 \<Rightarrow> order option" where
  "book_ask d price qty ts = order_new d 1 Ask price qty ts"

text \<open>\<open>book.insert_order(order).unwrap()\<close>.\<close>

definition insert_unwrap :: "order_book \<Rightarrow> order option \<Rightarrow> order_book option" where
  "insert_unwrap book ord = do {
     ord \<leftarrow> ord;
     (r, book) \<leftarrow> insert_order book ord;
     unwrap r;
     Some book
   }"

definition insert_and_best_prices :: "unit option" where
  "insert_and_best_prices = do {
     let book = book_new;
     book \<leftarrow> insert_unwrap book (book_bid 1 (I64 100) 10 1);
     book \<leftarrow> insert_unwrap book (book_bid 2 (I64 102) 10 2);
     book \<leftarrow> insert_unwrap book (book_ask 3 (I64 105) 10 3);
     book \<leftarrow> insert_unwrap book (book_ask 4 (I64 103) 10 4);
     check (best_bid book = Some (I64 102));
     check (best_ask book = Some (I64 103));
     check (order_count book = 4)
   }"

definition duplicate_id_rejected :: "unit option" where
  "duplicate_id_rejected = do {
     let book = book_new;
     book \<leftarrow> insert_unwrap book (book_bid 1 (I64 100) 10 1);
     ord \<leftarrow> book_ask 1 (I64 105) 5 2;
     (r, book) \<leftarrow> insert_order book ord;
     err \<leftarrow> unwrap_err r;
     check (err = DuplicateOrderId 1)
   }"

definition cancel_order_updates_best :: "unit option" where
  "cancel_order_updates_best = do {
     let book = book_new;
     book \<leftarrow> insert_unwrap book (book_bid 1 (I64 100) 10 1);
     book \<leftarrow> insert_unwrap book (book_bid 2 (I64 102) 10 2);
     (r, book) \<leftarrow> cancel_order book 2;
     cancelled \<leftarrow> unwrap r;
     check (o_id cancelled = 2);
     check (best_bid book = Some (I64 100));
     check (order_count book = 1)
   }"

definition cancel_last_order_clears_best :: "unit option" where
  "cancel_last_order_clears_best = do {
     let book = book_new;
     book \<leftarrow> insert_unwrap book (book_ask 1 (I64 105) 10 1);
     (r, book) \<leftarrow> cancel_order book 1;
     cancelled \<leftarrow> unwrap r;
     check (best_ask book = None);
     check (order_count book = 0)
   }"

definition cancel_nonexistent_order :: "unit option" where
  "cancel_nonexistent_order = do {
     let book = book_new;
     (r, book) \<leftarrow> cancel_order book 999;
     err \<leftarrow> unwrap_err r;
     check (err = OrderNotFound 999)
   }"

definition fifo_ordering_within_level :: "unit option" where
  "fifo_ordering_within_level = do {
     let book = book_new;
     book \<leftarrow> insert_unwrap book (book_bid 1 (I64 100) 10 1);
     book \<leftarrow> insert_unwrap book (book_bid 2 (I64 100) 20 2);
     book \<leftarrow> insert_unwrap book (book_bid 3 (I64 100) 30 3);
     front \<leftarrow> peek_front book Bid (I64 100);
     front \<leftarrow> front;
     check (n_id front = 1)
   }"

definition reduce_front_partial :: "unit option" where
  "reduce_front_partial = do {
     let book = book_new;
     book \<leftarrow> insert_unwrap book (book_ask 1 (I64 105) 100 1);
     (r, book) \<leftarrow> reduce_front_quantity book Ask (I64 105) 40;
     remaining \<leftarrow> unwrap r;
     check (remaining = 60);
     check (order_count book = 1);
     front \<leftarrow> peek_front book Ask (I64 105);
     front \<leftarrow> front;
     check (n_quantity front = 60)
   }"

definition reduce_front_full_removes_order :: "unit option" where
  "reduce_front_full_removes_order = do {
     let book = book_new;
     book \<leftarrow> insert_unwrap book (book_ask 1 (I64 105) 100 1);
     book \<leftarrow> insert_unwrap book (book_ask 2 (I64 105) 50 2);
     (r, book) \<leftarrow> reduce_front_quantity book Ask (I64 105) 100;
     remaining \<leftarrow> unwrap r;
     check (remaining = 0);
     check (order_count book = 1);
     front \<leftarrow> peek_front book Ask (I64 105);
     front \<leftarrow> front;
     check (n_id front = 2)
   }"

definition reduce_front_removes_empty_level :: "unit option" where
  "reduce_front_removes_empty_level = do {
     let book = book_new;
     book \<leftarrow> insert_unwrap book (book_ask 1 (I64 105) 100 1);
     book \<leftarrow> insert_unwrap book (book_ask 2 (I64 110) 50 2);
     (r, book) \<leftarrow> reduce_front_quantity book Ask (I64 105) 100;
     remaining \<leftarrow> unwrap r;
     check (best_ask book = Some (I64 110))
   }"

definition fill_exceeds_quantity_error :: "unit option" where
  "fill_exceeds_quantity_error = do {
     let book = book_new;
     book \<leftarrow> insert_unwrap book (book_bid 1 (I64 100) 10 1);
     (r, book) \<leftarrow> reduce_front_quantity book Bid (I64 100) 20;
     err \<leftarrow> unwrap_err r;
     check (err = FillExceedsQuantity 10 20)
   }"

definition empty_book_defaults :: "unit option" where
  "empty_book_defaults = do {
     let book = book_new;
     check (best_bid book = None);
     check (best_ask book = None);
     check (order_count book = 0);
     front \<leftarrow> peek_front book Bid (I64 100);
     check (Option.is_none front)
   }"

definition arena_full_rejects_insert :: "unit option" where
  "arena_full_rejects_insert = do {
     let book = book_with_capacity 2;
     book \<leftarrow> insert_unwrap book (book_bid 1 (I64 100) 10 1);
     book \<leftarrow> insert_unwrap book (book_bid 2 (I64 101) 10 2);
     ord \<leftarrow> book_bid 3 (I64 102) 10 3;
     (r, book) \<leftarrow> insert_order book ord;
     err \<leftarrow> unwrap_err r;
     check (err = ArenaFull);
     check (order_count book = 2)
   }"

definition cancel_frees_slot_for_reuse :: "unit option" where
  "cancel_frees_slot_for_reuse = do {
     let book = book_with_capacity 2;
     book \<leftarrow> insert_unwrap book (book_bid 1 (I64 100) 10 1);
     book \<leftarrow> insert_unwrap book (book_bid 2 (I64 101) 10 2);
     ord \<leftarrow> book_bid 3 (I64 102) 10 3;
     (r, book) \<leftarrow> insert_order book ord;
     err \<leftarrow> unwrap_err r;
     check (err = ArenaFull);
     (r, book) \<leftarrow> cancel_order book 1;
     cancelled \<leftarrow> unwrap r;
     book \<leftarrow> insert_unwrap book (book_bid 3 (I64 102) 10 3);
     check (order_count book = 2);
     check (best_bid book = Some (I64 102))
   }"

definition all_resting_orders_empty_book :: "unit option" where
  "all_resting_orders_empty_book = do {
     let book = book_new;
     orders \<leftarrow> all_resting_orders book;
     check (orders = [])
   }"

definition all_resting_orders_canonical_order :: "unit option" where
  "all_resting_orders_canonical_order = do {
     let book = book_with_capacity 16;
     book \<leftarrow> insert_unwrap book (book_bid 1 (I64 100) 10 1);
     book \<leftarrow> insert_unwrap book (book_ask 2 (I64 110) 20 2);
     book \<leftarrow> insert_unwrap book (book_bid 3 (I64 102) 30 3);
     book \<leftarrow> insert_unwrap book (book_ask 4 (I64 108) 40 4);
     book \<leftarrow> insert_unwrap book (book_bid 5 (I64 100) 50 5);
     orders \<leftarrow> all_resting_orders book;
     check (length orders = 5);
     ord \<leftarrow> vec_get orders 0;
     check (o_id ord = 4);
     ord \<leftarrow> vec_get orders 1;
     check (o_id ord = 2);
     ord \<leftarrow> vec_get orders 2;
     check (o_id ord = 3);
     ord \<leftarrow> vec_get orders 3;
     check (o_id ord = 1);
     ord \<leftarrow> vec_get orders 4;
     check (o_id ord = 5)
   }"

definition all_resting_orders_reflects_partial_fills :: "unit option" where
  "all_resting_orders_reflects_partial_fills = do {
     let book = book_with_capacity 8;
     book \<leftarrow> insert_unwrap book (book_ask 1 (I64 105) 100 1);
     (r, book) \<leftarrow> reduce_front_quantity book Ask (I64 105) 40;
     remaining \<leftarrow> unwrap r;
     orders \<leftarrow> all_resting_orders book;
     check (length orders = 1);
     ord \<leftarrow> vec_get orders 0;
     check (o_quantity ord = 60)
   }"

definition cancel_middle_of_level :: "unit option" where
  "cancel_middle_of_level = do {
     let book = book_with_capacity 8;
     book \<leftarrow> insert_unwrap book (book_bid 1 (I64 100) 10 1);
     book \<leftarrow> insert_unwrap book (book_bid 2 (I64 100) 20 2);
     book \<leftarrow> insert_unwrap book (book_bid 3 (I64 100) 30 3);
     (r, book) \<leftarrow> cancel_order book 2;
     cancelled \<leftarrow> unwrap r;
     check (order_count book = 2);
     front \<leftarrow> peek_front book Bid (I64 100);
     front \<leftarrow> front;
     check (n_id front = 1);
     (r, book) \<leftarrow> reduce_front_quantity book Bid (I64 100) 10;
     remaining \<leftarrow> unwrap r;
     front \<leftarrow> peek_front book Bid (I64 100);
     front \<leftarrow> front;
     check (n_id front = 3)
   }"

section \<open>Running a test of the book on the priority lists\<close>

definition book_view :: "order_book \<Rightarrow> abook" where
  "book_view b = (\<lambda>s. filter (\<lambda>x. o_side x = s) (the (all_resting_orders b)))"

definition book_sound :: "order_book \<Rightarrow> bool" where
  "book_sound b \<longleftrightarrow> represents b (book_view b)"

lemma book_view_represents: "represents b A \<Longrightarrow> book_view b = A"
  using all_resting_orders_view [of b A] side_of_resting [OF represents_abook_ok, of b A]
  by (auto simp: book_view_def)

lemma book_soundI: "represents b A \<Longrightarrow> book_sound b \<and> book_view b = A"
  using book_view_represents [of b A] by (simp add: book_sound_def)

lemma book_sound_start:
  "book_sound (book_with_capacity c)" "book_view (book_with_capacity c) = (\<lambda>_. [])"
  using book_soundI [OF new_represents [of c]] by simp_all

definition after_insert :: "order_book \<Rightarrow> order \<Rightarrow> order_book" where
  "after_insert b ord = snd (the (insert_order b ord))"

lemma book_sound_insert:
  assumes "book_sound b"
  shows "insert_order b ord = Some (if o_id ord \<in> set (ids (book_view b)) then Inl (DuplicateOrderId (o_id ord))
      else if capacity_of b \<le> length (resting (book_view b)) then Inl ArenaFull else Inr (), after_insert b ord)"
    and "book_sound (after_insert b ord)"
    and "book_view (after_insert b ord) =
      (if o_id ord \<in> set (ids (book_view b)) \<or> capacity_of b \<le> length (resting (book_view b)) then book_view b
       else (book_view b)(o_side ord := enqueue ord (book_view b (o_side ord))))"
    and "capacity_of (after_insert b ord) = capacity_of b"
proof -
  let ?A = "book_view b"
  note r = assms [unfolded book_sound_def]
  have "\<exists>b'. insert_order b ord = Some (if o_id ord \<in> set (ids ?A) then Inl (DuplicateOrderId (o_id ord))
      else if capacity_of b \<le> length (resting ?A) then Inl ArenaFull else Inr (), b') \<and> capacity_of b' = capacity_of b \<and>
    represents b' (if o_id ord \<in> set (ids ?A) \<or> capacity_of b \<le> length (resting ?A) then ?A
       else ?A(o_side ord := enqueue ord (?A (o_side ord))))"
    using insert_represents(1-3) [OF r, of ord] insert_represents(4) [OF r] r by (cases "length (resting ?A) = capacity_of b") auto
  then obtain b' where b': "insert_order b ord = Some (if o_id ord \<in> set (ids ?A) then Inl (DuplicateOrderId (o_id ord))
      else if capacity_of b \<le> length (resting ?A) then Inl ArenaFull else Inr (), b')" "capacity_of b' = capacity_of b"
    "represents b' (if o_id ord \<in> set (ids ?A) \<or> capacity_of b \<le> length (resting ?A) then ?A
       else ?A(o_side ord := enqueue ord (?A (o_side ord))))" by blast
  then have "after_insert b ord = b'" by (simp add: after_insert_def)
  with b' book_soundI [OF b'(3)] show "insert_order b ord = Some (if o_id ord \<in> set (ids ?A) then Inl (DuplicateOrderId (o_id ord))
      else if capacity_of b \<le> length (resting ?A) then Inl ArenaFull else Inr (), after_insert b ord)"
    and "book_sound (after_insert b ord)"
    and "book_view (after_insert b ord) =
      (if o_id ord \<in> set (ids ?A) \<or> capacity_of b \<le> length (resting ?A) then ?A
       else ?A(o_side ord := enqueue ord (?A (o_side ord))))"
    and "capacity_of (after_insert b ord) = capacity_of b" by simp_all
qed

definition after_removal :: "order_book \<Rightarrow> u64 \<Rightarrow> order_book" where
  "after_removal b d = snd (the (cancel_order b d))"

lemma book_sound_cancel:
  assumes "book_sound b"
  shows "cancel_order b d = Some (case find (\<lambda>x. o_id x = d) (resting (book_view b)) of
      None \<Rightarrow> Inl (OrderNotFound d) | Some x \<Rightarrow> Inr x, after_removal b d)"
    and "book_sound (after_removal b d)"
    and "book_view (after_removal b d) = (case find (\<lambda>x. o_id x = d) (resting (book_view b)) of
      None \<Rightarrow> book_view b | Some x \<Rightarrow> (book_view b)(o_side x := without_id d (book_view b (o_side x))))"
    and "capacity_of (after_removal b d) = capacity_of b"
proof -
  let ?A = "book_view b" and ?x = "find (\<lambda>x. o_id x = d) (resting (book_view b))"
  note r = assms [unfolded book_sound_def]
  obtain b' where b': "cancel_order b d = Some (case ?x of None \<Rightarrow> Inl (OrderNotFound d) | Some x \<Rightarrow> Inr x, b')"
    "capacity_of b' = capacity_of b"
    "represents b' (case ?x of None \<Rightarrow> ?A | Some x \<Rightarrow> ?A(o_side x := without_id d (?A (o_side x))))"
  proof (cases "d \<in> set (ids ?A)")
    case True
    then show thesis
      using cancel_represents(2) [OF r True] find_resting [OF represents_abook_ok [OF r]] that by fastforce
  next
    case False
    then have "?x = None" by (auto simp: find_None_iff ids_def)
    with False that r cancel_represents(1) [OF r False] show thesis by simp
  qed
  then have "after_removal b d = b'" by (simp add: after_removal_def)
  with b' book_soundI [OF b'(3)] show "cancel_order b d = Some (case ?x of
      None \<Rightarrow> Inl (OrderNotFound d) | Some x \<Rightarrow> Inr x, after_removal b d)"
    and "book_sound (after_removal b d)"
    and "book_view (after_removal b d) = (case ?x of
      None \<Rightarrow> ?A | Some x \<Rightarrow> ?A(o_side x := without_id d (?A (o_side x))))"
    and "capacity_of (after_removal b d) = capacity_of b" by simp_all
qed

definition after_fill :: "order_book \<Rightarrow> side \<Rightarrow> i64 \<Rightarrow> u64 \<Rightarrow> order_book" where
  "after_fill b s p q = snd (the (reduce_front_quantity b s p q))"

lemma book_sound_fill:
  assumes "book_sound b"
  shows "reduce_front_quantity b s p q = Some (case at_price p (book_view b s) of
      [] \<Rightarrow> Inl (PriceLevelNotFound p)
    | x # _ \<Rightarrow> if o_quantity x < q then Inl (FillExceedsQuantity (o_quantity x) q) else Inr (o_quantity x - q), after_fill b s p q)"
    and "book_sound (after_fill b s p q)"
    and "book_view (after_fill b s p q) = (case at_price p (book_view b s) of
      [] \<Rightarrow> book_view b
    | x # _ \<Rightarrow> if o_quantity x < q then book_view b else (book_view b)(s := fill_first p q (book_view b s)))"
    and "capacity_of (after_fill b s p q) = capacity_of b"
proof -
  let ?A = "book_view b" and ?Q = "at_price p (book_view b s)"
  note r = assms [unfolded book_sound_def]
  obtain b' where b': "reduce_front_quantity b s p q = Some (case ?Q of [] \<Rightarrow> Inl (PriceLevelNotFound p)
      | x # _ \<Rightarrow> if o_quantity x < q then Inl (FillExceedsQuantity (o_quantity x) q) else Inr (o_quantity x - q), b')"
    "capacity_of b' = capacity_of b" "represents b' (case ?Q of [] \<Rightarrow> ?A
      | x # _ \<Rightarrow> if o_quantity x < q then ?A else ?A(s := fill_first p q (?A s)))"
  proof (cases ?Q)
    case Nil
    with that r reduce_represents(1) [OF r Nil] show thesis by simp
  next
    case (Cons x xs)
    with that r reduce_represents(2,3) [OF r Cons, of q] show thesis by (cases "o_quantity x < q") (auto simp: not_less)
  qed
  then have "after_fill b s p q = b'" by (simp add: after_fill_def)
  with b' book_soundI [OF b'(3)] show "reduce_front_quantity b s p q = Some (case ?Q of [] \<Rightarrow> Inl (PriceLevelNotFound p)
      | x # _ \<Rightarrow> if o_quantity x < q then Inl (FillExceedsQuantity (o_quantity x) q) else Inr (o_quantity x - q),
      after_fill b s p q)"
    and "book_sound (after_fill b s p q)"
    and "book_view (after_fill b s p q) = (case ?Q of [] \<Rightarrow> ?A
      | x # _ \<Rightarrow> if o_quantity x < q then ?A else ?A(s := fill_first p q (?A s)))"
    and "capacity_of (after_fill b s p q) = capacity_of b" by simp_all
qed

definition front_node :: "order_book \<Rightarrow> side \<Rightarrow> i64 \<Rightarrow> order_node" where
  "front_node b s p = the (the (peek_front b s p))"

lemma book_sound_peek:
  assumes "book_sound b"
  shows "peek_front b s p = Some (if at_price p (book_view b s) = [] then None else Some (front_node b s p))"
    and "at_price p (book_view b s) = x # xs \<Longrightarrow> n_id (front_node b s p) = o_id x"
    and "at_price p (book_view b s) = x # xs \<Longrightarrow> n_quantity (front_node b s p) = o_quantity x"
proof -
  obtain n where n: "peek_front b s p = Some n"
    "map_option to_order n = (case at_price p (book_view b s) of [] \<Rightarrow> None | x # _ \<Rightarrow> Some x)"
    using peek_represents [OF assms [unfolded book_sound_def]] by blast
  then show "peek_front b s p = Some (if at_price p (book_view b s) = [] then None else Some (front_node b s p))"
    by (auto simp: front_node_def split: list.splits)
  show "at_price p (book_view b s) = x # xs \<Longrightarrow> n_id (front_node b s p) = o_id x"
    "at_price p (book_view b s) = x # xs \<Longrightarrow> n_quantity (front_node b s p) = o_quantity x"
    using n by (auto simp: front_node_def to_order_def)
qed

lemma front_sel:
  assumes "book_sound b" and "at_price p (book_view b s) \<noteq> []"
  shows "n_id (front_node b s p) = o_id (hd (at_price p (book_view b s)))"
    and "n_quantity (front_node b s p) = o_quantity (hd (at_price p (book_view b s)))"
  using book_sound_peek(2,3) [OF assms(1), of p s] assms(2) by (metis list.collapse)+

lemma book_sound_sel:
  assumes "book_sound b"
  shows "best_bid b = best_price (book_view b Bid)" and "best_ask b = best_price (book_view b Ask)"
    and "order_count b = length (resting (book_view b))" and "all_resting_orders b = Some (resting (book_view b))"
  using assms best_represents [of b "book_view b" Bid] best_represents [of b "book_view b" Ask]
    represents_count [of b "book_view b"] all_resting_orders_view [of b "book_view b"] by (simp_all add: book_sound_def)

lemmas run_book_test = unwrap_def unwrap_err_def check_def book_bid_def book_ask_def order_new_def insert_unwrap_def
  vec_get_def book_new_def DEFAULT_CAPACITY_def book_sound_start capacity_new book_sound_insert book_sound_cancel
  book_sound_fill book_sound_peek(1) front_sel book_sound_sel Let_def ids_def resting_def enqueue_def without_id_def
  best_price_def i64_val_def

lemma insert_and_best_prices_passes: "insert_and_best_prices = Some ()"
  by (simp add: insert_and_best_prices_def run_book_test)

lemma duplicate_id_rejected_passes: "duplicate_id_rejected = Some ()"
  by (simp add: duplicate_id_rejected_def run_book_test)

lemma cancel_order_updates_best_passes: "cancel_order_updates_best = Some ()"
  by (simp add: cancel_order_updates_best_def run_book_test)

lemma cancel_last_order_clears_best_passes: "cancel_last_order_clears_best = Some ()"
  by (simp add: cancel_last_order_clears_best_def run_book_test)

lemma cancel_nonexistent_order_passes: "cancel_nonexistent_order = Some ()"
  by (simp add: cancel_nonexistent_order_def run_book_test)

lemma fifo_ordering_within_level_passes: "fifo_ordering_within_level = Some ()"
  by (simp add: fifo_ordering_within_level_def run_book_test)

lemma reduce_front_partial_passes: "reduce_front_partial = Some ()"
  by (simp add: reduce_front_partial_def run_book_test)

lemma reduce_front_full_removes_order_passes: "reduce_front_full_removes_order = Some ()"
  by (simp add: reduce_front_full_removes_order_def run_book_test)

lemma reduce_front_removes_empty_level_passes: "reduce_front_removes_empty_level = Some ()"
  by (simp add: reduce_front_removes_empty_level_def run_book_test)

lemma fill_exceeds_quantity_error_passes: "fill_exceeds_quantity_error = Some ()"
  by (simp add: fill_exceeds_quantity_error_def run_book_test)

lemma empty_book_defaults_passes: "empty_book_defaults = Some ()"
  by (simp add: empty_book_defaults_def run_book_test)

lemma arena_full_rejects_insert_passes: "arena_full_rejects_insert = Some ()"
  by (simp add: arena_full_rejects_insert_def run_book_test)

lemma cancel_frees_slot_for_reuse_passes: "cancel_frees_slot_for_reuse = Some ()"
  by (simp add: cancel_frees_slot_for_reuse_def run_book_test)

lemma all_resting_orders_empty_book_passes: "all_resting_orders_empty_book = Some ()"
  by (simp add: all_resting_orders_empty_book_def run_book_test)

lemma all_resting_orders_canonical_order_passes: "all_resting_orders_canonical_order = Some ()"
  by (simp add: all_resting_orders_canonical_order_def run_book_test)

lemma all_resting_orders_reflects_partial_fills_passes: "all_resting_orders_reflects_partial_fills = Some ()"
  by (simp add: all_resting_orders_reflects_partial_fills_def run_book_test)

lemma cancel_middle_of_level_passes: "cancel_middle_of_level = Some ()"
  by (simp add: cancel_middle_of_level_def run_book_test)

end
