(* ===== verification/Engine_Tests.thy ===== *)
theory Engine_Tests
  imports Recovery Book_Tests
begin

text \<open>
  The test modules of \<open>src/src/matching.rs\<close>, on the model of the engine. The unit tests are
  run on the model; the property tests, which the code tries at random inputs, are proved for every
  input they can draw.
\<close>

section \<open>The vocabulary of the tests\<close>

definition TEST_CAPACITY :: u32 where
  "TEST_CAPACITY = 1024"

definition test_engine :: matching_engine where
  "test_engine = engine_with_capacity TEST_CAPACITY"

definition bid :: "u64 \<Rightarrow> i64 \<Rightarrow> u64 \<Rightarrow> u64 \<Rightarrow> order option" where
  "bid d price qty ts = order_new d d Bid price qty ts"

definition ask :: "u64 \<Rightarrow> i64 \<Rightarrow> u64 \<Rightarrow> u64 \<Rightarrow> order option" where
  "ask d price qty ts = order_new d d Ask price qty ts"

definition bid_trader :: "u64 \<Rightarrow> u64 \<Rightarrow> i64 \<Rightarrow> u64 \<Rightarrow> u64 \<Rightarrow> order option" where
  "bid_trader d trader_id price qty ts = order_new d trader_id Bid price qty ts"

definition ask_trader :: "u64 \<Rightarrow> u64 \<Rightarrow> i64 \<Rightarrow> u64 \<Rightarrow> u64 \<Rightarrow> order option" where
  "ask_trader d trader_id price qty ts = order_new d trader_id Ask price qty ts"

text \<open>\<open>engine.add_order(order).unwrap()\<close>.\<close>

definition add_unwrap :: "matching_engine \<Rightarrow> order option \<Rightarrow> (add_order_result \<times> matching_engine) option" where
  "add_unwrap engine ord = do {
     ord \<leftarrow> ord;
     (r, engine) \<leftarrow> add_order engine ord;
     result \<leftarrow> unwrap r;
     Some (result, engine)
   }"

text \<open>\<open>assert_eq!\<close> on the fields of \<open>result.fills[i]\<close>.\<close>

definition check_fill :: "add_order_result \<Rightarrow> nat \<Rightarrow> (fill \<Rightarrow> bool) \<Rightarrow> unit option" where
  "check_fill result i p = do { f \<leftarrow> vec_get (r_fills result) i; check (p f) }"

section \<open>Unit tests\<close>

definition no_match_resting :: "unit option" where
  "no_match_resting = do {
     (result, engine) \<leftarrow> add_unwrap test_engine (bid 1 (I64 100) 10 1);
     check (r_status result = Resting);
     check (r_fills result = []);
     (result, engine) \<leftarrow> add_unwrap engine (ask 2 (I64 105) 10 2);
     check (r_status result = Resting);
     check (r_fills result = []);
     check (best_bid (e_book engine) = Some (I64 100));
     check (best_ask (e_book engine) = Some (I64 105));
     check (order_count (e_book engine) = 2)
   }"

definition full_fill_equal_quantities :: "unit option" where
  "full_fill_equal_quantities = do {
     (_, engine) \<leftarrow> add_unwrap test_engine (ask 1 (I64 100) 10 1);
     (result, engine) \<leftarrow> add_unwrap engine (bid 2 (I64 100) 10 2);
     check (r_status result = FullyFilled);
     check (length (r_fills result) = 1);
     check_fill result 0 (\<lambda>f. f_quantity f = 10);
     check_fill result 0 (\<lambda>f. f_price f = I64 100);
     check_fill result 0 (\<lambda>f. f_taker_order_id f = 2);
     check_fill result 0 (\<lambda>f. f_maker_order_id f = 1);
     check_fill result 0 (\<lambda>f. f_maker_fully_filled f);
     check (order_count (e_book engine) = 0)
   }"

definition partial_fill_taker_has_more :: "unit option" where
  "partial_fill_taker_has_more = do {
     (_, engine) \<leftarrow> add_unwrap test_engine (ask 1 (I64 100) 5 1);
     (result, engine) \<leftarrow> add_unwrap engine (bid 2 (I64 100) 10 2);
     check (r_status result = PartiallyFilled);
     check (length (r_fills result) = 1);
     check_fill result 0 (\<lambda>f. f_quantity f = 5);
     check_fill result 0 (\<lambda>f. f_maker_fully_filled f);
     check (best_bid (e_book engine) = Some (I64 100));
     check (order_count (e_book engine) = 1)
   }"

definition partial_fill_maker_has_more :: "unit option" where
  "partial_fill_maker_has_more = do {
     (_, engine) \<leftarrow> add_unwrap test_engine (bid 1 (I64 100) 20 1);
     (result, engine) \<leftarrow> add_unwrap engine (ask 2 (I64 100) 5 2);
     check (r_status result = FullyFilled);
     check (length (r_fills result) = 1);
     check_fill result 0 (\<lambda>f. f_quantity f = 5);
     check_fill result 0 (\<lambda>f. \<not> f_maker_fully_filled f);
     check (order_count (e_book engine) = 1);
     check (best_bid (e_book engine) = Some (I64 100))
   }"

definition multi_level_matching :: "unit option" where
  "multi_level_matching = do {
     (_, engine) \<leftarrow> add_unwrap test_engine (ask 1 (I64 100) 5 1);
     (_, engine) \<leftarrow> add_unwrap engine (ask 2 (I64 101) 5 2);
     (_, engine) \<leftarrow> add_unwrap engine (ask 3 (I64 102) 5 3);
     (result, engine) \<leftarrow> add_unwrap engine (bid 4 (I64 102) 12 4);
     check (r_status result = FullyFilled);
     check (length (r_fills result) = 3);
     check_fill result 0 (\<lambda>f. f_price f = I64 100);
     check_fill result 0 (\<lambda>f. f_quantity f = 5);
     check_fill result 1 (\<lambda>f. f_price f = I64 101);
     check_fill result 1 (\<lambda>f. f_quantity f = 5);
     check_fill result 2 (\<lambda>f. f_price f = I64 102);
     check_fill result 2 (\<lambda>f. f_quantity f = 2);
     check_fill result 2 (\<lambda>f. \<not> f_maker_fully_filled f);
     check (order_count (e_book engine) = 1);
     check (best_ask (e_book engine) = Some (I64 102))
   }"

definition fifo_within_price_level :: "unit option" where
  "fifo_within_price_level = do {
     (_, engine) \<leftarrow> add_unwrap test_engine (ask 1 (I64 100) 10 1);
     (_, engine) \<leftarrow> add_unwrap engine (ask 2 (I64 100) 10 2);
     (_, engine) \<leftarrow> add_unwrap engine (ask 3 (I64 100) 10 3);
     (result, engine) \<leftarrow> add_unwrap engine (bid 4 (I64 100) 15 4);
     check (length (r_fills result) = 2);
     check_fill result 0 (\<lambda>f. f_maker_order_id f = 1);
     check_fill result 0 (\<lambda>f. f_quantity f = 10);
     check_fill result 1 (\<lambda>f. f_maker_order_id f = 2);
     check_fill result 1 (\<lambda>f. f_quantity f = 5)
   }"

definition fill_price_is_maker_price :: "unit option" where
  "fill_price_is_maker_price = do {
     (_, engine) \<leftarrow> add_unwrap test_engine (ask 1 (I64 100) 10 1);
     (result, engine) \<leftarrow> add_unwrap engine (bid 2 (I64 110) 10 2);
     check_fill result 0 (\<lambda>f. f_price f = I64 100)
   }"

definition ask_taker_matches_bids :: "unit option" where
  "ask_taker_matches_bids = do {
     (_, engine) \<leftarrow> add_unwrap test_engine (bid 1 (I64 102) 10 1);
     (_, engine) \<leftarrow> add_unwrap engine (bid 2 (I64 101) 10 2);
     (result, engine) \<leftarrow> add_unwrap engine (ask 3 (I64 101) 15 3);
     check (length (r_fills result) = 2);
     check_fill result 0 (\<lambda>f. f_maker_order_id f = 1);
     check_fill result 0 (\<lambda>f. f_price f = I64 102);
     check_fill result 0 (\<lambda>f. f_quantity f = 10);
     check_fill result 1 (\<lambda>f. f_maker_order_id f = 2);
     check_fill result 1 (\<lambda>f. f_price f = I64 101);
     check_fill result 1 (\<lambda>f. f_quantity f = 5);
     check (r_status result = FullyFilled)
   }"

definition cancel_resting_order :: "unit option" where
  "cancel_resting_order = do {
     (_, engine) \<leftarrow> add_unwrap test_engine (bid 1 (I64 100) 10 1);
     (r, engine) \<leftarrow> engine_cancel_order engine 1;
     cancelled \<leftarrow> unwrap r;
     check (o_id cancelled = 1);
     check (order_count (e_book engine) = 0)
   }"

definition cancel_nonexistent_fails :: "unit option" where
  "cancel_nonexistent_fails = do {
     (r, engine) \<leftarrow> engine_cancel_order test_engine 999;
     err \<leftarrow> unwrap_err r;
     check (err = BookError (OrderNotFound 999))
   }"

definition zero_quantity_rejected :: "unit option" where
  "zero_quantity_rejected = do {
     let ord = \<lparr>o_id = 1, o_trader_id = 1, o_side = Bid, o_price = I64 100, o_quantity = 0, o_timestamp = 1\<rparr>;
     (r, engine) \<leftarrow> add_order test_engine ord;
     err \<leftarrow> unwrap_err r;
     check (err = ZeroQuantity)
   }"

definition empty_book_no_match :: "unit option" where
  "empty_book_no_match = do {
     (result, engine) \<leftarrow> add_unwrap test_engine (bid 1 (I64 100) 10 1);
     check (r_status result = Resting);
     check (r_fills result = [])
   }"

definition bid_below_best_ask_no_match :: "unit option" where
  "bid_below_best_ask_no_match = do {
     (_, engine) \<leftarrow> add_unwrap test_engine (ask 1 (I64 105) 10 1);
     (result, engine) \<leftarrow> add_unwrap engine (bid 2 (I64 100) 10 2);
     check (r_status result = Resting);
     check (r_fills result = []);
     check (order_count (e_book engine) = 2)
   }"

definition self_trade_prevented_cancel_newest :: "unit option" where
  "self_trade_prevented_cancel_newest = do {
     (_, engine) \<leftarrow> add_unwrap test_engine (ask_trader 1 1 (I64 100) 10 1);
     (result, engine) \<leftarrow> add_unwrap engine (bid_trader 2 1 (I64 100) 10 2);
     check (r_status result = CancelledSelfTrade);
     check (r_fills result = []);
     check (order_count (e_book engine) = 1);
     check (best_ask (e_book engine) = Some (I64 100))
   }"

definition self_trade_different_traders_allowed :: "unit option" where
  "self_trade_different_traders_allowed = do {
     (_, engine) \<leftarrow> add_unwrap test_engine (ask_trader 1 1 (I64 100) 10 1);
     (result, engine) \<leftarrow> add_unwrap engine (bid_trader 2 2 (I64 100) 10 2);
     check (r_status result = FullyFilled);
     check (length (r_fills result) = 1);
     check_fill result 0 (\<lambda>f. f_quantity f = 10);
     check (order_count (e_book engine) = 0)
   }"

definition self_trade_partial_fill_then_cancel :: "unit option" where
  "self_trade_partial_fill_then_cancel = do {
     (_, engine) \<leftarrow> add_unwrap test_engine (ask_trader 1 10 (I64 100) 5 1);
     (_, engine) \<leftarrow> add_unwrap engine (ask_trader 2 20 (I64 101) 10 2);
     (result, engine) \<leftarrow> add_unwrap engine (bid_trader 3 20 (I64 101) 15 3);
     check (r_status result = CancelledSelfTrade);
     check (length (r_fills result) = 1);
     check_fill result 0 (\<lambda>f. f_maker_order_id f = 1);
     check_fill result 0 (\<lambda>f. f_quantity f = 5);
     check (order_count (e_book engine) = 1);
     check (best_ask (e_book engine) = Some (I64 101))
   }"

definition restore_empty :: "unit option" where
  "restore_empty = do {
     r \<leftarrow> restore_from_orders [] TEST_CAPACITY;
     engine \<leftarrow> unwrap r;
     check (order_count (e_book engine) = 0);
     check (best_bid (e_book engine) = None);
     check (best_ask (e_book engine) = None)
   }"

definition restore_from_orders_rebuilds_book :: "unit option" where
  "restore_from_orders_rebuilds_book = do {
     o1 \<leftarrow> ask 1 (I64 105) 10 1;
     o2 \<leftarrow> ask 2 (I64 110) 20 2;
     o3 \<leftarrow> bid 3 (I64 100) 30 3;
     o4 \<leftarrow> bid 4 (I64 98) 40 4;
     r \<leftarrow> restore_from_orders [o1, o2, o3, o4] TEST_CAPACITY;
     engine \<leftarrow> unwrap r;
     check (order_count (e_book engine) = 4);
     check (best_bid (e_book engine) = Some (I64 100));
     check (best_ask (e_book engine) = Some (I64 105))
   }"

definition restore_then_match :: "unit option" where
  "restore_then_match = do {
     o1 \<leftarrow> ask 1 (I64 100) 10 1;
     o2 \<leftarrow> ask 2 (I64 101) 20 2;
     r \<leftarrow> restore_from_orders [o1, o2] TEST_CAPACITY;
     engine \<leftarrow> unwrap r;
     (result, engine) \<leftarrow> add_unwrap engine (bid 3 (I64 101) 15 3);
     check (length (r_fills result) = 2);
     check_fill result 0 (\<lambda>f. f_maker_order_id f = 1);
     check_fill result 0 (\<lambda>f. f_quantity f = 10);
     check_fill result 1 (\<lambda>f. f_maker_order_id f = 2);
     check_fill result 1 (\<lambda>f. f_quantity f = 5);
     check (r_status result = FullyFilled)
   }"

definition self_trade_multiple_resting_same_trader :: "unit option" where
  "self_trade_multiple_resting_same_trader = do {
     (_, engine) \<leftarrow> add_unwrap test_engine (ask_trader 1 1 (I64 100) 10 1);
     (_, engine) \<leftarrow> add_unwrap engine (ask_trader 2 1 (I64 101) 10 2);
     (result, engine) \<leftarrow> add_unwrap engine (bid_trader 3 1 (I64 105) 30 3);
     check (r_status result = CancelledSelfTrade);
     check (r_fills result = []);
     check (order_count (e_book engine) = 2)
   }"

section \<open>Property tests\<close>

text \<open>The sum of the quantities of \<open>result.fills\<close>, and the remainder by the status.\<close>

definition quantity_conservation :: "i64 \<Rightarrow> u64 \<Rightarrow> u64 \<Rightarrow> unit option" where
  "quantity_conservation price maker_qty taker_qty = do {
     (_, engine) \<leftarrow> add_unwrap test_engine (order_new 1 1 Ask price maker_qty 1);
     (result, engine) \<leftarrow> add_unwrap engine (order_new 2 2 Bid price taker_qty 2);
     let filled = sum_list (map f_quantity (r_fills result));
     let remainder = (case r_status result of
         FullyFilled \<Rightarrow> 0
       | PartiallyFilled \<Rightarrow> taker_qty - filled
       | Resting \<Rightarrow> taker_qty - filled
       | CancelledSelfTrade \<Rightarrow> taker_qty - filled);
     check (filled + remainder = taker_qty)
   }"

text \<open>The loop over the drawn orders, numbered from one on; \<open>each\<close> looks at the result of a call.\<close>

fun feed :: "(matching_error + add_order_result \<Rightarrow> unit option) \<Rightarrow> nat \<Rightarrow> (side \<times> i64 \<times> u64) list \<Rightarrow>
    matching_engine \<Rightarrow> matching_engine option" where
  "feed each i [] engine = Some engine"
| "feed each i ((side, price, qty) # orders) engine = do {
     let d = of_nat (i + 1);
     ord \<leftarrow> order_new d d side price qty d;
     (r, engine) \<leftarrow> add_order engine ord;
     each r;
     feed each (i + 1) orders engine
   }"

definition no_crossed_book :: "(side \<times> i64 \<times> u64) list \<Rightarrow> unit option" where
  "no_crossed_book orders = do {
     engine \<leftarrow> feed (\<lambda>_. Some ()) 0 orders test_engine;
     (case (best_bid (e_book engine), best_ask (e_book engine)) of
        (Some bb, Some ba) \<Rightarrow> check (bb < ba)
      | _ \<Rightarrow> Some ())
   }"

definition crosses_produce_fills :: "i64 \<Rightarrow> u64 \<Rightarrow> u64 \<Rightarrow> unit option" where
  "crosses_produce_fills price maker_qty taker_qty = do {
     (_, engine) \<leftarrow> add_unwrap test_engine (order_new 1 1 Ask price maker_qty 1);
     (result, engine) \<leftarrow> add_unwrap engine (order_new 2 2 Bid price taker_qty 2);
     check (r_fills result \<noteq> [])
   }"

definition positive_fills :: "matching_error + add_order_result \<Rightarrow> unit option" where
  "positive_fills r =
     (case r of Inr result \<Rightarrow> check (list_all (\<lambda>f. f_quantity f > 0) (r_fills result)) | Inl _ \<Rightarrow> Some ())"

definition fill_quantities_positive :: "(side \<times> i64 \<times> u64) list \<Rightarrow> unit option" where
  "fill_quantities_positive orders = do {
     feed positive_fills 0 orders test_engine;
     Some ()
   }"

definition no_self_trade_fills :: "i64 \<Rightarrow> u64 \<Rightarrow> u64 \<Rightarrow> unit option" where
  "no_self_trade_fills price maker_qty taker_qty = do {
     (_, engine) \<leftarrow> add_unwrap test_engine (order_new 1 42 Ask price maker_qty 1);
     (result, engine) \<leftarrow> add_unwrap engine (order_new 2 42 Bid price taker_qty 2);
     check (r_fills result = []);
     check (r_status result = CancelledSelfTrade)
   }"

section \<open>Running a test on the model\<close>

text \<open>
  What an engine holds, and the engine after a call. A test is run on the priority lists, as the
  tests of the book are.
\<close>

definition view :: "matching_engine \<Rightarrow> abook" where
  "view e = book_view (e_book e)"

definition sound :: "matching_engine \<Rightarrow> bool" where
  "sound e \<longleftrightarrow> represents (e_book e) (view e) \<and> capacity_of (e_book e) = 1024"

definition after_add :: "matching_engine \<Rightarrow> order \<Rightarrow> matching_engine" where
  "after_add e ord = snd (the (add_order e ord))"

definition after_cancel :: "matching_engine \<Rightarrow> u64 \<Rightarrow> matching_engine" where
  "after_cancel e d = snd (the (engine_cancel_order e d))"

lemma soundI: "represents (e_book e) A \<Longrightarrow> capacity_of (e_book e) = 1024 \<Longrightarrow> sound e \<and> view e = A"
  using book_view_represents [of "e_book e" A] by (simp add: sound_def view_def)

lemma sound_start: "sound test_engine" "view test_engine = (\<lambda>_. [])"
  using soundI [OF engine_new_represents(1) [of TEST_CAPACITY]] engine_new_represents(2) [of TEST_CAPACITY]
  by (simp_all add: test_engine_def TEST_CAPACITY_def)

lemma sound_add:
  assumes "sound e"
  shows "add_order e ord = Some (fst (a_add_order 1024 (view e) ord), after_add e ord)"
    and "sound (after_add e ord)" and "view (after_add e ord) = snd (a_add_order 1024 (view e) ord)"
proof -
  from assms have r: "represents (e_book e) (view e)" and c: "capacity_of (e_book e) = 1024" by (simp_all add: sound_def)
  obtain e' where "add_order e ord = Some (fst (a_add_order 1024 (view e) ord), e')"
    "represents (e_book e') (snd (a_add_order 1024 (view e) ord))" "capacity_of (e_book e') = 1024"
    using add_order_refines [OF r prod.collapse [symmetric], of ord] c by auto
  then show "add_order e ord = Some (fst (a_add_order 1024 (view e) ord), after_add e ord)"
    and "sound (after_add e ord)" and "view (after_add e ord) = snd (a_add_order 1024 (view e) ord)"
    using soundI [of e'] by (simp_all add: after_add_def)
qed

lemma sound_cancel:
  assumes "sound e"
  shows "engine_cancel_order e d = Some (fst (a_cancel_order (view e) d), after_cancel e d)"
    and "sound (after_cancel e d)" and "view (after_cancel e d) = snd (a_cancel_order (view e) d)"
proof -
  from assms have r: "represents (e_book e) (view e)" and c: "capacity_of (e_book e) = 1024" by (simp_all add: sound_def)
  obtain e' where "engine_cancel_order e d = Some (fst (a_cancel_order (view e) d), e')"
    "represents (e_book e') (snd (a_cancel_order (view e) d))" "capacity_of (e_book e') = 1024"
    using cancel_order_refines [OF r prod.collapse [symmetric], of d] c by auto
  then show "engine_cancel_order e d = Some (fst (a_cancel_order (view e) d), after_cancel e d)"
    and "sound (after_cancel e d)" and "view (after_cancel e d) = snd (a_cancel_order (view e) d)"
    using soundI [of e'] by (simp_all add: after_cancel_def)
qed

definition after_restore :: "order list \<Rightarrow> matching_engine" where
  "after_restore os = projr (the (restore_from_orders os TEST_CAPACITY))"

lemma sound_restore:
  assumes "distinct (map o_id os)" and "length os \<le> 1024"
  shows "restore_from_orders os TEST_CAPACITY = Some (Inr (after_restore os))"
    and "sound (after_restore os)" and "view (after_restore os) = foldl rest_order (\<lambda>_. []) os"
proof -
  obtain e where "restore_from_orders os TEST_CAPACITY = Some (Inr e)"
    "represents (e_book e) (foldl rest_order (\<lambda>_. []) os)" "capacity_of (e_book e) = 1024"
    using restore_refines [of os TEST_CAPACITY] assms by (auto simp: TEST_CAPACITY_def)
  then show "restore_from_orders os TEST_CAPACITY = Some (Inr (after_restore os))"
    and "sound (after_restore os)" and "view (after_restore os) = foldl rest_order (\<lambda>_. []) os"
    using soundI [of e] by (simp_all add: after_restore_def)
qed

lemma sound_sel:
  assumes "sound e"
  shows "best_bid (e_book e) = best_price (view e Bid)" and "best_ask (e_book e) = best_price (view e Ask)"
    and "order_count (e_book e) = length (resting (view e))"
  using assms book_sound_sel [of "e_book e"] by (simp_all add: sound_def view_def book_sound_def)

lemmas run_test = unwrap_def unwrap_err_def check_def bid_def ask_def bid_trader_def ask_trader_def order_new_def
  add_unwrap_def check_fill_def vec_get_def sound_start sound_add sound_cancel sound_sel sound_restore rest_order_def
  a_add_order_def a_cancel_order_def Let_def ids_def resting_def enqueue_def without_id_def best_price_def
  fill_of_def less_eq_i64_def i64_val_def

lemma no_match_resting_passes: "no_match_resting = Some ()"
  by (simp add: no_match_resting_def run_test)

lemma full_fill_equal_quantities_passes: "full_fill_equal_quantities = Some ()"
  by (simp add: full_fill_equal_quantities_def run_test)

lemma partial_fill_taker_has_more_passes: "partial_fill_taker_has_more = Some ()"
  by (simp add: partial_fill_taker_has_more_def run_test)

lemma partial_fill_maker_has_more_passes: "partial_fill_maker_has_more = Some ()"
  by (simp add: partial_fill_maker_has_more_def run_test)

lemma multi_level_matching_passes: "multi_level_matching = Some ()"
  by (simp add: multi_level_matching_def run_test)

lemma fifo_within_price_level_passes: "fifo_within_price_level = Some ()"
  by (simp add: fifo_within_price_level_def run_test)

lemma fill_price_is_maker_price_passes: "fill_price_is_maker_price = Some ()"
  by (simp add: fill_price_is_maker_price_def run_test)

lemma ask_taker_matches_bids_passes: "ask_taker_matches_bids = Some ()"
  by (simp add: ask_taker_matches_bids_def run_test)

lemma cancel_resting_order_passes: "cancel_resting_order = Some ()"
  by (simp add: cancel_resting_order_def run_test)

lemma cancel_nonexistent_fails_passes: "cancel_nonexistent_fails = Some ()"
  by (simp add: cancel_nonexistent_fails_def run_test)

lemma zero_quantity_rejected_passes: "zero_quantity_rejected = Some ()"
  by (simp add: zero_quantity_rejected_def run_test)

lemma empty_book_no_match_passes: "empty_book_no_match = Some ()"
  by (simp add: empty_book_no_match_def run_test)

lemma bid_below_best_ask_no_match_passes: "bid_below_best_ask_no_match = Some ()"
  by (simp add: bid_below_best_ask_no_match_def run_test)

lemma self_trade_prevented_cancel_newest_passes: "self_trade_prevented_cancel_newest = Some ()"
  by (simp add: self_trade_prevented_cancel_newest_def run_test)

lemma self_trade_different_traders_allowed_passes: "self_trade_different_traders_allowed = Some ()"
  by (simp add: self_trade_different_traders_allowed_def run_test)

lemma self_trade_partial_fill_then_cancel_passes: "self_trade_partial_fill_then_cancel = Some ()"
  by (simp add: self_trade_partial_fill_then_cancel_def run_test)

lemma restore_empty_passes: "restore_empty = Some ()"
  by (simp add: restore_empty_def run_test)

lemma restore_from_orders_rebuilds_book_passes: "restore_from_orders_rebuilds_book = Some ()"
  by (simp add: restore_from_orders_rebuilds_book_def run_test)

lemma restore_then_match_passes: "restore_then_match = Some ()"
  by (simp add: restore_then_match_def run_test)

lemma self_trade_multiple_resting_same_trader_passes: "self_trade_multiple_resting_same_trader = Some ()"
  by (simp add: self_trade_multiple_resting_same_trader_def run_test)

section \<open>The property tests hold at every input\<close>

text \<open>The tests of one maker and one taker: any price, and any quantities but zero.\<close>

lemma quantity_conservation_holds:
  "maker_qty \<noteq> 0 \<Longrightarrow> taker_qty \<noteq> 0 \<Longrightarrow> quantity_conservation price maker_qty taker_qty = Some ()"
  by (simp add: quantity_conservation_def run_test split: order_status.split)

lemma crosses_produce_fills_holds:
  "maker_qty \<noteq> 0 \<Longrightarrow> taker_qty \<noteq> 0 \<Longrightarrow> crosses_produce_fills price maker_qty taker_qty = Some ()"
  by (simp add: crosses_produce_fills_def run_test)

lemma no_self_trade_fills_holds:
  "maker_qty \<noteq> 0 \<Longrightarrow> taker_qty \<noteq> 0 \<Longrightarrow> no_self_trade_fills price maker_qty taker_qty = Some ()"
  by (simp add: no_self_trade_fills_def run_test)

text \<open>The tests of a list of orders: any list, of any length.\<close>

lemma a_match_fills_positive:
  "a_match t Q = (fs, t', st, Q') \<Longrightarrow> \<forall>m \<in> set Q. o_quantity m \<noteq> 0 \<Longrightarrow> list_all (\<lambda>f. f_quantity f > 0) fs"
proof (induction t Q arbitrary: fs t' st Q' rule: a_match.induct)
  case (2 t m Q)
  then show ?case by (fastforce simp: fill_of_def word_neq_0_conv min_def split: if_splits prod.splits)
qed simp

lemma a_add_order_fills_positive:
  assumes "positive A" and "fst (a_add_order cap A ord) = Inr result"
  shows "list_all (\<lambda>f. f_quantity f > 0) (r_fills result)"
proof -
  obtain fs t st Q where m: "a_match ord (A (opposite (o_side ord))) = (fs, t, st, Q)" by (metis prod_cases4)
  have "\<forall>x \<in> set (A (opposite (o_side ord))). o_quantity x \<noteq> 0"
    using assms(1) by (auto simp: positive_def set_resting [of A "o_side ord"])
  from a_match_fills_positive [OF m this] show ?thesis
    using assms(2) m by (auto simp: a_add_order_def Let_def split: if_splits)
qed

lemma feed_sound:
  assumes "sound e" and "book_inv (view e)" and "list_all (\<lambda>(s, p, q). q \<noteq> 0) orders"
    and each: "\<And>A ord. positive A \<Longrightarrow> each (fst (a_add_order 1024 A ord)) = Some ()"
  shows "\<exists>e'. feed each i orders e = Some e' \<and> sound e' \<and> book_inv (view e')"
  using assms(1-3)
proof (induction orders arbitrary: i e)
  case (Cons x orders)
  obtain s p q where x: "x = (s, p, q)" "q \<noteq> 0" using Cons.prems(3) by (cases x) auto
  let ?o = "\<lparr>o_id = of_nat (i + 1), o_trader_id = of_nat (i + 1), o_side = s, o_price = p, o_quantity = q,
    o_timestamp = of_nat (i + 1)\<rparr>"
  have "abook_ok (view e)" using Cons.prems(1) represents_abook_ok by (auto simp: sound_def)
  then have "book_inv (view (after_add e ?o))"
    using a_command_inv [of "view e" 1024 "NewOrder ?o"] Cons.prems(1,2) sound_add(3) [of e ?o] by simp
  from Cons.IH [OF sound_add(2) [OF Cons.prems(1)] this, of "i + 1"] Cons.prems x each [of "view e" ?o]
  show ?case by (simp add: order_new_def sound_add(1) book_inv_def Let_def)
qed simp

lemma start_inv: "book_inv (view test_engine)"
  by (simp add: sound_start book_inv_empty)

lemma no_crossed_book_holds:
  assumes "list_all (\<lambda>(s, p, q). q \<noteq> 0) orders"
  shows "no_crossed_book orders = Some ()"
proof -
  obtain e where "feed (\<lambda>_. Some ()) 0 orders test_engine = Some e" "sound e" "uncrossed (view e)"
    using feed_sound [OF sound_start(1) start_inv assms, of "\<lambda>_. Some ()" 0] by (auto simp: book_inv_def)
  then show ?thesis
    by (auto simp: no_crossed_book_def sound_sel best_price_def uncrossed_def check_def split: list.split)
qed

lemma fill_quantities_positive_holds:
  assumes "list_all (\<lambda>(s, p, q). q \<noteq> 0) orders"
  shows "fill_quantities_positive orders = Some ()"
proof -
  have "positive_fills (fst (a_add_order 1024 A ord)) = Some ()" if "positive A" for A ord
    using a_add_order_fills_positive [OF that] by (auto simp: positive_fills_def check_def split: sum.split)
  from feed_sound [OF sound_start(1) start_inv assms, of positive_fills 0, OF this] show ?thesis
    by (auto simp: fill_quantities_positive_def)
qed

end
