(* ===== verification/Store_Tests.thy ===== *)
theory Store_Tests
  imports Engine_Tests
begin

text \<open>
  Tests of \<open>src/src/wal.rs\<close> and \<open>src/src/recovery.rs\<close> on the model: those that append, read, reopen, cut and
  grow a log, and those that recover from a log. They are proved for every function in the place of
  \<open>crc32fast::hash\<close>. A log is known by the commands appended to it; its 64 MB of bytes are never
  unfolded. The assertion that the path exists has no counterpart: an opened log has its file.
\<close>

section \<open>The vocabulary of the tests\<close>

definition new_order_cmd :: "u64 \<Rightarrow> engine_command" where
  "new_order_cmd d = NewOrder \<lparr>o_id = d, o_trader_id = 1, o_side = Bid, o_price = I64 15005, o_quantity = 100,
     o_timestamp = 1000000\<rparr>"

definition cancel_cmd :: "u64 \<Rightarrow> engine_command" where
  "cancel_cmd d = CancelOrder d"

text \<open>\<open>Wal::open(&path).unwrap()\<close> on a file, and \<open>wal.append(&cmd).unwrap()\<close>.\<close>

definition open_unwrap :: "(u8 list \<Rightarrow> u32) \<Rightarrow> u8 list \<Rightarrow> wal option" where
  "open_unwrap crc file = do { r \<leftarrow> wal_open crc file GrowOk; unwrap r }"

definition append_unwrap :: "(u8 list \<Rightarrow> u32) \<Rightarrow> wal \<Rightarrow> engine_command \<Rightarrow> (nat \<times> wal) option" where
  "append_unwrap crc wal cmd = do {
     (r, wal) \<leftarrow> append crc wal cmd GrowOk;
     seq \<leftarrow> unwrap r;
     Some (seq, wal)
   }"

text \<open>The loops of appends, with and without the check of the number.\<close>

fun append_each :: "(u8 list \<Rightarrow> u32) \<Rightarrow> wal \<Rightarrow> engine_command list \<Rightarrow> wal option" where
  "append_each crc wal [] = Some wal"
| "append_each crc wal (cmd # cmds) = do {
     (_, wal) \<leftarrow> append_unwrap crc wal cmd;
     append_each crc wal cmds
   }"

fun append_counting :: "(u8 list \<Rightarrow> u32) \<Rightarrow> wal \<Rightarrow> nat \<Rightarrow> engine_command list \<Rightarrow> wal option" where
  "append_counting crc wal i [] = Some wal"
| "append_counting crc wal i (cmd # cmds) = do {
     (seq, wal) \<leftarrow> append_unwrap crc wal cmd;
     check (seq = i);
     append_counting crc wal (i + 1) cmds
   }"

text \<open>\<open>collect::<Result<Vec<_>, _>>()\<close>.\<close>

partial_function (option) collect ::
  "(u8 list \<Rightarrow> u32) \<Rightarrow> wal_iterator \<Rightarrow> (wal_error + (nat \<times> engine_command) list) option" where
  "collect crc it = do {
     (item, it) \<leftarrow> next_record crc it;
     (case item of
        None \<Rightarrow> Some (Inr [])
      | Some (Inl e) \<Rightarrow> Some (Inl e)
      | Some (Inr x) \<Rightarrow> do {
          r \<leftarrow> collect crc it;
          Some (case r of Inl e \<Rightarrow> Inl e | Inr xs \<Rightarrow> Inr (x # xs))
        })
   }"

fun is_new_order :: "engine_command \<Rightarrow> bool" where
  "is_new_order (NewOrder ord) = True"
| "is_new_order (CancelOrder d) = False"

fun is_cancel :: "engine_command \<Rightarrow> bool" where
  "is_cancel (NewOrder ord) = False"
| "is_cancel (CancelOrder d) = True"

section \<open>Tests of the log\<close>

definition create_new_wal :: "(u8 list \<Rightarrow> u32) \<Rightarrow> unit option" where
  "create_new_wal crc = do {
     wal \<leftarrow> open_unwrap crc [];
     check (w_record_count wal = 0);
     check (w_write_pos wal = 0)
   }"

definition append_single_new_order :: "(u8 list \<Rightarrow> u32) \<Rightarrow> unit option" where
  "append_single_new_order crc = do {
     wal \<leftarrow> open_unwrap crc [];
     (seq, wal) \<leftarrow> append_unwrap crc wal (new_order_cmd 1);
     check (seq = 1);
     check (w_record_count wal = 1);
     check (w_write_pos wal = 48)
   }"

definition append_cancel_order :: "(u8 list \<Rightarrow> u32) \<Rightarrow> unit option" where
  "append_cancel_order crc = do {
     wal \<leftarrow> open_unwrap crc [];
     (seq, wal) \<leftarrow> append_unwrap crc wal (cancel_cmd 42);
     check (seq = 1);
     check (w_write_pos wal = 24)
   }"

definition append_multiple_records :: "(u8 list \<Rightarrow> u32) \<Rightarrow> unit option" where
  "append_multiple_records crc = do {
     wal \<leftarrow> open_unwrap crc [];
     wal \<leftarrow> append_counting crc wal 1 (map (new_order_cmd \<circ> of_nat) [1..<101]);
     check (w_record_count wal = 100);
     check (w_write_pos wal = 100 * 48)
   }"

definition iterate_all_records :: "(u8 list \<Rightarrow> u32) \<Rightarrow> unit option" where
  "iterate_all_records crc = do {
     wal \<leftarrow> open_unwrap crc [];
     (seq, wal) \<leftarrow> append_unwrap crc wal (new_order_cmd 10);
     (seq, wal) \<leftarrow> append_unwrap crc wal (cancel_cmd 10);
     (seq, wal) \<leftarrow> append_unwrap crc wal (new_order_cmd 20);
     res \<leftarrow> collect crc (iter_from wal 0);
     records \<leftarrow> unwrap res;
     check (length records = 3);
     (n, cmd) \<leftarrow> vec_get records 0;
     check (n = 1);
     (case cmd of NewOrder ord \<Rightarrow> check (o_id ord = 10) | _ \<Rightarrow> None);
     (n, cmd) \<leftarrow> vec_get records 1;
     check (n = 2);
     check (cmd = CancelOrder 10);
     (n, cmd) \<leftarrow> vec_get records 2;
     check (n = 3);
     (case cmd of NewOrder ord \<Rightarrow> check (o_id ord = 20) | _ \<Rightarrow> None)
   }"

definition iterate_from_offset :: "(u8 list \<Rightarrow> u32) \<Rightarrow> unit option" where
  "iterate_from_offset crc = do {
     wal \<leftarrow> open_unwrap crc [];
     wal \<leftarrow> append_each crc wal (map (new_order_cmd \<circ> of_nat) [1..<11]);
     res \<leftarrow> collect crc (iter_from wal 5);
     records \<leftarrow> unwrap res;
     check (length records = 5);
     (n, cmd) \<leftarrow> vec_get records 0;
     check (n = 6);
     (n, cmd) \<leftarrow> vec_get records 4;
     check (n = 10)
   }"

definition iterate_empty_wal :: "(u8 list \<Rightarrow> u32) \<Rightarrow> unit option" where
  "iterate_empty_wal crc = do {
     wal \<leftarrow> open_unwrap crc [];
     res \<leftarrow> collect crc (iter_from wal 0);
     records \<leftarrow> unwrap res;
     check (records = [])
   }"

definition reopen_preserves_state :: "(u8 list \<Rightarrow> u32) \<Rightarrow> unit option" where
  "reopen_preserves_state crc = do {
     wal \<leftarrow> open_unwrap crc [];
     (seq, wal) \<leftarrow> append_unwrap crc wal (new_order_cmd 1);
     (seq, wal) \<leftarrow> append_unwrap crc wal (new_order_cmd 2);
     (seq, wal) \<leftarrow> append_unwrap crc wal (cancel_cmd 1);
     wal \<leftarrow> open_unwrap crc (wal_file wal);
     check (w_record_count wal = 3);
     check (w_write_pos wal = 48 + 48 + 24);
     res \<leftarrow> collect crc (iter_from wal 0);
     records \<leftarrow> unwrap res;
     check (length records = 3)
   }"

definition truncate_to_discards_records :: "(u8 list \<Rightarrow> u32) \<Rightarrow> unit option" where
  "truncate_to_discards_records crc = do {
     wal \<leftarrow> open_unwrap crc [];
     (seq, wal) \<leftarrow> append_unwrap crc wal (new_order_cmd 1);
     (seq, wal) \<leftarrow> append_unwrap crc wal (new_order_cmd 2);
     (seq, wal) \<leftarrow> append_unwrap crc wal (new_order_cmd 3);
     wal \<leftarrow> truncate_to wal 48 1;
     check (w_record_count wal = 1);
     check (w_write_pos wal = 48);
     res \<leftarrow> collect crc (iter_from wal 0);
     records \<leftarrow> unwrap res;
     check (length records = 1)
   }"

definition remap_on_growth :: "(u8 list \<Rightarrow> u32) \<Rightarrow> unit option" where
  "remap_on_growth crc = do {
     r \<leftarrow> open_with_size crc [] 256 GrowOk;
     wal \<leftarrow> unwrap r;
     check (w_mapped_size wal = 256);
     wal \<leftarrow> append_each crc wal (map (new_order_cmd \<circ> of_nat) [1..<11]);
     check (w_mapped_size wal > 256);
     check (w_record_count wal = 10);
     res \<leftarrow> collect crc (iter_from wal 0);
     records \<leftarrow> unwrap res;
     check (length records = 10)
   }"

definition mixed_new_order_and_cancel :: "(u8 list \<Rightarrow> u32) \<Rightarrow> unit option" where
  "mixed_new_order_and_cancel crc = do {
     wal \<leftarrow> open_unwrap crc [];
     (seq, wal) \<leftarrow> append_unwrap crc wal (new_order_cmd 1);
     (seq, wal) \<leftarrow> append_unwrap crc wal (new_order_cmd 2);
     (seq, wal) \<leftarrow> append_unwrap crc wal (cancel_cmd 1);
     (seq, wal) \<leftarrow> append_unwrap crc wal (new_order_cmd 3);
     res \<leftarrow> collect crc (iter_from wal 0);
     records \<leftarrow> unwrap res;
     check (length records = 4);
     (_, cmd) \<leftarrow> vec_get records 0;
     check (is_new_order cmd);
     (_, cmd) \<leftarrow> vec_get records 1;
     check (is_new_order cmd);
     (_, cmd) \<leftarrow> vec_get records 2;
     check (is_cancel cmd);
     (_, cmd) \<leftarrow> vec_get records 3;
     check (is_new_order cmd);
     check (w_write_pos wal = 168)
   }"

definition new_order_preserves_fields :: "(u8 list \<Rightarrow> u32) \<Rightarrow> unit option" where
  "new_order_preserves_fields crc = do {
     let ord = \<lparr>o_id = 999, o_trader_id = 42, o_side = Ask, o_price = I64 (- 12345), o_quantity = - 1, o_timestamp = 0\<rparr>;
     wal \<leftarrow> open_unwrap crc [];
     (seq, wal) \<leftarrow> append_unwrap crc wal (NewOrder ord);
     res \<leftarrow> collect crc (iter_from wal 0);
     records \<leftarrow> unwrap res;
     (_, cmd) \<leftarrow> vec_get records 0;
     (case cmd of
        NewOrder ord \<Rightarrow> do {
          check (o_id ord = 999);
          check (o_trader_id ord = 42);
          check (o_side ord = Ask);
          check (o_price ord = I64 (- 12345));
          check (o_quantity ord = - 1)
        }
      | _ \<Rightarrow> None)
   }"

section \<open>Tests of recovery\<close>

definition rec_bid :: "u64 \<Rightarrow> i64 \<Rightarrow> u64 \<Rightarrow> order option" where
  "rec_bid d price qty = order_new d d Bid price qty d"

definition rec_ask :: "u64 \<Rightarrow> i64 \<Rightarrow> u64 \<Rightarrow> order option" where
  "rec_ask d price qty = order_new d d Ask price qty d"

text \<open>\<open>recover(&data_dir, 1024).unwrap()\<close>, where the file system answers every call.\<close>

definition recover_unwrap :: "codecs \<Rightarrow> disk \<Rightarrow> (matching_engine \<times> wal) option" where
  "recover_unwrap k disk = do {
     r \<leftarrow> recover k disk 1024 \<lparr>io_mkdir = True, io_listable = True, io_readable = (\<lambda>_. True), io_grow = GrowOk\<rparr>;
     unwrap r
   }"

definition replay_orders :: "order list option" where
  "replay_orders = do {
     o1 \<leftarrow> rec_bid 1 (I64 100) 10;
     o2 \<leftarrow> rec_ask 2 (I64 110) 20;
     o3 \<leftarrow> rec_bid 3 (I64 98) 30;
     o4 \<leftarrow> rec_ask 4 (I64 105) 15;
     o5 \<leftarrow> rec_bid 5 (I64 108) 25;
     Some [o1, o2, o3, o4, o5]
   }"

definition same_order :: "order \<Rightarrow> order \<Rightarrow> bool" where
  "same_order a b \<longleftrightarrow> o_id a = o_id b \<and> o_price a = o_price b \<and> o_quantity a = o_quantity b \<and> o_side a = o_side b"

definition fresh_start_no_files :: "codecs \<Rightarrow> unit option" where
  "fresh_start_no_files k = do {
     (engine, wal) \<leftarrow> recover_unwrap k \<lparr>d_wal = None, d_snapshots = None\<rparr>;
     check (order_count (e_book engine) = 0);
     check (w_record_count wal = 0)
   }"

definition wal_only_recovery :: "codecs \<Rightarrow> unit option" where
  "wal_only_recovery k = do {
     let crc = crc_hash k;
     wal \<leftarrow> open_unwrap crc [];
     ord \<leftarrow> rec_bid 1 (I64 100) 10;
     (_, wal) \<leftarrow> append_unwrap crc wal (NewOrder ord);
     ord \<leftarrow> rec_ask 2 (I64 110) 20;
     (_, wal) \<leftarrow> append_unwrap crc wal (NewOrder ord);
     ord \<leftarrow> rec_bid 3 (I64 98) 30;
     (_, wal) \<leftarrow> append_unwrap crc wal (NewOrder ord);
     (engine, wal) \<leftarrow> recover_unwrap k \<lparr>d_wal = Some (wal_file wal), d_snapshots = None\<rparr>;
     check (order_count (e_book engine) = 3);
     check (best_bid (e_book engine) = Some (I64 100));
     check (best_ask (e_book engine) = Some (I64 110));
     check (w_record_count wal = 3)
   }"

definition truncated_wal_recovery :: "codecs \<Rightarrow> unit option" where
  "truncated_wal_recovery k = do {
     let crc = crc_hash k;
     wal \<leftarrow> open_unwrap crc [];
     ord \<leftarrow> rec_bid 1 (I64 100) 10;
     (_, wal) \<leftarrow> append_unwrap crc wal (NewOrder ord);
     ord \<leftarrow> rec_ask 2 (I64 110) 20;
     (_, wal) \<leftarrow> append_unwrap crc wal (NewOrder ord);
     ord \<leftarrow> rec_bid 3 (I64 98) 30;
     (_, wal) \<leftarrow> append_unwrap crc wal (NewOrder ord);
     (engine, wal) \<leftarrow> recover_unwrap k \<lparr>d_wal = Some (wal_file wal), d_snapshots = None\<rparr>;
     check (order_count (e_book engine) = 3);
     check (w_record_count wal = 3)
   }"

definition deterministic_replay :: "codecs \<Rightarrow> unit option" where
  "deterministic_replay k = do {
     orders \<leftarrow> replay_orders;
     let crc = crc_hash k;
     wal \<leftarrow> open_unwrap crc [];
     wal \<leftarrow> append_each crc wal (map NewOrder orders);
     (engine1, _) \<leftarrow> recover_unwrap k \<lparr>d_wal = Some (wal_file wal), d_snapshots = None\<rparr>;
     wal \<leftarrow> open_unwrap crc [];
     wal \<leftarrow> append_each crc wal (map NewOrder orders);
     (engine2, _) \<leftarrow> recover_unwrap k \<lparr>d_wal = Some (wal_file wal), d_snapshots = None\<rparr>;
     orders1 \<leftarrow> all_resting_orders (e_book engine1);
     orders2 \<leftarrow> all_resting_orders (e_book engine2);
     check (length orders1 = length orders2);
     check (list_all2 same_order orders1 orders2)
   }"

definition recovery_with_cancels :: "codecs \<Rightarrow> unit option" where
  "recovery_with_cancels k = do {
     let crc = crc_hash k;
     wal \<leftarrow> open_unwrap crc [];
     ord \<leftarrow> rec_bid 1 (I64 100) 10;
     (_, wal) \<leftarrow> append_unwrap crc wal (NewOrder ord);
     ord \<leftarrow> rec_ask 2 (I64 110) 20;
     (_, wal) \<leftarrow> append_unwrap crc wal (NewOrder ord);
     (_, wal) \<leftarrow> append_unwrap crc wal (CancelOrder 1);
     (engine, wal) \<leftarrow> recover_unwrap k \<lparr>d_wal = Some (wal_file wal), d_snapshots = None\<rparr>;
     check (order_count (e_book engine) = 1);
     check (best_bid (e_book engine) = None);
     check (best_ask (e_book engine) = Some (I64 110));
     check (w_record_count wal = 3)
   }"

section \<open>A log known by its commands\<close>

definition log_of :: "(u8 list \<Rightarrow> u32) \<Rightarrow> nat \<Rightarrow> engine_command list \<Rightarrow> wal" where
  "log_of crc n cs = foldl (\<lambda>w c. snd (the (append crc w c GrowOk))) (projr (the (open_with_size crc [] n GrowOk))) cs"

definition reopened :: "(u8 list \<Rightarrow> u32) \<Rightarrow> nat \<Rightarrow> engine_command list \<Rightarrow> wal" where
  "reopened crc n cs = projr (the (wal_open crc (wal_file (log_of crc n cs)) GrowOk))"

lemma log_of_open: "open_with_size crc [] n GrowOk = Some (Inr (log_of crc n []))"
  "logs crc (log_of crc n []) [] \<and> clean (log_of crc n [])"
  using open_empty [of crc n] by (auto simp: log_of_def logs_def)

lemma log_of_step:
  assumes "logs crc (log_of crc n cs) cs \<and> clean (log_of crc n cs)"
  shows "append crc (log_of crc n cs) c GrowOk = Some (Inr (Suc (length cs)), log_of crc n (cs @ [c]))"
    and "logs crc (log_of crc n (cs @ [c])) (cs @ [c]) \<and> clean (log_of crc n (cs @ [c]))"
proof -
  obtain w' where w': "append crc (log_of crc n cs) c GrowOk = Some (Inr (Suc (length cs)), w')"
    "logs crc w' (cs @ [c])" "clean w'"
    using append_clean [of crc "log_of crc n cs" "map command_bytes cs" c] assms by (auto simp: logs_def)
  then have "log_of crc n (cs @ [c]) = w'" by (simp add: log_of_def)
  with w' show "append crc (log_of crc n cs) c GrowOk = Some (Inr (Suc (length cs)), log_of crc n (cs @ [c]))"
    and "logs crc (log_of crc n (cs @ [c])) (cs @ [c]) \<and> clean (log_of crc n (cs @ [c]))" by simp_all
qed

lemma log_of_logs: "logs crc (log_of crc n cs) cs \<and> clean (log_of crc n cs)"
  by (induction cs rule: rev_induct) (simp_all only: log_of_open(2) log_of_step(2))

lemmas log_of_append = log_of_step(1) [OF log_of_logs]

lemma reopened_open:
  "wal_open crc (wal_file (log_of crc n cs)) GrowOk = Some (Inr (reopened crc n cs))"
  "logs crc (reopened crc n cs) cs"
  using reopen_clean [of crc "log_of crc n cs" "map command_bytes cs" DEFAULT_INITIAL_SIZE] log_of_logs [of crc n cs]
  by (auto simp: reopened_def wal_open_def logs_def)

text \<open>What the tests ask of a log.\<close>

lemma chain_end: "chain crc mm p ps e \<Longrightarrow> e = p + sum_list (map (\<lambda>pl. record_size (length pl)) ps)"
  by (induction ps arbitrary: p) fastforce+

lemma logs_count: "logs crc w cs \<Longrightarrow> w_record_count w = length cs"
  by (simp add: logs_def wal_ok_def)

lemma logs_pos: "logs crc w cs \<Longrightarrow> w_write_pos w = sum_list (map (\<lambda>c. record_size (length (command_bytes c))) cs)"
  using chain_end [of crc "w_mmap w" 0 "map command_bytes cs" "w_write_pos w"] by (simp add: logs_def wal_ok_def comp_def)

lemma collect_at:
  "at_records crc it (map command_bytes cs) \<Longrightarrow> \<forall>c \<in> set cs. loggable c \<Longrightarrow> i_start_record it \<le> i_current_record it \<Longrightarrow>
     collect crc it = Some (Inr (map2 (\<lambda>j c. (Suc (i_current_record it + j), strip_time c)) [0..<length cs] cs))"
proof (induction cs arbitrary: it)
  case Nil
  then show ?case using next_end [of crc it] by (subst collect.simps) simp
next
  case (Cons c cs)
  obtain it' where it': "next_record crc it = Some (Some (record_item (Suc (i_current_record it)) (command_bytes c)), it')"
    "at_records crc it' (map command_bytes cs)" "i_current_record it' = Suc (i_current_record it)"
    "i_start_record it' = i_start_record it"
    using next_past [of crc it "command_bytes c" "map command_bytes cs"] Cons.prems(1,3) by auto
  have "[0..<length (c # cs)] = 0 # map Suc [0..<length cs]" by (simp add: upt_conv_Cons map_Suc_upt del: upt_Suc)
  with Cons.IH [OF it'(2)] Cons.prems(2,3) it' show ?case
    by (subst collect.simps) (simp add: record_item_def decode_command_bytes zip_map1 split_def comp_def del: upt_Suc)
qed

lemma collect_from:
  assumes "logs crc w cs" and "\<forall>c \<in> set cs. loggable c"
  shows "collect crc (iter_from w n) =
    Some (Inr (map2 (\<lambda>j c. (Suc (n + j), strip_time c)) [0..<length (drop n cs)] (drop n cs)))"
proof (cases "n < length cs")
  case True
  have it: "at_records crc (iter_from w n) (map command_bytes cs)" using assms(1) by (simp add: logs_def iter_from_records)
  have st: "i_current_record (iter_from w n) = 0" "i_start_record (iter_from w n) = n" by (simp_all add: iter_from_def)
  obtain it' where it': "next_record crc (iter_from w n) = Some (Some (record_item (Suc n) (command_bytes (cs ! n))), it')"
    "at_records crc it' (map command_bytes (drop (Suc n) cs))" "i_current_record it' = Suc n" "i_start_record it' = n"
    using next_skip(2) [OF it] st True by (auto simp: drop_map)
  have l: "loggable (cs ! n)" "\<forall>c \<in> set (drop (Suc n) cs). loggable c" using assms(2) True by (auto dest: in_set_dropD)
  have dr: "drop n cs = cs ! n # drop (Suc n) cs" using True by (rule Cons_nth_drop_Suc [symmetric])
  have up: "[0..<length (drop n cs)] = 0 # map Suc [0..<length (drop (Suc n) cs)]"
    unfolding dr by (simp add: upt_conv_Cons map_Suc_upt del: upt_Suc length_drop)
  from collect_at [OF it'(2) l(2)] it' l(1) show ?thesis unfolding up unfolding dr
    by (subst collect.simps) (simp add: record_item_def decode_command_bytes zip_map1 split_def comp_def del: upt_Suc)
next
  case False
  have it: "at_records crc (iter_from w n) (map command_bytes cs)" using assms(1) by (simp add: logs_def iter_from_records)
  with False obtain it' where "next_record crc (iter_from w n) = Some (None, it')"
    using next_skip(1) [OF it] by (auto simp: iter_from_def)
  with False show ?thesis by (subst collect.simps) simp
qed

lemma append_each_log: "append_each crc (log_of crc n cs) ds = Some (log_of crc n (cs @ ds))"
  by (induction ds arbitrary: cs) (simp_all add: append_unwrap_def log_of_append unwrap_def)

lemma append_counting_log: "append_counting crc (log_of crc n cs) (Suc (length cs)) ds = Some (log_of crc n (cs @ ds))"
proof (induction ds arbitrary: cs)
  case (Cons d ds)
  then show ?case using Cons [of "cs @ [d]"] by (simp add: append_unwrap_def log_of_append unwrap_def check_def)
qed simp

lemma record_sizes: "record_size 40 = 48" "record_size 16 = 24"
  by (code_simp, code_simp)

lemma first_open: "wal_open crc [] GrowOk = Some (Inr (log_of crc DEFAULT_INITIAL_SIZE []))"
  by (simp add: wal_open_def log_of_open(1))

lemmas log_facts = logs_count logs_pos collect_from

lemmas run_log_test = unwrap_def check_def vec_get_def open_unwrap_def first_open append_unwrap_def log_of_append
  append_each_log append_counting_log [where cs = "[]", simplified] reopened_open(1)
  log_facts [OF conjunct1 [OF log_of_logs]] log_facts [OF reopened_open(2)]
  new_order_cmd_def cancel_cmd_def record_sizes comp_def sum_list_triv

lemma create_new_wal_passes: "create_new_wal crc = Some ()"
  by (simp add: create_new_wal_def run_log_test)

lemma append_single_new_order_passes: "append_single_new_order crc = Some ()"
  by (simp add: append_single_new_order_def run_log_test)

lemma append_cancel_order_passes: "append_cancel_order crc = Some ()"
  by (simp add: append_cancel_order_def run_log_test)

lemma append_multiple_records_passes: "append_multiple_records crc = Some ()"
  by (simp add: append_multiple_records_def run_log_test)

lemma iterate_all_records_passes: "iterate_all_records crc = Some ()"
  by (simp add: iterate_all_records_def run_log_test)

lemma iterate_from_offset_passes: "iterate_from_offset crc = Some ()"
  by (simp add: iterate_from_offset_def run_log_test)

lemma iterate_empty_wal_passes: "iterate_empty_wal crc = Some ()"
  by (simp add: iterate_empty_wal_def run_log_test)

lemma reopen_preserves_state_passes: "reopen_preserves_state crc = Some ()"
  by (simp add: reopen_preserves_state_def run_log_test)

lemma mixed_new_order_and_cancel_passes: "mixed_new_order_and_cancel crc = Some ()"
  by (simp add: mixed_new_order_and_cancel_def run_log_test)

lemma new_order_preserves_fields_passes: "new_order_preserves_fields crc = Some ()"
  by (simp add: new_order_preserves_fields_def run_log_test)

text \<open>A log cut behind its first record, and one that has outgrown its mapping.\<close>

lemma cut_log:
  assumes "logs crc w (cs @ ds)" and "off = sum_list (map (\<lambda>c. record_size (length (command_bytes c))) cs)"
  shows "\<exists>w'. truncate_to w off (length cs) = Some w' \<and> logs crc w' cs"
proof -
  have ok: "wal_ok crc w (map command_bytes cs @ map command_bytes ds)" using assms(1) by (simp add: logs_def)
  then obtain m where m: "chain crc (w_mmap w) 0 (map command_bytes cs) m" by (auto simp: wal_ok_def chain_append)
  moreover have "m = off" using chain_end [OF m] assms(2) by (simp add: comp_def)
  ultimately show ?thesis using truncate_spec [OF ok] by (auto simp: logs_def)
qed

lemma truncate_to_discards_records_passes: "truncate_to_discards_records crc = Some ()"
proof -
  let ?w = "log_of crc DEFAULT_INITIAL_SIZE [new_order_cmd 1, new_order_cmd 2, new_order_cmd 3]"
  obtain w' where w': "truncate_to ?w 48 1 = Some w'" "logs crc w' [new_order_cmd 1]"
    using cut_log [of crc ?w "[new_order_cmd 1]" "[new_order_cmd 2, new_order_cmd 3]" 48] log_of_logs
    by (auto simp: record_sizes new_order_cmd_def)
  from log_facts [OF w'(2)] w'(1) show ?thesis
    by (simp add: truncate_to_discards_records_def run_log_test)
qed

lemma log_of_mapped: "w_mapped_size (log_of crc n []) = n" "w_write_pos (log_of crc n cs) \<le> w_mapped_size (log_of crc n cs)"
proof -
  have ok: "wal_ok crc (log_of crc n cs) (map command_bytes cs)" for cs using log_of_logs by (simp add: logs_def)
  show "w_write_pos (log_of crc n cs) \<le> w_mapped_size (log_of crc n cs)"
    using wal_ok_pos [OF ok [of cs]] ok [of cs] by (simp add: wal_ok_def)
  show "w_mapped_size (log_of crc n []) = n"
    using open_ok [of crc "[]" n] log_of_open(1) [of crc n] ok [of "[]"] by (auto simp: wal_ok_def)
qed

lemma remap_on_growth_passes: "remap_on_growth crc = Some ()"
proof -
  let ?cs = "map (new_order_cmd \<circ> of_nat) [1..<11]"
  have "w_write_pos (log_of crc 256 ?cs) = 480" by (simp add: run_log_test)
  then have "256 < w_mapped_size (log_of crc 256 ?cs)" using log_of_mapped(2) [of crc 256 ?cs] by linarith
  then show ?thesis by (simp add: remap_on_growth_def run_log_test log_of_open(1) log_of_mapped(1))
qed

section \<open>Recovery from a log known by its commands\<close>

definition test_io :: recovery_io where
  "test_io = \<lparr>io_mkdir = True, io_listable = True, io_readable = (\<lambda>_. True), io_grow = GrowOk\<rparr>"

definition recovered_engine :: "codecs \<Rightarrow> engine_command list \<Rightarrow> matching_engine" where
  "recovered_engine k cs = fst (projr (the (recover k
     \<lparr>d_wal = Some (wal_file (log_of (crc_hash k) DEFAULT_INITIAL_SIZE cs)), d_snapshots = None\<rparr> 1024 test_io)))"

lemma recovered_log:
  assumes "\<forall>c \<in> set cs. loggable c"
  shows "recover k \<lparr>d_wal = Some (wal_file (log_of (crc_hash k) DEFAULT_INITIAL_SIZE cs)), d_snapshots = None\<rparr> 1024 test_io =
      Some (Inr (recovered_engine k cs, reopened (crc_hash k) DEFAULT_INITIAL_SIZE cs))"
    and "sound (recovered_engine k cs)" and "view (recovered_engine k cs) = a_run 1024 (\<lambda>_. []) (map strip_time cs)"
proof -
  let ?w = "reopened (crc_hash k) DEFAULT_INITIAL_SIZE cs" and ?e = "engine_with_capacity 1024"
  obtain e where e: "replay_loop (crc_hash k) (iter_from ?w 0) ?e ?w 0 = Some (Inr (e, ?w))"
    "represents (e_book e) (a_run 1024 (\<lambda>_. []) (map strip_time cs))" "capacity_of (e_book e) = 1024"
    using replay_from [OF reopened_open(2) assms engine_new_represents(1), of 1024 1024 _ _ 0] engine_new_represents(2) [of 1024]
    by auto
  have "recover k \<lparr>d_wal = Some (wal_file (log_of (crc_hash k) DEFAULT_INITIAL_SIZE cs)), d_snapshots = None\<rparr> 1024 test_io =
      Some (Inr (e, ?w))"
    using e(1) reopened_open(1) by (simp add: recover_def load_latest_def test_io_def)
  moreover from this have "recovered_engine k cs = e" by (simp add: recovered_engine_def)
  ultimately show "recover k \<lparr>d_wal = Some (wal_file (log_of (crc_hash k) DEFAULT_INITIAL_SIZE cs)), d_snapshots = None\<rparr> 1024 test_io =
      Some (Inr (recovered_engine k cs, ?w))"
    and "sound (recovered_engine k cs)" and "view (recovered_engine k cs) = a_run 1024 (\<lambda>_. []) (map strip_time cs)"
    using soundI [OF e(2,3)] by simp_all
qed

lemma recovered_fresh:
  "recover k \<lparr>d_wal = None, d_snapshots = None\<rparr> 1024 test_io =
     Some (Inr (test_engine, log_of (crc_hash k) DEFAULT_INITIAL_SIZE []))"
proof -
  let ?w = "log_of (crc_hash k) DEFAULT_INITIAL_SIZE []"
  have "next_record (crc_hash k) (iter_from ?w 0) = Some (None, iter_from ?w 0)"
    using next_end iter_from_records log_of_open(2) [of "crc_hash k" DEFAULT_INITIAL_SIZE] by (simp add: logs_def)
  then have "replay_loop (crc_hash k) (iter_from ?w 0) test_engine ?w 0 = Some (Inr (test_engine, ?w))"
    by (subst replay_loop.simps) simp
  then show ?thesis
    by (simp add: recover_def load_latest_def test_io_def first_open test_engine_def TEST_CAPACITY_def)
qed

lemma sound_orders: "sound e \<Longrightarrow> all_resting_orders (e_book e) = Some (resting (view e))"
  using book_sound_sel(4) [of "e_book e"] by (simp add: sound_def view_def book_sound_def)

lemmas run_recovery_test = recover_unwrap_def test_io_def [symmetric] recovered_log recovered_fresh rec_bid_def rec_ask_def
  replay_orders_def sound_orders same_order_def

lemma fresh_start_no_files_passes: "fresh_start_no_files k = Some ()"
  by (simp add: fresh_start_no_files_def run_log_test run_recovery_test run_test)

lemma wal_only_recovery_passes: "wal_only_recovery k = Some ()"
  by (simp add: wal_only_recovery_def run_log_test run_recovery_test run_test)

lemma truncated_wal_recovery_passes: "truncated_wal_recovery k = Some ()"
  by (simp add: truncated_wal_recovery_def run_log_test run_recovery_test run_test)

lemma deterministic_replay_passes: "deterministic_replay k = Some ()"
  by (simp add: deterministic_replay_def run_log_test run_recovery_test run_test)

lemma recovery_with_cancels_passes: "recovery_with_cancels k = Some ()"
  by (simp add: recovery_with_cancels_def run_log_test run_recovery_test run_test)

end
