(* ===== verification/Damage_Tests.thy ===== *)
theory Damage_Tests
  imports Store_Tests
begin

text \<open>
  The tests of \<open>src/src/wal.rs\<close> that look into the mapping of a log or damage it, on the model. A flipped
  byte of a stored checksum is found whatever the checksum function is; a flipped byte of a
  payload is found where the function tells the two payloads apart, and a header
  without its record where it does not give zero for the zeros that follow.
\<close>

section \<open>The tests\<close>

text \<open>\<open>wal.mmap[i] ^= 0xFF\<close>.\<close>

definition flip_byte :: "wal \<Rightarrow> nat \<Rightarrow> wal option" where
  "flip_byte wal i = do {
     mmap \<leftarrow> vec_update (w_mmap wal) i (\<lambda>b. b XOR 0xFF);
     Some (wal\<lparr>w_mmap := mmap\<rparr>)
   }"

definition record_format_on_disk :: "(u8 list \<Rightarrow> u32) \<Rightarrow> unit option" where
  "record_format_on_disk crc = do {
     wal \<leftarrow> open_unwrap crc [];
     (seq, wal) \<leftarrow> append_unwrap crc wal (new_order_cmd 42);
     payload_len \<leftarrow> u32_at (w_mmap wal) 0;
     check (payload_len = of_nat NEW_ORDER_SIZE);
     stored_crc \<leftarrow> u32_at (w_mmap wal) 4;
     payload \<leftarrow> slice (w_mmap wal) 8 (8 + NEW_ORDER_SIZE);
     check (stored_crc = crc payload);
     b \<leftarrow> vec_get (w_mmap wal) 8;
     check (b = MSG_NEW_ORDER)
   }"

text \<open>
  \<open>iter.next().unwrap()\<close>. The tests compare the error with \<open>Corruption\<close> by a \<open>matches!\<close> whose value they drop;
  the lemmas below have the error.
\<close>

definition next_unwrap :: "(u8 list \<Rightarrow> u32) \<Rightarrow> wal_iterator \<Rightarrow> ((wal_error + nat \<times> engine_command) \<times> wal_iterator) option" where
  "next_unwrap crc it = do {
     (item, it) \<leftarrow> next_record crc it;
     res \<leftarrow> item;
     Some (res, it)
   }"

definition corrupt_crc_detected :: "(u8 list \<Rightarrow> u32) \<Rightarrow> unit option" where
  "corrupt_crc_detected crc = do {
     wal \<leftarrow> open_unwrap crc [];
     (seq, wal) \<leftarrow> append_unwrap crc wal (new_order_cmd 1);
     (seq, wal) \<leftarrow> append_unwrap crc wal (new_order_cmd 2);
     wal \<leftarrow> flip_byte wal (48 + 4);
     let iter = iter_from wal 0;
     (res, iter) \<leftarrow> next_unwrap crc iter;
     check (\<not> isl res);
     (res, iter) \<leftarrow> next_unwrap crc iter;
     err \<leftarrow> unwrap_err res;
     Some ()
   }"

definition corrupt_payload_detected :: "(u8 list \<Rightarrow> u32) \<Rightarrow> unit option" where
  "corrupt_payload_detected crc = do {
     wal \<leftarrow> open_unwrap crc [];
     (seq, wal) \<leftarrow> append_unwrap crc wal (new_order_cmd 1);
     wal \<leftarrow> flip_byte wal (HEADER_SIZE + 5);
     let iter = iter_from wal 0;
     (res, iter) \<leftarrow> next_unwrap crc iter;
     err \<leftarrow> unwrap_err res;
     Some ()
   }"

definition reopen_detects_truncated_record :: "(u8 list \<Rightarrow> u32) \<Rightarrow> unit option" where
  "reopen_detects_truncated_record crc = do {
     wal \<leftarrow> open_unwrap crc [];
     (seq, wal) \<leftarrow> append_unwrap crc wal (new_order_cmd 1);
     (seq, wal) \<leftarrow> append_unwrap crc wal (new_order_cmd 2);
     let pos = w_write_pos wal;
     mmap \<leftarrow> copy_into (w_mmap wal) pos (to_le 4 (40 :: u32));
     let wal = wal\<lparr>w_mmap := mmap\<rparr>;
     wal \<leftarrow> open_unwrap crc (wal_file wal);
     check (w_record_count wal = 2)
   }"

definition reopen_detects_corrupt_record :: "(u8 list \<Rightarrow> u32) \<Rightarrow> unit option" where
  "reopen_detects_corrupt_record crc = do {
     wal \<leftarrow> open_unwrap crc [];
     (seq, wal) \<leftarrow> append_unwrap crc wal (new_order_cmd 1);
     (seq, wal) \<leftarrow> append_unwrap crc wal (new_order_cmd 2);
     (seq, wal) \<leftarrow> append_unwrap crc wal (new_order_cmd 3);
     wal \<leftarrow> flip_byte wal (48 + 4);
     wal \<leftarrow> open_unwrap crc (wal_file wal);
     check (w_record_count wal = 1);
     check (w_write_pos wal = 48)
   }"

section \<open>Damaged records\<close>

text \<open>Bytes away from the damage are as they were.\<close>

lemma field_update:
  assumes "a + n \<le> length mm" and "i < a \<or> a + n \<le> i"
  shows "take n (drop a (mm[i := v] @ zs)) = take n (drop a mm)"
  using assms by (auto simp: drop_update_swap drop_update_cancel take_update_cancel)

lemma same_field:
  assumes "take 4 (drop p mm) = take 4 (drop p mm')" and "p + 4 \<le> length mm" and "p + 4 \<le> length mm'"
  shows "u32_at mm p = u32_at mm' p"
  using assms by (simp add: u32_at_in)

text \<open>Two records with the same length field have the same length.\<close>

lemma is_rec_same_length:
  assumes "is_rec crc mm p pl" and "is_rec crc' mm' p q" and "take 4 (drop p mm') = take 4 (drop p mm)"
  shows "length q = length pl"
  using is_rec_read(3,4) [OF assms(1)] is_rec_read(3,4) [OF assms(2)] is_rec_read(1,2) [OF assms(1)] is_rec_read(1,2) [OF assms(2)]
    same_field [OF assms(3)] by simp

lemma flipped_crc:
  assumes r: "is_rec crc mm p pl" and i: "p + 4 \<le> i" "i < p + 8" and v: "v \<noteq> mm ! i"
  shows "no_rec crc (mm[i := v] @ zs) p"
  unfolding no_rec_def
proof (intro allI notI)
  fix q
  let ?mm = "mm[i := v] @ zs"
  assume q: "is_rec crc ?mm p q"
  note b = is_rec_read(1,2) [OF r]
  have "length q = length pl" by (rule is_rec_same_length [OF r q field_update]) (use b i in auto)
  moreover have "take (length pl) (drop (p + 8) ?mm) = take (length pl) (drop (p + 8) mm)"
    using b i by (intro field_update) auto
  ultimately have "q = pl" using q r by (simp add: is_rec_def)
  then have "take 4 (drop (p + 4) ?mm) = take 4 (drop (p + 4) mm)" using q r by (simp add: is_rec_def)
  then have "take 4 (drop (p + 4) ?mm) ! (i - (p + 4)) = take 4 (drop (p + 4) mm) ! (i - (p + 4))" by simp
  with b i v show False by (simp add: nth_append)
qed

lemma flipped_payload:
  assumes r: "is_rec crc mm p pl" and i: "i < length pl" and crc: "crc (pl[i := v]) \<noteq> crc pl"
  shows "no_rec crc (mm[p + 8 + i := v] @ zs) p"
  unfolding no_rec_def
proof (intro allI notI)
  fix q
  let ?mm = "mm[p + 8 + i := v] @ zs"
  assume q: "is_rec crc ?mm p q"
  note b = is_rec_read(1,2) [OF r]
  have l: "length q = length pl" by (rule is_rec_same_length [OF r q field_update]) (use b i in auto)
  have "take (length pl) (drop (p + 8) ?mm) = pl[i := v]"
    using r b i by (simp add: is_rec_def drop_update_swap take_update_swap)
  then have "q = pl[i := v]" using q l by (simp add: is_rec_def)
  moreover have "take 4 (drop (p + 4) ?mm) = take 4 (drop (p + 4) mm)" using b i by (intro field_update) auto
  then have "to_le 4 (crc q) = to_le 4 (crc pl)" using q r by (simp add: is_rec_def)
  then have "crc q = crc pl" by (metis from_le_4)
  ultimately show False using crc by simp
qed

lemma header_alone:
  assumes z: "\<forall>x \<in> set (drop (p + 4) mm). x = 0" and n: "take 4 (drop p mm) = to_le 4 (of_nat n :: u32)" "n < 2 ^ 32"
    and crc: "crc (replicate n 0) \<noteq> 0"
  shows "no_rec crc mm p"
  unfolding no_rec_def
proof (intro allI notI)
  fix q
  assume q: "is_rec crc mm p q"
  have zeros: "take m (drop a mm) = replicate m 0" if "p + 4 \<le> a" "a + m \<le> length mm" for a m
    using that z set_drop_subset_set_drop [of "p + 4" a mm] by (intro replicate_eqI) (auto dest: in_set_takeD)
  note b = is_rec_read(1,2) [OF q]
  have "to_le 4 (of_nat (length q) :: u32) = to_le 4 (of_nat n :: u32)" using q n(1) by (simp add: is_rec_def)
  then have "(of_nat (length q) :: u32) = of_nat n" by (metis from_le_4)
  moreover have "unat (of_nat n :: u32) = n" using n(2) by (simp add: unat_of_nat)
  ultimately have "length q = n" using is_rec_read(4) [OF q] by simp
  then have "q = replicate n 0" using q b zeros [of "p + 8" n] by (simp add: is_rec_def)
  moreover have "to_le 4 (crc q) = replicate 4 0" using q b zeros [of "p + 4" 4] by (simp add: is_rec_def)
  then have "crc q = from_le (replicate 4 0)" by (metis from_le_4)
  ultimately show False using crc by (simp add: eval_nat_numeral)
qed

section \<open>Reading and reopening a damaged log\<close>

text \<open>Where there is a header but no record, the iterator reports the damage and its place.\<close>

lemma next_damaged:
  assumes "no_rec crc (i_mmap it) (i_read_pos it)" and "u32_at (i_mmap it) (i_read_pos it) = Some len" and "len \<noteq> 0"
    and "i_read_pos it + record_size (unat len) \<le> i_end_pos it" and "i_end_pos it \<le> length (i_mmap it)"
  shows "next_record crc it = Some (Some (Inl (Corruption (i_read_pos it))), it)"
proof -
  let ?p = "i_read_pos it" and ?n = "unat len"
  have "?n < 2 ^ 32" using unat_lt2p [of len] by simp
  then have b: "8 + ?n \<le> record_size ?n" by (rule record_size_bounds)
  then obtain pl where pl: "slice (i_mmap it) (?p + 8) (?p + 8 + ?n) = Some pl" using assms(4,5) by (simp add: slice_def)
  moreover obtain stored where stored: "u32_at (i_mmap it) (?p + 4) = Some stored"
    using b assms(4,5) by (simp add: u32_at_in)
  moreover have "stored \<noteq> crc pl"
    using is_recI(1) [OF _ assms(2,3) _ pl] stored assms(1,4,5) b by (auto simp: no_rec_def)
  ultimately show ?thesis
    using assms(2,3,4) b by (subst next_record.simps) (simp add: Let_def HEADER_SIZE_def unsigned_eq_0_iff)
qed

text \<open>A log reopened with the records from \<open>off\<close> on damaged.\<close>

lemma reopen_damaged:
  assumes log: "logs crc w (cs @ ds)" and off: "off = sum_list (map (\<lambda>c. record_size (length (command_bytes c))) cs)"
    and mm: "take off mm = take off (w_mmap w)" "length mm = length (w_mmap w)" and bad: "\<And>m. no_rec crc (mm @ replicate m 0) off"
  shows "\<exists>w'. wal_open crc (wal_file (w\<lparr>w_mmap := mm\<rparr>)) GrowOk = Some (Inr w') \<and> logs crc w' cs"
proof -
  obtain m where c: "chain crc (w_mmap w) 0 (map command_bytes cs) m" "m \<le> w_write_pos w"
    using log chain_mono by (fastforce simp: logs_def wal_ok_def chain_append)
  have "m = off" using chain_end [OF c(1)] off by (simp add: comp_def)
  moreover have "w_write_pos w \<le> length (w_mmap w)" using log wal_ok_pos by (auto simp: logs_def)
  ultimately have c: "chain crc (w_mmap w) 0 (map command_bytes cs) off" "off \<le> length mm" using c mm(2) by simp_all
  obtain w' ps z where w': "wal_open crc (wal_file (w\<lparr>w_mmap := mm\<rparr>)) GrowOk = Some (Inr w')" "wal_ok crc w' ps"
    "no_rec crc (w_mmap w') (w_write_pos w')" "w_mmap w' = mm @ replicate z 0"
    using open_ok [of crc "wal_file (w\<lparr>w_mmap := mm\<rparr>)" DEFAULT_INITIAL_SIZE]
    by (auto simp: wal_open_def wal_file_def simp flip: replicate_add)
  have "chain crc (w_mmap w') 0 (map command_bytes cs) off"
    using chain_frame [OF c(1), of "w_mmap w'"] w'(4) mm c(2) by simp
  moreover have "chain crc (w_mmap w') 0 ps (w_write_pos w')" using w'(2) by (simp add: wal_ok_def)
  ultimately obtain rs where rs: "ps = map command_bytes cs @ rs" "chain crc (w_mmap w') off rs (w_write_pos w')"
    using chain_maximal_extends w'(3) by blast
  have "rs = []" using rs(2) bad [of z] w'(4) by (cases rs) (auto simp: no_rec_def)
  then show ?thesis using w'(1,2) rs(1) by (auto simp: logs_def)
qed

lemma next_intact:
  assumes r: "is_rec crc (i_mmap it) (i_read_pos it) pl" and e: "i_read_pos it + record_size (length pl) \<le> i_end_pos it"
    and s: "i_start_record it \<le> i_current_record it"
  shows "next_record crc it = Some (Some (record_item (Suc (i_current_record it)) pl),
    it\<lparr>i_read_pos := i_read_pos it + record_size (length pl), i_current_record := Suc (i_current_record it)\<rparr>)"
  using is_rec_read [OF r] e s
  by (subst next_record.simps) (simp add: HEADER_SIZE_def record_item_def Let_def split: sum.split)

lemma order_length: "length (command_bytes (new_order_cmd d)) = 40" "loggable (new_order_cmd d)"
  by (simp_all add: new_order_cmd_def)

lemma order_records:
  assumes "logs crc w (map new_order_cmd ds)" and "i < length ds"
  shows "is_rec crc (w_mmap w) (48 * i) (command_bytes (new_order_cmd (ds ! i)))" and "w_write_pos w = 48 * length ds"
    and "48 * length ds \<le> length (w_mmap w)"
proof -
  have "chain crc mm p (map command_bytes (map new_order_cmd ds)) e \<Longrightarrow> i < length ds \<Longrightarrow>
      is_rec crc mm (p + 48 * i) (command_bytes (new_order_cmd (ds ! i)))" for mm p e and ds :: "u64 list" and i
  proof (induction ds arbitrary: p i)
    case (Cons d ds)
    then show ?case
      using Cons.IH [of "p + 48" "i - 1"] by (cases "i = 0") (simp_all add: order_length record_sizes nth_Cons' algebra_simps)
  qed simp
  from this [of "w_mmap w" 0 ds "w_write_pos w" i] assms
  show "is_rec crc (w_mmap w) (48 * i) (command_bytes (new_order_cmd (ds ! i)))" by (simp add: logs_def wal_ok_def)
  show pos: "w_write_pos w = 48 * length ds"
    using logs_pos [OF assms(1)] by (simp add: order_length record_sizes comp_def sum_list_triv)
  show "48 * length ds \<le> length (w_mmap w)" using wal_ok_pos [OF assms(1) [unfolded logs_def]] pos by simp
qed

section \<open>The tests pass\<close>

abbreviation orders_log :: "(u8 list \<Rightarrow> u32) \<Rightarrow> u64 list \<Rightarrow> wal" where
  "orders_log crc ds \<equiv> log_of crc DEFAULT_INITIAL_SIZE (map new_order_cmd ds)"

lemma orders_log_logs: "logs crc (orders_log crc ds) (map new_order_cmd ds)"
  using log_of_logs by blast

lemmas orders_log_records = order_records [OF orders_log_logs]

lemma append_orders:
  "append crc (orders_log crc ds) (new_order_cmd d) GrowOk = Some (Inr (Suc (length ds)), orders_log crc (ds @ [d]))"
  using log_of_append [of crc DEFAULT_INITIAL_SIZE "map new_order_cmd ds" "new_order_cmd d"] by simp

lemma open_orders: "wal_open crc [] GrowOk = Some (Inr (orders_log crc []))"
  by (simp add: first_open)

lemmas run_damage_test = open_unwrap_def append_unwrap_def unwrap_def unwrap_err_def check_def
  open_orders [simplified] append_orders [of _ "[]", simplified] append_orders [of _ "[_]", simplified]
  append_orders [of _ "[_, _]", simplified]

lemma flip_orders:
  "i < length (w_mmap w) \<Longrightarrow> flip_byte w i = Some (w\<lparr>w_mmap := (w_mmap w)[i := w_mmap w ! i XOR 0xFF]\<rparr>)"
  by (simp add: flip_byte_def)

lemma flipped: "(b :: u8) XOR 0xFF \<noteq> b"
proof
  assume "b XOR 0xFF = b"
  then have "b XOR (b XOR 0xFF) = b XOR b" by simp
  then show False by (simp flip: xor.assoc)
qed

lemma record_format_on_disk_passes: "record_format_on_disk crc = Some ()"
proof -
  let ?w = "orders_log crc [42]" and ?pl = "command_bytes (new_order_cmd 42)"
  have r: "is_rec crc (w_mmap ?w) 0 ?pl" using orders_log_records(1) [of 0 "[42]" crc] by simp
  have "hd ?pl = MSG_NEW_ORDER" by (simp add: new_order_cmd_def new_order_bytes_def)
  moreover have at: "take 40 (drop 8 (w_mmap ?w)) = ?pl"
    using is_rec_read(6) [OF r] by (simp add: slice_def order_length split: if_splits)
  have "take 40 (drop 8 (w_mmap ?w)) ! 0 = hd ?pl" unfolding at using is_rec_read(7) [OF r] by (simp add: hd_conv_nth)
  then have "w_mmap ?w ! 8 = hd ?pl" using is_rec_read(1,2) [OF r] by (simp add: order_length)
  ultimately show ?thesis
    using is_rec_read [OF r] orders_log_records(3) [of 0 "[42]" crc]
    by (simp add: record_format_on_disk_def run_damage_test order_length)
qed

lemma corrupt_crc_detected_passes: "corrupt_crc_detected crc = Some ()"
proof -
  let ?w = "orders_log crc [1, 2]"
  let ?mm = "(w_mmap ?w)[52 := w_mmap ?w ! 52 XOR 0xFF]"
  note rec = orders_log_records(1) [of 0 "[1, 2]" crc] orders_log_records(1) [of 1 "[1, 2]" crc]
    and pos = orders_log_records(2,3) [of 0 "[1, 2]" crc]
  let ?it = "iter_from (?w\<lparr>w_mmap := ?mm\<rparr>) 0"
  have "is_rec crc ?mm 0 (command_bytes (new_order_cmd 1))"
    using is_rec_frame [of crc "w_mmap ?w" 0 _ 48 ?mm] rec(1) pos by (simp add: order_length record_sizes)
  then have first: "next_record crc ?it = Some (Some (record_item 1 (command_bytes (new_order_cmd 1))),
      ?it\<lparr>i_read_pos := 48, i_current_record := 1\<rparr>)"
    using next_intact [of crc ?it "command_bytes (new_order_cmd 1)"] pos by (simp add: iter_from_def order_length record_sizes)
  have bad: "no_rec crc ?mm 48" using flipped_crc [OF rec(2), of 52 _ "[]"] flipped by simp
  have "u32_at ?mm 48 = Some 40"
    using same_field [of 48 ?mm "w_mmap ?w"] field_update [of 48 4 "w_mmap ?w" 52 _ "[]"] is_rec_read(3) [OF rec(2)] pos
    by (simp add: order_length)
  then have second: "next_record crc (?it\<lparr>i_read_pos := 48, i_current_record := 1\<rparr>) =
      Some (Some (Inl (Corruption 48)), ?it\<lparr>i_read_pos := 48, i_current_record := 1\<rparr>)"
    using next_damaged [of crc "?it\<lparr>i_read_pos := 48, i_current_record := 1\<rparr>" 40] bad pos
    by (simp add: iter_from_def record_sizes)
  show ?thesis
    using first second pos
    by (simp add: corrupt_crc_detected_def run_damage_test
      flip_orders next_unwrap_def record_item_def decode_command_bytes order_length)
qed

lemma corrupt_payload_detected_passes:
  assumes "pl = command_bytes (new_order_cmd 1)" and "crc (pl[5 := pl ! 5 XOR 0xFF]) \<noteq> crc pl"
  shows "corrupt_payload_detected crc = Some ()"
proof -
  let ?w = "orders_log crc [1]"
  let ?mm = "(w_mmap ?w)[13 := w_mmap ?w ! 13 XOR 0xFF]"
  note rec = orders_log_records(1) [of 0 "[1]" crc] and pos = orders_log_records(2,3) [of 0 "[1]" crc]
  have at: "take 40 (drop 8 (w_mmap ?w)) = pl"
    using is_rec_read(6) [OF rec] assms(1) by (simp add: slice_def order_length split: if_splits)
  have "take 40 (drop 8 (w_mmap ?w)) ! 5 = pl ! 5" unfolding at ..
  then have "w_mmap ?w ! 13 = pl ! 5" using pos(2) by simp
  then have bad: "no_rec crc ?mm 0"
    using flipped_payload [of crc "w_mmap ?w" 0 pl 5 "pl ! 5 XOR 0xFF" "[]"] rec assms by (simp add: order_length)
  have "u32_at ?mm 0 = Some 40"
    using same_field [of 0 ?mm "w_mmap ?w"] field_update [of 0 4 "w_mmap ?w" 13 _ "[]"] is_rec_read(3) [OF rec] pos
    by (simp add: order_length)
  then have "next_record crc (iter_from (?w\<lparr>w_mmap := ?mm\<rparr>) 0) = Some (Some (Inl (Corruption 0)), iter_from (?w\<lparr>w_mmap := ?mm\<rparr>) 0)"
    using next_damaged [of crc "iter_from (?w\<lparr>w_mmap := ?mm\<rparr>) 0" 40] bad pos by (simp add: iter_from_def record_sizes)
  then show ?thesis
    using pos by (simp add: corrupt_payload_detected_def run_damage_test flip_orders next_unwrap_def HEADER_SIZE_def)
qed

text \<open>A log that still fits has the mapping it was opened with.\<close>

lemma log_of_fits:
  assumes "w_write_pos (log_of crc n cs) + 48 \<le> length (w_mmap (log_of crc n cs))"
  shows "length (w_mmap (log_of crc n (cs @ [new_order_cmd d]))) = length (w_mmap (log_of crc n cs))"
proof -
  have ok: "wal_ok crc (log_of crc n cs) (map command_bytes cs)" using log_of_logs by (simp add: logs_def)
  obtain w' where "append crc (log_of crc n cs) (new_order_cmd d) GrowOk = Some (Inr (Suc (length cs)), w')"
    "w_mmap w' = splice (w_mmap (log_of crc n cs)) (w_write_pos (log_of crc n cs)) (record_bytes crc (command_bytes (new_order_cmd d)))"
    using append_in_place [OF ok, of "new_order_cmd d" GrowOk] assms by (auto simp: order_length record_sizes)
  then show ?thesis
    using assms log_of_append [of crc n cs "new_order_cmd d"] by (simp add: length_record_bytes order_length record_sizes)
qed

lemma orders_log_room: "length (w_mmap (orders_log crc [d1, d2])) = DEFAULT_INITIAL_SIZE"
proof -
  have "length (w_mmap (orders_log crc [])) = DEFAULT_INITIAL_SIZE"
    using log_of_mapped(1) [of crc DEFAULT_INITIAL_SIZE] log_of_logs [of crc DEFAULT_INITIAL_SIZE "[]"] by (simp add: logs_def wal_ok_def)
  then show ?thesis
    using log_of_fits [of crc DEFAULT_INITIAL_SIZE "[]" d1] log_of_fits [of crc DEFAULT_INITIAL_SIZE "[new_order_cmd d1]" d2]
      logs_pos [OF orders_log_logs [of crc "[]"]] logs_pos [OF orders_log_logs [of crc "[d1]"]]
    by (simp add: order_length record_sizes DEFAULT_INITIAL_SIZE_def)
qed

lemma reopen_detects_truncated_record_passes:
  assumes crc: "crc (replicate 40 0) \<noteq> 0"
  shows "reopen_detects_truncated_record crc = Some ()"
proof -
  let ?w = "orders_log crc [1, 2]"
  let ?mm = "splice (w_mmap ?w) 96 (to_le 4 (40 :: u32))"
  have pos: "w_write_pos ?w = 96" using orders_log_records(2) [of 0 "[1, 2]" crc] by simp
  have room: "100 \<le> length (w_mmap ?w)" unfolding orders_log_room by (simp add: DEFAULT_INITIAL_SIZE_def)
  have bad: "no_rec crc (?mm @ replicate m 0) 96" for m
  proof (rule header_alone [where n = 40])
    have "set (drop 100 (w_mmap ?w)) \<subseteq> {0}"
      using log_of_logs [of crc DEFAULT_INITIAL_SIZE "map new_order_cmd [1, 2]"] pos set_drop_subset_set_drop [of 96 100 "w_mmap ?w"]
      by (auto simp: clean_def)
    then show "\<forall>x \<in> set (drop (96 + 4) (?mm @ replicate m 0)). x = 0" using room by (auto simp: splice_def)
    show "take 4 (drop 96 (?mm @ replicate m 0)) = to_le 4 (of_nat 40 :: u32)" using room by (simp add: splice_def)
  qed (use crc in simp_all)
  obtain w' where w': "wal_open crc (wal_file (?w\<lparr>w_mmap := ?mm\<rparr>)) GrowOk = Some (Inr w')" "logs crc w' (map new_order_cmd [1, 2])"
    using reopen_damaged [of crc ?w "map new_order_cmd [1, 2]" "[]" 96 ?mm] orders_log_logs [of crc "[1, 2]"] bad room
    by (auto simp: order_length record_sizes take_splice)
  then show ?thesis
    using pos room logs_count [OF w'(2)] by (simp add: reopen_detects_truncated_record_def run_damage_test copy_into_def)
qed

lemma reopen_detects_corrupt_record_passes: "reopen_detects_corrupt_record crc = Some ()"
proof -
  let ?w = "orders_log crc [1, 2, 3]"
  let ?mm = "(w_mmap ?w)[52 := w_mmap ?w ! 52 XOR 0xFF]"
  note rec = orders_log_records(1) [of 1 "[1, 2, 3]" crc] and pos = orders_log_records(2,3) [of 0 "[1, 2, 3]" crc]
  have bad: "no_rec crc (?mm @ replicate m 0) 48" for m using flipped_crc [OF rec, of 52] flipped by simp
  obtain w' where w': "wal_open crc (wal_file (?w\<lparr>w_mmap := ?mm\<rparr>)) GrowOk = Some (Inr w')" "logs crc w' (map new_order_cmd [1])"
    using reopen_damaged [of crc ?w "map new_order_cmd [1]" "map new_order_cmd [2, 3]" 48 ?mm] orders_log_logs [of crc "[1, 2, 3]"] bad
    by (auto simp: order_length record_sizes)
  then show ?thesis
    using pos logs_count [OF w'(2)] order_records(2) [OF w'(2), of 0]
    by (simp add: reopen_detects_corrupt_record_def run_damage_test flip_orders)
qed

end
