(* ===== verification/Snapshot_Tests.thy ===== *)
theory Snapshot_Tests
  imports Store_Tests
begin

text \<open>
  The tests of \<open>src/src/snapshot.rs\<close> and those of \<open>src/src/recovery.rs\<close> that start from a snapshot, on the model.
  They are proved for every \<open>bincode\<close> that reads back what it wrote, and every checksum function; the
  tests on damaged data name what they need of the two functions there.
\<close>

section \<open>The vocabulary of the tests\<close>

definition snap_bid :: "u64 \<Rightarrow> i64 \<Rightarrow> u64 \<Rightarrow> order option" where
  "snap_bid d price qty = order_new d 1 Bid price qty d"

definition snap_ask :: "u64 \<Rightarrow> i64 \<Rightarrow> u64 \<Rightarrow> order option" where
  "snap_ask d price qty = order_new d 1 Ask price qty d"

fun add_each :: "matching_engine \<Rightarrow> order list \<Rightarrow> matching_engine option" where
  "add_each engine [] = Some engine"
| "add_each engine (ord # orders) = do {
     (_, engine) \<leftarrow> add_unwrap engine (Some ord);
     add_each engine orders
   }"

definition engine_with_orders :: "order list \<Rightarrow> matching_engine option" where
  "engine_with_orders orders = add_each (engine_with_capacity 1024) orders"

text \<open>\<open>path.exists()\<close>, \<open>str::contains\<close> and \<open>fs::write\<close>. The temporary directory exists and is empty.\<close>

fun file_exists :: "directory option \<Rightarrow> string \<Rightarrow> bool" where
  "file_exists None path = False"
| "file_exists (Some d) path = (hm_get d path \<noteq> None)"

fun contains :: "string \<Rightarrow> string \<Rightarrow> bool" where
  "contains [] t = (t = [])"
| "contains (x # s) t = (starts_with (x # s) t \<or> contains s t)"

fun write_file :: "directory option \<Rightarrow> string \<Rightarrow> u8 list \<Rightarrow> directory option option" where
  "write_file None path data = None"
| "write_file (Some d) path data = Some (Some (hm_insert d path data))"

text \<open>\<open>b"garbage data"\<close>.\<close>

definition garbage_data :: "u8 list" where
  "garbage_data = [103, 97, 114, 98, 97, 103, 101, 32, 100, 97, 116, 97]"

section \<open>Tests of snapshots\<close>

definition capture_empty_book :: "codecs \<Rightarrow> unit option" where
  "capture_empty_book k = do {
     let engine = engine_with_capacity 64;
     snap \<leftarrow> capture k engine 0;
     check (sn_wal_record_count snap = 0);
     check (sn_orders snap = []);
     check (sn_best_bid snap = None);
     check (sn_best_ask snap = None);
     unwrap (verify_checksum k snap)
   }"

definition capture_with_orders :: "codecs \<Rightarrow> unit option" where
  "capture_with_orders k = do {
     o1 \<leftarrow> snap_bid 1 (I64 100) 10;
     o2 \<leftarrow> snap_ask 2 (I64 110) 20;
     engine \<leftarrow> engine_with_orders [o1, o2];
     snap \<leftarrow> capture k engine 5;
     check (sn_wal_record_count snap = 5);
     check (length (sn_orders snap) = 2);
     check (sn_best_bid snap = Some (I64 100));
     check (sn_best_ask snap = Some (I64 110));
     unwrap (verify_checksum k snap)
   }"

definition restore_produces_identical_book :: "codecs \<Rightarrow> unit option" where
  "restore_produces_identical_book k = do {
     o1 \<leftarrow> snap_bid 1 (I64 100) 10;
     o2 \<leftarrow> snap_ask 2 (I64 110) 20;
     o3 \<leftarrow> snap_bid 3 (I64 98) 30;
     engine \<leftarrow> engine_with_orders [o1, o2, o3];
     snap \<leftarrow> capture k engine 10;
     r \<leftarrow> restore snap 1024;
     restored \<leftarrow> unwrap r;
     check (order_count (e_book restored) = 3);
     check (best_bid (e_book restored) = Some (I64 100));
     check (best_ask (e_book restored) = Some (I64 110));
     restored_orders \<leftarrow> all_resting_orders (e_book restored);
     check (length restored_orders = length (sn_orders snap));
     check (list_all2 same_order (sn_orders snap) restored_orders)
   }"

definition snapshot_restore_then_match :: "codecs \<Rightarrow> unit option" where
  "snapshot_restore_then_match k = do {
     o1 \<leftarrow> snap_ask 1 (I64 100) 10;
     engine \<leftarrow> engine_with_orders [o1];
     snap \<leftarrow> capture k engine 1;
     r \<leftarrow> restore snap 1024;
     restored \<leftarrow> unwrap r;
     (result, restored) \<leftarrow> add_unwrap restored (order_new 2 2 Bid (I64 100) 10 2);
     check (length (r_fills result) = 1);
     check_fill result 0 (\<lambda>f. f_maker_order_id f = 1)
   }"

definition load_latest_empty_dir :: "codecs \<Rightarrow> unit option" where
  "load_latest_empty_dir k = do {
     let dir = Some [];
     loaded \<leftarrow> unwrap (load_latest k True (\<lambda>_. True) dir);
     check (Option.is_none loaded)
   }"

definition load_latest_nonexistent_dir :: "codecs \<Rightarrow> unit option" where
  "load_latest_nonexistent_dir k = do {
     loaded \<leftarrow> unwrap (load_latest k True (\<lambda>_. True) None);
     check (Option.is_none loaded)
   }"

definition save_load_roundtrip :: "codecs \<Rightarrow> unit option" where
  "save_load_roundtrip k = do {
     let dir = Some [];
     o1 \<leftarrow> snap_bid 1 (I64 100) 10;
     o2 \<leftarrow> snap_ask 2 (I64 110) 20;
     o3 \<leftarrow> snap_bid 3 (I64 98) 30;
     engine \<leftarrow> engine_with_orders [o1, o2, o3];
     snap \<leftarrow> capture k engine 42;
     let (r, dir) = save k snap dir SaveOk;
     path \<leftarrow> unwrap r;
     check (file_exists dir path);
     check (contains path ''0000000042'');
     latest \<leftarrow> unwrap (load_latest k True (\<lambda>_. True) dir);
     loaded \<leftarrow> latest;
     check (sn_wal_record_count loaded = 42);
     check (length (sn_orders loaded) = 3);
     check (sn_best_bid loaded = Some (I64 100));
     check (sn_best_ask loaded = Some (I64 110));
     unwrap (verify_checksum k loaded)
   }"

definition load_latest_picks_newest :: "codecs \<Rightarrow> unit option" where
  "load_latest_picks_newest k = do {
     let dir = Some [];
     o1 \<leftarrow> snap_bid 1 (I64 100) 10;
     engine1 \<leftarrow> engine_with_orders [o1];
     snap \<leftarrow> capture k engine1 10;
     let (r, dir) = save k snap dir SaveOk;
     path \<leftarrow> unwrap r;
     o1 \<leftarrow> snap_bid 1 (I64 100) 10;
     o2 \<leftarrow> snap_ask 2 (I64 110) 20;
     engine2 \<leftarrow> engine_with_orders [o1, o2];
     snap \<leftarrow> capture k engine2 20;
     let (r, dir) = save k snap dir SaveOk;
     path \<leftarrow> unwrap r;
     latest \<leftarrow> unwrap (load_latest k True (\<lambda>_. True) dir);
     loaded \<leftarrow> latest;
     check (sn_wal_record_count loaded = 20);
     check (length (sn_orders loaded) = 2)
   }"

definition checksum_detects_corruption :: "codecs \<Rightarrow> unit option" where
  "checksum_detects_corruption k = do {
     o1 \<leftarrow> snap_bid 1 (I64 100) 10;
     engine \<leftarrow> engine_with_orders [o1];
     snap \<leftarrow> capture k engine 1;
     unwrap (verify_checksum k snap);
     orders \<leftarrow> vec_update (sn_orders snap) 0 (\<lambda>x. x\<lparr>o_quantity := 999\<rparr>);
     let snap = snap\<lparr>sn_orders := orders\<rparr>;
     check (isl (verify_checksum k snap))
   }"

definition load_latest_skips_corrupt_file :: "codecs \<Rightarrow> unit option" where
  "load_latest_skips_corrupt_file k = do {
     let dir = Some [];
     o1 \<leftarrow> snap_bid 1 (I64 100) 10;
     engine \<leftarrow> engine_with_orders [o1];
     snap \<leftarrow> capture k engine 10;
     let (r, dir) = save k snap dir SaveOk;
     path \<leftarrow> unwrap r;
     dir \<leftarrow> write_file dir ''snapshot_0000000020.bin'' garbage_data;
     latest \<leftarrow> unwrap (load_latest k True (\<lambda>_. True) dir);
     loaded \<leftarrow> latest;
     check (sn_wal_record_count loaded = 10)
   }"

section \<open>Tests of recovery from a snapshot\<close>

definition snapshot_only_recovery :: "codecs \<Rightarrow> unit option" where
  "snapshot_only_recovery k = do {
     let engine = test_engine;
     (_, engine) \<leftarrow> add_unwrap engine (rec_bid 1 (I64 100) 10);
     (_, engine) \<leftarrow> add_unwrap engine (rec_ask 2 (I64 110) 20);
     snap \<leftarrow> capture k engine 2;
     let (r, snap_dir) = save k snap None SaveOk;
     path \<leftarrow> unwrap r;
     (recovered, wal) \<leftarrow> recover_unwrap k \<lparr>d_wal = None, d_snapshots = snap_dir\<rparr>;
     check (order_count (e_book recovered) = 2);
     check (best_bid (e_book recovered) = Some (I64 100));
     check (best_ask (e_book recovered) = Some (I64 110));
     check (w_record_count wal = 0)
   }"

definition snapshot_plus_wal_recovery :: "codecs \<Rightarrow> unit option" where
  "snapshot_plus_wal_recovery k = do {
     let engine = test_engine;
     (_, engine) \<leftarrow> add_unwrap engine (rec_bid 1 (I64 100) 10);
     (_, engine) \<leftarrow> add_unwrap engine (rec_ask 2 (I64 110) 20);
     snap \<leftarrow> capture k engine 2;
     let (r, snap_dir) = save k snap None SaveOk;
     path \<leftarrow> unwrap r;
     let crc = crc_hash k;
     wal \<leftarrow> open_unwrap crc [];
     ord \<leftarrow> rec_bid 1 (I64 100) 10;
     (_, wal) \<leftarrow> append_unwrap crc wal (NewOrder ord);
     ord \<leftarrow> rec_ask 2 (I64 110) 20;
     (_, wal) \<leftarrow> append_unwrap crc wal (NewOrder ord);
     ord \<leftarrow> rec_bid 3 (I64 98) 30;
     (_, wal) \<leftarrow> append_unwrap crc wal (NewOrder ord);
     (recovered, wal) \<leftarrow> recover_unwrap k \<lparr>d_wal = Some (wal_file wal), d_snapshots = snap_dir\<rparr>;
     check (order_count (e_book recovered) = 3);
     check (best_bid (e_book recovered) = Some (I64 100));
     check (w_record_count wal = 3)
   }"

definition recovery_matches_full_replay :: "codecs \<Rightarrow> unit option" where
  "recovery_matches_full_replay k = do {
     o1 \<leftarrow> rec_bid 1 (I64 100) 10;
     o2 \<leftarrow> rec_ask 2 (I64 110) 20;
     o3 \<leftarrow> rec_bid 3 (I64 98) 30;
     o4 \<leftarrow> rec_ask 4 (I64 105) 15;
     full_engine \<leftarrow> engine_with_orders [o1, o2, o3, o4];
     partial \<leftarrow> engine_with_orders [o1, o2];
     snap \<leftarrow> capture k partial 2;
     let (r, snap_dir) = save k snap None SaveOk;
     path \<leftarrow> unwrap r;
     let crc = crc_hash k;
     wal \<leftarrow> open_unwrap crc [];
     wal \<leftarrow> append_each crc wal (map NewOrder [o1, o2, o3, o4]);
     (recovered, wal) \<leftarrow> recover_unwrap k \<lparr>d_wal = Some (wal_file wal), d_snapshots = snap_dir\<rparr>;
     full_orders \<leftarrow> all_resting_orders (e_book full_engine);
     recovered_orders \<leftarrow> all_resting_orders (e_book recovered);
     check (length full_orders = length recovered_orders);
     check (list_all2 same_order full_orders recovered_orders)
   }"

section \<open>Snapshots of an engine known by its orders\<close>

text \<open>\<open>bincode\<close> serializes every snapshot and reads back what it wrote.\<close>

definition bincode_works :: "codecs \<Rightarrow> bool" where
  "bincode_works k \<longleftrightarrow> (\<forall>s. \<exists>data. bin_serialize k s = Some data \<and> bin_deserialize k data = Some s)"

definition data_of :: "codecs \<Rightarrow> snapshot \<Rightarrow> u8 list" where
  "data_of k s = the (bin_serialize k s)"

lemma data_of_works:
  assumes "bincode_works k"
  shows "bin_serialize k s = Some (data_of k s)" and "bin_deserialize k (data_of k s) = Some s"
  using assms by (auto simp: bincode_works_def data_of_def dest: spec [of _ s])

lemma start_1024: "engine_with_capacity 1024 = test_engine"
  by (simp add: test_engine_def TEST_CAPACITY_def)

lemma sound_capture:
  "sound e \<Longrightarrow> capture k e n = Some \<lparr>sn_wal_record_count = n, sn_orders = resting (view e),
     sn_best_bid = best_price (view e Bid), sn_best_ask = best_price (view e Ask),
     sn_checksum = compute_checksum k (resting (view e))\<rparr>"
  by (rule capture_spec) (simp add: sound_def)

lemma capture_new:
  "capture k (engine_with_capacity c) n = Some \<lparr>sn_wal_record_count = n, sn_orders = [], sn_best_bid = None,
     sn_best_ask = None, sn_checksum = compute_checksum k []\<rparr>"
  using capture_spec [OF engine_new_represents(1), of k c n] by (simp add: resting_def best_price_def)

lemma sound_restored:
  "distinct (map o_id (sn_orders snap)) \<Longrightarrow> length (sn_orders snap) \<le> 1024 \<Longrightarrow>
     restore snap 1024 = Some (Inr (after_restore (sn_orders snap)))"
  using sound_restore(1) [of "sn_orders snap"] by (simp add: restore_def TEST_CAPACITY_def)

text \<open>The names of the files the tests write.\<close>

lemma filenames:
  "snapshot_filename 2 = ''snapshot_0000000002.bin''" "snapshot_filename 10 = ''snapshot_0000000010.bin''"
  "snapshot_filename 20 = ''snapshot_0000000020.bin''" "snapshot_filename 42 = ''snapshot_0000000042.bin''"
  by (code_simp, code_simp, code_simp, code_simp)

lemma tmp_differs: "snapshot_filename n \<noteq> snapshot_filename m @ ''.tmp''"
  by (metis filename_is_snapshot tmp_is_not_snapshot)

text \<open>A save into a directory that has at most one other snapshot, and what the newest readable one is.\<close>

lemma save_first:
  assumes "bincode_works k" and "dir = None \<or> dir = Some []"
  shows "save k s dir SaveOk =
    (Inr (snapshot_filename (sn_wal_record_count s)), Some [(snapshot_filename (sn_wal_record_count s), data_of k s)])"
  using assms(2) data_of_works(1) [OF assms(1), of s] by (auto simp: save_def Let_def hm_insert_def hm_remove_def)

lemma save_second:
  assumes "bincode_works k" and "sn_wal_record_count s = n" and "snapshot_filename m \<noteq> snapshot_filename n"
  shows "save k s (Some [(snapshot_filename m, x)]) SaveOk =
    (Inr (snapshot_filename n), Some [(snapshot_filename m, x), (snapshot_filename n, data_of k s)])"
  using assms(2,3) data_of_works(1) [OF assms(1), of s] tmp_differs [of m n]
  by (auto simp: save_def Let_def hm_insert_def hm_remove_def)

definition intact :: "codecs \<Rightarrow> snapshot \<Rightarrow> bool" where
  "intact k s \<longleftrightarrow> sn_checksum s = compute_checksum k (sn_orders s)"

lemma load_one:
  assumes "bincode_works k" and "intact k s"
  shows "load_latest k True (\<lambda>_. True) (Some [(snapshot_filename n, data_of k s)]) = Inr (Some s)"
  using data_of_works(2) [OF assms(1), of s] assms(2)
  by (simp add: load_latest_def hm_keys_def filename_is_snapshot load_from_file_def hm_get_def verify_checksum_def intact_def)

lemma load_two:
  assumes "m < n" and "n < 10 ^ 10"
  shows "load_latest k True (\<lambda>_. True) (Some [(snapshot_filename m, x), (snapshot_filename n, y)]) =
    Inr (load_loop k (\<lambda>_. True) [(snapshot_filename m, x), (snapshot_filename n, y)] [snapshot_filename n, snapshot_filename m])"
proof -
  have "snapshot_filename m < snapshot_filename n" using assms by (simp add: filename_less)
  then show ?thesis by (simp add: load_latest_def hm_keys_def filename_is_snapshot less_imp_le)
qed

lemma load_newest:
  assumes "bincode_works k" and "intact k s" and "m < n" and "n < 10 ^ 10"
  shows "load_latest k True (\<lambda>_. True) (Some [(snapshot_filename m, x), (snapshot_filename n, data_of k s)]) = Inr (Some s)"
  using data_of_works(2) [OF assms(1), of s] assms(2) filename_less [of m n] assms(3,4)
  by (auto simp: load_two load_from_file_def hm_get_def verify_checksum_def intact_def)

lemma load_skips_unreadable:
  assumes "bincode_works k" and "intact k s" and "m < n" and "n < 10 ^ 10" and "bin_deserialize k y = None"
  shows "load_latest k True (\<lambda>_. True) (Some [(snapshot_filename m, data_of k s), (snapshot_filename n, y)]) = Inr (Some s)"
  using data_of_works(2) [OF assms(1), of s] assms(2,5) filename_less [of m n] assms(3,4)
  by (auto simp: load_two load_from_file_def hm_get_def verify_checksum_def intact_def)

lemmas run_snapshot_test = run_test start_1024 sound_capture engine_with_orders_def snap_bid_def snap_ask_def
  verify_checksum_def

lemmas run_restored = run_test sound_restored sound_orders same_order_def

lemma capture_empty_book_passes: "capture_empty_book k = Some ()"
  by (simp add: capture_empty_book_def capture_new unwrap_def check_def verify_checksum_def)

lemma capture_with_orders_passes: "capture_with_orders k = Some ()"
  by (simp add: capture_with_orders_def run_snapshot_test)

lemma restore_produces_identical_book_passes: "restore_produces_identical_book k = Some ()"
  by (simp add: restore_produces_identical_book_def run_snapshot_test) (simp add: run_restored)

lemma snapshot_restore_then_match_passes: "snapshot_restore_then_match k = Some ()"
  by (simp add: snapshot_restore_then_match_def run_snapshot_test) (simp add: run_restored)

lemma load_latest_empty_dir_passes: "load_latest_empty_dir k = Some ()"
  by (simp add: load_latest_empty_dir_def load_latest_def hm_keys_def unwrap_def check_def)

lemma load_latest_nonexistent_dir_passes: "load_latest_nonexistent_dir k = Some ()"
  by (simp add: load_latest_nonexistent_dir_def load_latest_def unwrap_def check_def)

lemma snapshot_names_differ: "snapshot_filename 10 \<noteq> snapshot_filename 20"
  by (simp add: filenames)

lemma name_contains: "contains (snapshot_filename 42) ''0000000042''"
  by code_simp

lemma save_load_roundtrip_passes: "bincode_works k \<Longrightarrow> save_load_roundtrip k = Some ()"
  by (simp add: save_load_roundtrip_def run_snapshot_test save_first load_one intact_def hm_get_def name_contains)

lemma load_latest_picks_newest_passes: "bincode_works k \<Longrightarrow> load_latest_picks_newest k = Some ()"
  by (simp add: load_latest_picks_newest_def run_snapshot_test save_first save_second snapshot_names_differ
    load_newest intact_def)

text \<open>The damaged order must change the checksum: this is what the test asserts of the two packages.\<close>

lemma checksum_detects_corruption_passes:
  assumes "ord = \<lparr>o_id = 1, o_trader_id = 1, o_side = Bid, o_price = I64 100, o_quantity = 10, o_timestamp = 1\<rparr>"
    and "compute_checksum k [ord\<lparr>o_quantity := 999\<rparr>] \<noteq> compute_checksum k [ord]"
  shows "checksum_detects_corruption k = Some ()"
  using assms by (auto simp: checksum_detects_corruption_def run_snapshot_test)

lemma load_latest_skips_corrupt_file_passes:
  assumes "bincode_works k" and "bin_deserialize k garbage_data = None"
  shows "load_latest_skips_corrupt_file k = Some ()"
  using assms snapshot_names_differ
  by (simp add: load_latest_skips_corrupt_file_def run_snapshot_test save_first filenames(3) [symmetric] hm_insert_def
    load_skips_unreadable intact_def)

section \<open>Recovery from a snapshot and a log known by its commands\<close>

text \<open>What recovery returns from the file of one snapshot and a log, and the two cases of a log: none, and one of known commands.\<close>

definition recovered_from :: "codecs \<Rightarrow> snapshot \<Rightarrow> u8 list option \<Rightarrow> matching_engine" where
  "recovered_from k s log = fst (projr (the (recover k
     \<lparr>d_wal = log, d_snapshots = Some [(snapshot_filename (sn_wal_record_count s), data_of k s)]\<rparr> 1024 test_io)))"

lemma recover_from_snapshot:
  assumes k: "bincode_works k" "intact k s" and os: "distinct (map o_id (sn_orders s))" "length (sn_orders s) \<le> 1024"
    and w: "wal_open (crc_hash k) (case log of None \<Rightarrow> [] | Some f \<Rightarrow> f) GrowOk = Some (Inr w)" "logs (crc_hash k) w cs"
    and good: "\<forall>c \<in> set cs. loggable c"
  shows "recover k \<lparr>d_wal = log, d_snapshots = Some [(snapshot_filename (sn_wal_record_count s), data_of k s)]\<rparr> 1024 test_io =
      Some (Inr (recovered_from k s log, w))"
    and "sound (recovered_from k s log)"
    and "view (recovered_from k s log) =
      a_run 1024 (foldl rest_order (\<lambda>_. []) (sn_orders s)) (map strip_time (drop (sn_wal_record_count s) cs))"
proof -
  let ?e = "after_restore (sn_orders s)" and ?n = "sn_wal_record_count s"
  have e: "represents (e_book ?e) (foldl rest_order (\<lambda>_. []) (sn_orders s))" "capacity_of (e_book ?e) = 1024"
    using sound_restore(2,3) [OF os] by (simp_all add: sound_def)
  obtain e' where e': "replay_loop (crc_hash k) (iter_from w ?n) ?e w ?n = Some (Inr (e', w))"
    "represents (e_book e') (a_run 1024 (foldl rest_order (\<lambda>_. []) (sn_orders s)) (map strip_time (drop ?n cs)))"
    "capacity_of (e_book e') = 1024"
    using replay_from [OF w(2) good e, of ?n] by blast
  have "recover k \<lparr>d_wal = log, d_snapshots = Some [(snapshot_filename ?n, data_of k s)]\<rparr> 1024 test_io = Some (Inr (e', w))"
    using e'(1) w(1) load_one [OF k] sound_restored [OF os] by (simp add: recover_def test_io_def)
  moreover from this have "recovered_from k s log = e'" by (simp add: recovered_from_def)
  ultimately show "recover k \<lparr>d_wal = log, d_snapshots = Some [(snapshot_filename ?n, data_of k s)]\<rparr> 1024 test_io =
      Some (Inr (recovered_from k s log, w))"
    and "sound (recovered_from k s log)"
    and "view (recovered_from k s log) =
      a_run 1024 (foldl rest_order (\<lambda>_. []) (sn_orders s)) (map strip_time (drop ?n cs))"
    using soundI [OF e'(2,3)] by simp_all
qed

lemma recovered_snapshot:
  assumes "bincode_works k" and "intact k s" and "distinct (map o_id (sn_orders s))" and "length (sn_orders s) \<le> 1024"
    and "sn_wal_record_count s = n"
  shows "recover k \<lparr>d_wal = None, d_snapshots = Some [(snapshot_filename n, data_of k s)]\<rparr> 1024 test_io =
      Some (Inr (recovered_from k s None, log_of (crc_hash k) DEFAULT_INITIAL_SIZE []))"
    and "sound (recovered_from k s None)" and "view (recovered_from k s None) = foldl rest_order (\<lambda>_. []) (sn_orders s)"
  using recover_from_snapshot [OF assms(1-4), of None "log_of (crc_hash k) DEFAULT_INITIAL_SIZE []" "[]"]
    assms(5) first_open log_of_logs [of "crc_hash k" DEFAULT_INITIAL_SIZE "[]"] by auto

lemma recovered_snapshot_log:
  fixes cs :: "engine_command list"
  defines "log \<equiv> \<lambda>k. wal_file (log_of (crc_hash k) DEFAULT_INITIAL_SIZE cs)"
  assumes "bincode_works k" and "intact k s" and "distinct (map o_id (sn_orders s))" and "length (sn_orders s) \<le> 1024"
    and "\<forall>c \<in> set cs. loggable c" and "sn_wal_record_count s = n"
  shows "recover k \<lparr>d_wal = Some (log k), d_snapshots = Some [(snapshot_filename n, data_of k s)]\<rparr> 1024 test_io =
      Some (Inr (recovered_from k s (Some (log k)), reopened (crc_hash k) DEFAULT_INITIAL_SIZE cs))"
    and "sound (recovered_from k s (Some (log k)))"
    and "view (recovered_from k s (Some (log k))) =
      a_run 1024 (foldl rest_order (\<lambda>_. []) (sn_orders s)) (map strip_time (drop n cs))"
  using recover_from_snapshot [OF assms(2-5), of "Some (log k)" _ cs] assms(6,7) reopened_open [of "crc_hash k" DEFAULT_INITIAL_SIZE cs]
  by (auto simp: log_def)

lemmas run_snapshot_recovery = run_log_test run_recovery_test run_snapshot_test save_first intact_def

lemma snapshot_only_recovery_passes: "bincode_works k \<Longrightarrow> snapshot_only_recovery k = Some ()"
  by (simp add: snapshot_only_recovery_def run_snapshot_recovery) (simp add: run_snapshot_recovery recovered_snapshot)

lemma snapshot_plus_wal_recovery_passes: "bincode_works k \<Longrightarrow> snapshot_plus_wal_recovery k = Some ()"
  by (simp add: snapshot_plus_wal_recovery_def run_snapshot_recovery) (simp add: run_snapshot_recovery recovered_snapshot_log)

lemma recovery_matches_full_replay_passes: "bincode_works k \<Longrightarrow> recovery_matches_full_replay k = Some ()"
  by (simp add: recovery_matches_full_replay_def run_snapshot_recovery) (simp add: run_snapshot_recovery recovered_snapshot_log)

end
