(* ===== verification/Wire_Tests.thy ===== *)
theory Wire_Tests
  imports Protocol Ring Testing
begin

text \<open>
  The test modules of \<open>src/src/order.rs\<close> and \<open>src/src/protocol.rs\<close>, and the tests of \<open>src/src/ring.rs\<close> that run
  in one thread, on the model. Each is evaluated in the kernel.
\<close>

section \<open>Orders\<close>

definition create_bid_order :: "unit option" where
  "create_bid_order = do {
     ord \<leftarrow> order_new 1 1 Bid (I64 15005) 100 1000000;
     check (o_id ord = 1);
     check (o_trader_id ord = 1);
     check (o_side ord = Bid);
     check (o_price ord = I64 15005);
     check (o_quantity ord = 100);
     check (o_timestamp ord = 1000000)
   }"

definition create_ask_order :: "unit option" where
  "create_ask_order = do {
     ord \<leftarrow> order_new 2 1 Ask (I64 15010) 50 2000000;
     check (o_side ord = Ask);
     check (o_quantity ord = 50)
   }"

definition reject_zero_quantity :: "unit option" where
  "reject_zero_quantity = check (order_new 1 1 Bid (I64 15005) 0 1000000 = None)"

definition negative_price_allowed :: "unit option" where
  "negative_price_allowed = check (order_new 1 1 Bid (I64 (- 100)) 10 0 \<noteq> None)"

section \<open>Messages\<close>

definition roundtrip_new_order_bid :: "unit option" where
  "roundtrip_new_order_bid = do {
     let ord = \<lparr>o_id = 42, o_trader_id = 7, o_side = Bid, o_price = I64 (15005), o_quantity = 100, o_timestamp = 0\<rparr>;
     let (r, buf) = encode_new_order (replicate NEW_ORDER_SIZE 0) ord;
     unwrap r;
     decoded \<leftarrow> unwrap (decode_new_order buf);
     check (o_id decoded = 42);
     check (o_trader_id decoded = 7);
     check (o_side decoded = Bid);
     check (o_price decoded = I64 15005);
     check (o_quantity decoded = 100);
     check (o_timestamp decoded = 0)
   }"

definition roundtrip_new_order_ask :: "unit option" where
  "roundtrip_new_order_ask = do {
     let ord = \<lparr>o_id = 99, o_trader_id = 3, o_side = Ask, o_price = I64 (- 500), o_quantity = 1, o_timestamp = 0\<rparr>;
     let (r, buf) = encode_new_order (replicate NEW_ORDER_SIZE 0) ord;
     unwrap r;
     decoded \<leftarrow> unwrap (decode_new_order buf);
     check (o_side decoded = Ask);
     check (o_price decoded = I64 (- 500))
   }"

definition roundtrip_cancel_order :: "unit option" where
  "roundtrip_cancel_order = do {
     let (r, buf) = encode_cancel_order (replicate CANCEL_ORDER_SIZE 0) 12345;
     unwrap r;
     b \<leftarrow> vec_get buf 0;
     check (b = MSG_CANCEL_ORDER);
     order_id \<leftarrow> unwrap (decode_cancel_order buf);
     check (order_id = 12345)
   }"

definition roundtrip_execution_report :: "unit option" where
  "roundtrip_execution_report = do {
     let f = \<lparr>f_taker_order_id = 10, f_maker_order_id = 20, f_price = I64 9999, f_quantity = 50, f_maker_fully_filled = True\<rparr>;
     let (r, buf) = encode_execution_report (replicate EXECUTION_REPORT_SIZE 0) 1 f 123456789;
     unwrap r;
     report \<leftarrow> unwrap (decode_execution_report buf);
     check (x_seq_num report = 1);
     check (x_taker_order_id report = 10);
     check (x_maker_order_id report = 20);
     check (x_price report = I64 9999);
     check (x_quantity report = 50);
     check (x_timestamp report = 123456789)
   }"

definition side_mapping_bid_is_zero_ask_is_one :: "unit option" where
  "side_mapping_bid_is_zero_ask_is_one = do {
     check (encode_side Bid = 0);
     check (encode_side Ask = 1);
     s \<leftarrow> unwrap (decode_side 0);
     check (s = Bid);
     s \<leftarrow> unwrap (decode_side 1);
     check (s = Ask)
   }"

definition new_order_buffer_too_short :: "unit option" where
  "new_order_buffer_too_short = check (decode_new_order (replicate (NEW_ORDER_SIZE - 1) 0) = Inl BufferTooShort)"

definition cancel_order_buffer_too_short :: "unit option" where
  "cancel_order_buffer_too_short = check (decode_cancel_order (replicate (CANCEL_ORDER_SIZE - 1) 0) = Inl BufferTooShort)"

definition execution_report_buffer_too_short :: "unit option" where
  "execution_report_buffer_too_short = check (decode_execution_report (replicate (EXECUTION_REPORT_SIZE - 1) 0) = Inl BufferTooShort)"

definition unknown_message_type :: "unit option" where
  "unknown_message_type = check (decode_message (replicate NEW_ORDER_SIZE 255) = Inl (UnknownMessageType 255))"

definition invalid_side :: "unit option" where
  "invalid_side = do {
     let buf = replicate NEW_ORDER_SIZE 0;
     buf \<leftarrow> vec_set buf 0 MSG_NEW_ORDER;
     buf \<leftarrow> vec_set buf 1 2;
     buf \<leftarrow> copy_into buf 32 (to_le 8 (100 :: u64));
     check (decode_new_order buf = Inl (InvalidSide 2))
   }"

definition zero_quantity_message_rejected :: "unit option" where
  "zero_quantity_message_rejected = do {
     let buf = replicate NEW_ORDER_SIZE 0;
     buf \<leftarrow> vec_set buf 0 MSG_NEW_ORDER;
     buf \<leftarrow> vec_set buf 1 0;
     check (decode_new_order buf = Inl ZeroQuantityMsg)
   }"

definition encode_new_order_buffer_too_short :: "unit option" where
  "encode_new_order_buffer_too_short = do {
     let ord = \<lparr>o_id = 1, o_trader_id = 1, o_side = Bid, o_price = I64 (100), o_quantity = 10, o_timestamp = 0\<rparr>;
     check (fst (encode_new_order (replicate (NEW_ORDER_SIZE - 1) 0) ord) = Inl BufferTooShort)
   }"

definition encode_execution_report_buffer_too_short :: "unit option" where
  "encode_execution_report_buffer_too_short = do {
     let f = \<lparr>f_taker_order_id = 1, f_maker_order_id = 2, f_price = I64 100, f_quantity = 10, f_maker_fully_filled = True\<rparr>;
     check (fst (encode_execution_report (replicate (EXECUTION_REPORT_SIZE - 1) 0) 1 f 0) = Inl BufferTooShort)
   }"

definition decode_message_dispatches_new_order :: "unit option" where
  "decode_message_dispatches_new_order = do {
     let ord = \<lparr>o_id = 5, o_trader_id = 3, o_side = Ask, o_price = I64 (200), o_quantity = 50, o_timestamp = 0\<rparr>;
     let (r, buf) = encode_new_order (replicate NEW_ORDER_SIZE 0) ord;
     unwrap r;
     cmd \<leftarrow> unwrap (decode_message buf);
     (case cmd of
        NewOrder ord \<Rightarrow> do {
          check (o_id ord = 5);
          check (o_side ord = Ask)
        }
      | _ \<Rightarrow> None)
   }"

definition decode_message_dispatches_cancel :: "unit option" where
  "decode_message_dispatches_cancel = do {
     let (r, buf) = encode_cancel_order (replicate CANCEL_ORDER_SIZE 0) 999;
     unwrap r;
     cmd \<leftarrow> unwrap (decode_message buf);
     check (cmd = CancelOrder 999)
   }"

definition negative_price_roundtrips :: "unit option" where
  "negative_price_roundtrips = do {
     let ord = \<lparr>o_id = 1, o_trader_id = 1, o_side = Bid, o_price = I64 (2 ^ 63), o_quantity = 1, o_timestamp = 0\<rparr>;
     let (r, buf) = encode_new_order (replicate NEW_ORDER_SIZE 0) ord;
     unwrap r;
     decoded \<leftarrow> unwrap (decode_new_order buf);
     check (o_price decoded = I64 (2 ^ 63))
   }"

definition max_values_roundtrip :: "unit option" where
  "max_values_roundtrip = do {
     let ord = \<lparr>o_id = - 1, o_trader_id = - 1, o_side = Ask, o_price = I64 (2 ^ 63 - 1), o_quantity = - 1, o_timestamp = 0\<rparr>;
     let (r, buf) = encode_new_order (replicate NEW_ORDER_SIZE 0) ord;
     unwrap r;
     decoded \<leftarrow> unwrap (decode_new_order buf);
     check (o_id decoded = - 1);
     check (o_trader_id decoded = - 1);
     check (o_price decoded = I64 (2 ^ 63 - 1));
     check (o_quantity decoded = - 1)
   }"

definition reserved_bytes_ignored :: "unit option" where
  "reserved_bytes_ignored = do {
     let ord = \<lparr>o_id = 1, o_trader_id = 1, o_side = Bid, o_price = I64 (100), o_quantity = 10, o_timestamp = 0\<rparr>;
     let (r, buf) = encode_new_order (replicate NEW_ORDER_SIZE 0) ord;
     unwrap r;
     buf \<leftarrow> copy_into buf 2 (replicate 6 255);
     decoded \<leftarrow> unwrap (decode_new_order buf);
     check (o_id decoded = 1);
     check (o_quantity decoded = 10)
   }"

definition message_size_lookup :: "unit option" where
  "message_size_lookup = do {
     n \<leftarrow> unwrap (message_size MSG_NEW_ORDER);
     check (n = NEW_ORDER_SIZE);
     n \<leftarrow> unwrap (message_size MSG_CANCEL_ORDER);
     check (n = CANCEL_ORDER_SIZE);
     check (isl (message_size 255))
   }"

definition empty_buffer_returns_error :: "unit option" where
  "empty_buffer_returns_error = check (decode_message [] = Inl BufferTooShort)"

section \<open>The ring\<close>

text \<open>\<open>p.push(i).unwrap()\<close> and \<open>assert_eq!(c.pop().unwrap(), i)\<close> for each \<open>i\<close> of a range.\<close>

fun push_each :: "'a ring_buffer_inner \<Rightarrow> producer \<Rightarrow> 'a list \<Rightarrow> ('a ring_buffer_inner \<times> producer) option" where
  "push_each r p [] = Some (r, p)"
| "push_each r p (i # is) = do {
     (res, r, p) \<leftarrow> push r p i;
     unwrap res;
     push_each r p is
   }"

fun pop_each :: "u64 ring_buffer_inner \<Rightarrow> consumer \<Rightarrow> u64 list \<Rightarrow> (u64 ring_buffer_inner \<times> consumer) option" where
  "pop_each r c [] = Some (r, c)"
| "pop_each r c (i # is) = do {
     (res, r, c) \<leftarrow> pop r c;
     v \<leftarrow> unwrap res;
     check (v = i);
     pop_each r c is
   }"

fun push_and_pop_each :: "u64 ring_buffer_inner \<Rightarrow> producer \<Rightarrow> consumer \<Rightarrow> u64 list \<Rightarrow> unit option" where
  "push_and_pop_each r p c [] = Some ()"
| "push_and_pop_each r p c (i # is) = do {
     (r, p) \<leftarrow> push_each r p [i];
     (r, c) \<leftarrow> pop_each r c [i];
     push_and_pop_each r p c is
   }"

definition push_pop_single :: "unit option" where
  "push_pop_single = do {
     (r, p, c) \<leftarrow> ring_buffer 4;
     (r, p) \<leftarrow> push_each r p [42 :: u64];
     (r, c) \<leftarrow> pop_each r c [42];
     Some ()
   }"

definition push_pop_fifo :: "unit option" where
  "push_pop_fifo = do {
     (r, p, c) \<leftarrow> ring_buffer 8;
     (r, p) \<leftarrow> push_each r p (map of_nat [0..<8]);
     (r, c) \<leftarrow> pop_each r c (map (of_nat :: nat \<Rightarrow> u64) [0..<8]);
     Some ()
   }"

definition full_returns_error :: "unit option" where
  "full_returns_error = do {
     (r, p, c) \<leftarrow> ring_buffer 4;
     (r, p) \<leftarrow> push_each r p (map (of_nat :: nat \<Rightarrow> u64) [0..<4]);
     (res, r, p) \<leftarrow> push r p 99;
     err \<leftarrow> unwrap_err res;
     check (err = 99)
   }"

definition empty_returns_error :: "unit option" where
  "empty_returns_error = do {
     (r, p, c) \<leftarrow> ring_buffer 4;
     (res, r, c) \<leftarrow> pop (r :: u64 ring_buffer_inner) c;
     check (isl res)
   }"

definition wraparound :: "unit option" where
  "wraparound = do {
     (r, p, c) \<leftarrow> ring_buffer 4;
     push_and_pop_each (r :: u64 ring_buffer_inner) p c (map of_nat [0..<100])
   }"

definition fill_then_drain :: "unit option" where
  "fill_then_drain = do {
     (r, p, c) \<leftarrow> ring_buffer 8;
     (r, p) \<leftarrow> push_each r p (map (of_nat :: nat \<Rightarrow> u64) [0..<8]);
     (res, r, p) \<leftarrow> push r p 99;
     check (isl res);
     (r, c) \<leftarrow> pop_each r c (map of_nat [0..<8]);
     (res, r, c) \<leftarrow> pop r c;
     check (isl res);
     (r, p) \<leftarrow> push_each r p (map of_nat [100..<108]);
     (r, c) \<leftarrow> pop_each r c (map of_nat [100..<108]);
     Some ()
   }"

definition capacity_accessor :: "unit option" where
  "capacity_accessor = do {
     (r, p, c) \<leftarrow> (ring_buffer 16 :: (u64 ring_buffer_inner \<times> producer \<times> consumer) option);
     check (r_capacity r = 16)
   }"

definition zero_capacity_panics :: "unit option" where
  "zero_capacity_panics = panics (ring_buffer 0 :: (u64 ring_buffer_inner \<times> producer \<times> consumer) option)"

definition non_power_of_two_panics :: "unit option" where
  "non_power_of_two_panics = panics (ring_buffer 3 :: (u64 ring_buffer_inner \<times> producer \<times> consumer) option)"

definition drop_remaining_items :: "unit option" where
  "drop_remaining_items = do {
     (r, p, c) \<leftarrow> ring_buffer 4;
     (r, p) \<leftarrow> push_each r p [(), (), ()];
     (dropped, r) \<leftarrow> drop_ring r;
     check (length dropped = 3)
   }"

section \<open>The tests pass\<close>

lemma create_bid_order_passes: "create_bid_order = Some ()"
  by code_simp

lemma create_ask_order_passes: "create_ask_order = Some ()"
  by code_simp

lemma reject_zero_quantity_passes: "reject_zero_quantity = Some ()"
  by code_simp

lemma negative_price_allowed_passes: "negative_price_allowed = Some ()"
  by code_simp

lemma roundtrip_new_order_bid_passes: "roundtrip_new_order_bid = Some ()"
  by code_simp

lemma roundtrip_new_order_ask_passes: "roundtrip_new_order_ask = Some ()"
  by code_simp

lemma roundtrip_cancel_order_passes: "roundtrip_cancel_order = Some ()"
  by code_simp

lemma roundtrip_execution_report_passes: "roundtrip_execution_report = Some ()"
  by code_simp

lemma side_mapping_bid_is_zero_ask_is_one_passes: "side_mapping_bid_is_zero_ask_is_one = Some ()"
  by code_simp

lemma new_order_buffer_too_short_passes: "new_order_buffer_too_short = Some ()"
  by code_simp

lemma cancel_order_buffer_too_short_passes: "cancel_order_buffer_too_short = Some ()"
  by code_simp

lemma execution_report_buffer_too_short_passes: "execution_report_buffer_too_short = Some ()"
  by code_simp

lemma unknown_message_type_passes: "unknown_message_type = Some ()"
  by code_simp

lemma invalid_side_passes: "invalid_side = Some ()"
  by code_simp

lemma zero_quantity_message_rejected_passes: "zero_quantity_message_rejected = Some ()"
  by code_simp

lemma encode_new_order_buffer_too_short_passes: "encode_new_order_buffer_too_short = Some ()"
  by code_simp

lemma encode_execution_report_buffer_too_short_passes: "encode_execution_report_buffer_too_short = Some ()"
  by code_simp

lemma decode_message_dispatches_new_order_passes: "decode_message_dispatches_new_order = Some ()"
  by code_simp

lemma decode_message_dispatches_cancel_passes: "decode_message_dispatches_cancel = Some ()"
  by code_simp

lemma negative_price_roundtrips_passes: "negative_price_roundtrips = Some ()"
  by code_simp

lemma max_values_roundtrip_passes: "max_values_roundtrip = Some ()"
  by code_simp

lemma reserved_bytes_ignored_passes: "reserved_bytes_ignored = Some ()"
  by code_simp

lemma message_size_lookup_passes: "message_size_lookup = Some ()"
  by code_simp

lemma empty_buffer_returns_error_passes: "empty_buffer_returns_error = Some ()"
  by code_simp

text \<open>The loop of \<open>drop\<close>, unfolded as it runs.\<close>

declare drop_loop.simps [code]

lemma push_pop_single_passes: "push_pop_single = Some ()"
  by code_simp

lemma push_pop_fifo_passes: "push_pop_fifo = Some ()"
  by code_simp

lemma full_returns_error_passes: "full_returns_error = Some ()"
  by code_simp

lemma empty_returns_error_passes: "empty_returns_error = Some ()"
  by code_simp

lemma wraparound_passes: "wraparound = Some ()"
  by code_simp

lemma fill_then_drain_passes: "fill_then_drain = Some ()"
  by code_simp

lemma capacity_accessor_passes: "capacity_accessor = Some ()"
  by code_simp

lemma zero_capacity_panics_passes: "zero_capacity_panics = Some ()"
  by code_simp

lemma non_power_of_two_panics_passes: "non_power_of_two_panics = Some ()"
  by code_simp

lemma drop_remaining_items_passes: "drop_remaining_items = Some ()"
  by code_simp

end
