(* ===== verification/Gateway_Tests.thy ===== *)
theory Gateway_Tests
  imports Gateway_Reports Snapshot_Tests Wire_Tests
begin

text \<open>
  The tests of \<open>src/src/gateway.rs\<close> on the model, the two on the size and the marker trait of a type
  left out. A test with a matching thread takes what this thread observes: the tests pass for every schedule
  in which it pops what was pushed and ends. A push that finds the ring full would wait for
  a consumer; no test comes to that.
\<close>

section \<open>The tests\<close>

definition gateway_config_defaults :: "unit option" where
  "gateway_config_defaults = do {
     let config = gateway_config_default;
     check (snd (g_listen_addr config) = 9000);
     check (snd (g_multicast_addr config) = 9001);
     check (g_ring_capacity config = 65536);
     check (g_arena_capacity config = 1048576);
     check (Option.is_none (g_data_dir config));
     check (g_snapshot_interval config = 10000)
   }"

definition tcp_to_ring_roundtrip :: "(nat \<Rightarrow> int) \<Rightarrow> unit option" where
  "tcp_to_ring_roundtrip clock = do {
     (r, p, c) \<leftarrow> ring_buffer 64;
     let ord = \<lparr>o_id = 42, o_trader_id = 7, o_side = Bid, o_price = I64 15005, o_quantity = 100, o_timestamp = 0\<rparr>;
     let (res, buf) = encode_new_order (replicate NEW_ORDER_SIZE 0) ord;
     n \<leftarrow> unwrap res;
     let (cmds, res, shutdown) = handle_client (\<lambda>i. now_nanos (clock i)) 0 Eof buf;
     (r, p) \<leftarrow> push_each r p cmds;
     unwrap res;
     (res, r, c) \<leftarrow> pop r c;
     cmd \<leftarrow> unwrap res;
     (case cmd of
        NewOrder ord \<Rightarrow> do {
          check (o_id ord = 42);
          check (o_trader_id ord = 7);
          check (o_side ord = Bid);
          check (o_price ord = I64 15005);
          check (o_quantity ord = 100);
          check (o_timestamp ord > 0)
        }
      | _ \<Rightarrow> None)
   }"

text \<open>\<open>udp_recv.recv_from(&mut report_buf).unwrap()\<close> and the decoding of the report; \<open>None\<close> after the timeout.\<close>

definition receive_report :: "u8 list list \<Rightarrow> execution_report option" where
  "receive_report sent = do {
     datagram \<leftarrow> vec_get sent 0;
     let (n, report_buf) = recv_from (replicate EXECUTION_REPORT_SIZE 0) datagram;
     check (n = EXECUTION_REPORT_SIZE);
     unwrap (decode_execution_report report_buf)
   }"

definition full_pipeline_integration :: "codecs \<Rightarrow> (nat \<Rightarrow> int) \<Rightarrow> observation list \<Rightarrow> unit option" where
  "full_pipeline_integration k clock obs = do {
     let engine = engine_with_capacity 1024;
     let ask = \<lparr>o_id = 1, o_trader_id = 10, o_side = Ask, o_price = I64 100, o_quantity = 50, o_timestamp = 0\<rparr>;
     let (res, buf1) = encode_new_order (replicate NEW_ORDER_SIZE 0) ask;
     n \<leftarrow> unwrap res;
     let bid = \<lparr>o_id = 2, o_trader_id = 20, o_side = Bid, o_price = I64 100, o_quantity = 50, o_timestamp = 0\<rparr>;
     let (res, buf2) = encode_new_order buf1 bid;
     n \<leftarrow> unwrap res;
     let (cmds, res, shutdown) = handle_client (\<lambda>i. now_nanos (clock i)) 0 Eof (buf1 @ buf2);
     unwrap res;
     check (consumed obs = cmds);
     (st, ended) \<leftarrow> matching_loop k 10000 (start_loop engine None None) obs;
     check ended;
     report \<leftarrow> receive_report (m_sent (l_matcher st));
     check (x_seq_num report = 1);
     check (x_taker_order_id report = 2);
     check (x_maker_order_id report = 1);
     check (x_price report = I64 100);
     check (x_quantity report = 50);
     check (x_timestamp report > 0)
   }"

text \<open>The two orders of the last test.\<close>

definition persisted_orders :: "engine_command list" where
  "persisted_orders =
     [NewOrder \<lparr>o_id = 1, o_trader_id = 10, o_side = Ask, o_price = I64 100, o_quantity = 50, o_timestamp = 1000000\<rparr>,
      NewOrder \<lparr>o_id = 2, o_trader_id = 20, o_side = Bid, o_price = I64 100, o_quantity = 50, o_timestamp = 2000000\<rparr>]"

definition matching_loop_with_persistence :: "codecs \<Rightarrow> observation list \<Rightarrow> unit option" where
  "matching_loop_with_persistence k obs = do {
     let crc = crc_hash k;
     wal \<leftarrow> open_unwrap crc [];
     let engine = engine_with_capacity 1024;
     (r, p, c) \<leftarrow> ring_buffer 64;
     (r, p) \<leftarrow> push_each r p persisted_orders;
     check (consumed obs = persisted_orders);
     (st, ended) \<leftarrow> matching_loop k 10000 (start_loop engine (Some wal) (Some None)) obs;
     check ended;
     wal \<leftarrow> m_wal (l_matcher st);
     wal \<leftarrow> open_unwrap crc (wal_file wal);
     check (w_record_count wal = 2);
     report \<leftarrow> receive_report (m_sent (l_matcher st));
     check (x_seq_num report = 1);
     check (x_quantity report = 50)
   }"

section \<open>The schedules\<close>

text \<open>
  A fresh engine of 1024 orders, with an empty log or without, run on a schedule that ends the loop: the flag
  is seen with an empty ring, and the drain finds the ring empty (\<open>loop_ended\<close>).
\<close>

lemma fresh_loop:
  assumes "loop_ended obs" and "\<And>w. wal = Some w \<Longrightarrow> logs (crc_hash k) w []"
  obtains st where "matching_loop k 10000 (start_loop (engine_with_capacity 1024) wal dir) obs = Some (st, True)"
    and "sequenced 1 (m_sent (l_matcher st)) (numbered 0 (run_fills 1024 (\<lambda>_. []) (consumed obs)))"
proof -
  let ?m = "l_matcher (start_loop (engine_with_capacity 1024) wal dir)"
  have "matcher_ok (crc_hash k) 1024 ?m (\<lambda>_. [])"
    using assms(2) engine_new_represents [of 1024] by (auto simp: matcher_ok_def start_loop_def logs_def)
  from matching_loop_reporting [OF reporting_start [OF this], of 10000 obs] assms(1) that show thesis
    by (auto simp: reporting_def)
qed

text \<open>Where the file system lets the log grow, every command is in the log at the end.\<close>

fun growth_ok :: "observation \<Rightarrow> bool" where
  "growth_ok (Popped cmd g io) \<longleftrightarrow> g = GrowOk"
| "growth_ok (EmptySeen b) \<longleftrightarrow> True"

abbreviation all_logged :: "engine_command list \<Rightarrow> history" where
  "all_logged \<equiv> map (\<lambda>x. (x, True))"

lemma logged_all_logged [simp]: "logged (all_logged cs) = cs"
  by (simp add: logged_all comp_def)

lemma history_after_grown:
  assumes "log_inv k c m full"
  shows "history_after k m full cmd GrowOk = full @ [(cmd, True)]"
proof (cases "m_wal m")
  case None
  then show ?thesis by (simp add: history_after_def recorded_def)
next
  case (Some w)
  then show ?thesis using assms append_recorded [of k w full m cmd GrowOk] by (auto simp: log_inv_def history_after_def)
qed

lemma drain_loop_log:
  assumes "log_inv k c (l_matcher st) full" and "\<forall>ob \<in> set obs. growth_ok ob" and "drain_loop k st obs = Some (st', b)"
  shows "log_inv k c (l_matcher st') (full @ all_logged (drained obs)) \<and>
    (m_wal (l_matcher st') = None \<longleftrightarrow> m_wal (l_matcher st) = None)"
  using assms
proof (induction k st obs arbitrary: full rule: drain_loop.induct)
  case (2 k st cmd g io obs)
  from "2.prems"(2) have g: "g = GrowOk" by simp
  obtain m where m: "process_command (crc_hash k) cmd (l_matcher st) g = Some m" "log_inv k c m (full @ [(cmd, True)])"
    "m_wal m = None \<longleftrightarrow> m_wal (l_matcher st) = None"
    using process_command_log [OF "2.prems"(1), of cmd g] history_after_grown [OF "2.prems"(1), of cmd] g by auto
  with "2.IH" [OF m(1), of "full @ [(cmd, True)]"] "2.prems"(2,3) show ?case by simp
qed auto

lemma matching_loop_log:
  assumes "log_inv k c (l_matcher st) full" and "\<And>dir. l_dir st = Some dir \<Longrightarrow> dir_ok k c full dir" and "bincode_ok k"
    and "\<forall>ob \<in> set obs. growth_ok ob" and "matching_loop k interval st obs = Some (st', b)"
  shows "log_inv k c (l_matcher st') (full @ all_logged (consumed obs)) \<and>
    (m_wal (l_matcher st') = None \<longleftrightarrow> m_wal (l_matcher st) = None)"
  using assms
proof (induction k interval st obs arbitrary: full rule: matching_loop.induct)
  case (2 k interval st cmd g io obs)
  from "2.prems"(4) have g: "g = GrowOk" by simp
  obtain st1 where st1: "on_command k interval st cmd g io = Some st1" "log_inv k c (l_matcher st1) (full @ [(cmd, True)])"
    "\<forall>dir. l_dir st1 = Some dir \<longrightarrow> dir_ok k c (full @ [(cmd, True)]) dir"
    "m_wal (l_matcher st1) = None \<longleftrightarrow> m_wal (l_matcher st) = None"
    using on_command_log [OF "2.prems"(1,2,3), of interval cmd g io] history_after_grown [OF "2.prems"(1), of cmd] g by auto
  with "2.IH" [OF st1(1), of "full @ [(cmd, True)]"] "2.prems"(3,4,5) show ?case by simp
next
  case (3 k interval st b obs)
  then show ?case using "3.IH" [of full] drain_loop_log [OF "3.prems"(1), of obs] by (cases b) auto
qed auto

lemma received_report:
  assumes "sequenced 1 ds (numbered 0 (x # xs))"
  shows "receive_report ds = Some (report_of 1 x)"
proof (cases ds)
  case (Cons d ds')
  with assms have "length d = 48" "decode_execution_report d = Inr (report_of 1 x)" by simp_all
  then show ?thesis using Cons by (simp add: receive_report_def recv_from_def Let_def splice_def unwrap_def check_def)
qed (use assms in simp)

text \<open>Pushes into a ring with room, and the time stamp of a clock between the epoch and the year 2554.\<close>

lemma push_each_quiet:
  "quiet (r, p, c) k q \<Longrightarrow> length q + length is \<le> 2 ^ k \<Longrightarrow>
     \<exists>r' p'. push_each r p is = Some (r', p') \<and> quiet (r', p', c) k (q @ is)"
proof (induction "is" arbitrary: r p q)
  case (Cons i "is")
  obtain r1 p1 where "push r p i = Some (Inr (), r1, p1)" "quiet (r1, p1, c) k (q @ [i])"
    using push_quiet [OF Cons.prems(1), of i] Cons.prems(2) by (auto simp: push_on_def)
  then show ?case using Cons.IH [of r1 p1 "q @ [i]"] Cons.prems(2) by (simp add: unwrap_def)
qed simp

lemma ring_of_64:
  fixes xs :: "engine_command list"
  assumes "length xs \<le> 64"
  obtains r p c r' p' where "ring_buffer 64 = Some (r, p, c)" and "push_each r p xs = Some (r', p')" and "quiet (r', p', c) 6 xs"
proof -
  have pow: "is_power_of_two 64" by code_simp
  then obtain r p and c :: consumer where new: "ring_buffer 64 = Some (r :: engine_command ring_buffer_inner, p, c)"
    by (simp add: ring_buffer_def)
  from quiet_new [OF new] obtain k where k: "k < 64" "(64 :: usize) = 2 ^ k" "quiet (r, p, c) k []" by blast
  have "unat (64 :: usize) = 2 ^ k" unfolding k(2) by (rule unat_power [OF k(1)])
  then have "(2 :: nat) ^ 6 = 2 ^ k" by simp
  then have "k = 6" by (subst (asm) power_inject_exp) simp_all
  then show thesis using that new push_each_quiet [OF k(3), of xs] assms by auto
qed

lemma now_nanos_pos: "0 < clock \<Longrightarrow> clock < 2 ^ 64 \<Longrightarrow> 0 < now_nanos clock"
  using zdvd_not_zless [of clock "2 ^ 64"] by (auto simp: now_nanos_def word_gt_0 word_of_int_eq_0_iff)

section \<open>The tests pass\<close>

lemma gateway_config_defaults_passes: "gateway_config_defaults = Some ()"
  by (simp add: gateway_config_defaults_def gateway_config_default_def check_def)

lemma handle_client_orders:
  assumes "\<forall>ord \<in> set orders. o_quantity ord \<noteq> 0"
  shows "handle_client now 0 Eof (concat (map new_order_bytes orders)) =
    (map2 (\<lambda>j ord. NewOrder (ord\<lparr>o_timestamp := now j\<rparr>)) [0..<length orders] orders, Inr (), True)"
proof -
  have "handle_client now n Eof [] = ([], Inr (), True)" for n by (simp add: handle_client.simps)
  then show ?thesis
    using handle_client_stream [of "map NewOrder orders" now 0 Eof "[]"] assms by (simp add: comp_def zip_map2 split_def)
qed

lemma encoded_order:
  "encode_new_order (replicate 40 0) ord = (Inr 40, new_order_bytes ord)"
  "encode_new_order (new_order_bytes ord') ord = (Inr 40, new_order_bytes ord)"
  by (simp_all add: encode_new_order_bytes)

lemma tcp_to_ring_roundtrip_passes:
  assumes "0 < clock 0" and "clock 0 < 2 ^ 64"
  shows "tcp_to_ring_roundtrip clock = Some ()"
proof -
  let ?o = "\<lparr>o_id = 42, o_trader_id = 7, o_side = Bid, o_price = I64 15005, o_quantity = 100, o_timestamp = 0\<rparr>"
  let ?c = "NewOrder (?o\<lparr>o_timestamp := now_nanos (clock 0)\<rparr>)"
  obtain r p c r' p' where ring: "ring_buffer 64 = Some (r, p, c)" "push_each r p [?c] = Some (r', p')" "quiet (r', p', c) 6 [?c]"
    by (rule ring_of_64 [of "[?c]"]) simp
  then obtain r'' c' where "pop r' c = Some (Inr ?c, r'', c')" using pop_quiet [OF ring(3)] by (auto simp: pop_on_def)
  moreover have "handle_client (\<lambda>i. now_nanos (clock i)) 0 Eof (new_order_bytes ?o) = ([?c], Inr (), True)"
    using handle_client_orders [of "[?o]" "\<lambda>i. now_nanos (clock i)"] by simp
  ultimately show ?thesis
    using ring(1,2) now_nanos_pos [OF assms]
    by (simp add: tcp_to_ring_roundtrip_def encoded_order unwrap_def check_def del: push_each.simps)
qed

text \<open>The one fill of an ask and a bid of 50 at 100.\<close>

lemma crossing_fills:
  "run_fills 1024 (\<lambda>_. [])
     [NewOrder \<lparr>o_id = 1, o_trader_id = 10, o_side = Ask, o_price = I64 100, o_quantity = 50, o_timestamp = s\<rparr>,
      NewOrder \<lparr>o_id = 2, o_trader_id = 20, o_side = Bid, o_price = I64 100, o_quantity = 50, o_timestamp = t\<rparr>] =
     [(\<lparr>f_taker_order_id = 2, f_maker_order_id = 1, f_price = I64 100, f_quantity = 50,
        f_maker_fully_filled = True\<rparr>, t)]"
  by (simp add: run_test)

lemma full_pipeline_integration_passes:
  assumes "0 < clock 1" and "clock 1 < 2 ^ 64" and "loop_ended obs"
    and "consumed obs =
      [NewOrder \<lparr>o_id = 1, o_trader_id = 10, o_side = Ask, o_price = I64 100, o_quantity = 50, o_timestamp = now_nanos (clock 0)\<rparr>,
       NewOrder \<lparr>o_id = 2, o_trader_id = 20, o_side = Bid, o_price = I64 100, o_quantity = 50, o_timestamp = now_nanos (clock 1)\<rparr>]"
  shows "full_pipeline_integration k clock obs = Some ()"
proof -
  obtain st where st: "matching_loop k 10000 (start_loop (engine_with_capacity 1024) None None) obs = Some (st, True)"
    and sent: "sequenced 1 (m_sent (l_matcher st)) (numbered 0 (run_fills 1024 (\<lambda>_. []) (consumed obs)))"
    using fresh_loop [of obs None k None] assms(3) by auto
  note report = received_report [OF sent [unfolded assms(4) crossing_fills]]
  let ?ask = "\<lparr>o_id = 1, o_trader_id = 10, o_side = Ask, o_price = I64 100, o_quantity = 50, o_timestamp = 0\<rparr>"
    and ?bid = "\<lparr>o_id = 2, o_trader_id = 20, o_side = Bid, o_price = I64 100, o_quantity = 50, o_timestamp = 0\<rparr>"
  have "handle_client (\<lambda>i. now_nanos (clock i)) 0 Eof (new_order_bytes ?ask @ new_order_bytes ?bid) = (consumed obs, Inr (), True)"
    using handle_client_orders [of "[?ask, ?bid]" "\<lambda>i. now_nanos (clock i)"] assms(4) by simp
  then show ?thesis
    using st report now_nanos_pos [OF assms(1,2)]
    by (simp add: full_pipeline_integration_def encoded_order unwrap_def check_def report_of_def)
qed

lemma matching_loop_with_persistence_passes:
  assumes "bincode_ok k" and "loop_ended obs" and "\<forall>ob \<in> set obs. growth_ok ob" and "consumed obs = persisted_orders"
  shows "matching_loop_with_persistence k obs = Some ()"
proof -
  let ?w = "log_of (crc_hash k) DEFAULT_INITIAL_SIZE []"
  obtain st where st: "matching_loop k 10000 (start_loop (engine_with_capacity 1024) (Some ?w) (Some None)) obs = Some (st, True)"
    and sent: "sequenced 1 (m_sent (l_matcher st)) (numbered 0 (run_fills 1024 (\<lambda>_. []) (consumed obs)))"
    using fresh_loop [of obs "Some ?w" k "Some None"] assms(2) log_of_logs by auto
  let ?s = "start_loop (engine_with_capacity 1024) (Some ?w) (Some None)"
  have start: "log_inv k 1024 (l_matcher ?s) []" "\<And>dir. l_dir ?s = Some dir \<Longrightarrow> dir_ok k 1024 [] dir"
    using engine_new_represents [of 1024] live_with_empty [of 1024] log_of_logs [of "crc_hash k" DEFAULT_INITIAL_SIZE "[]"]
    by (auto simp: log_inv_def matcher_ok_def start_loop_def logs_def dir_ok_def)
  note log = matching_loop_log [OF start assms(1,3) st]
  then obtain w where w: "m_wal (l_matcher st) = Some w" "logs (crc_hash k) w (consumed obs)" "clean w"
    by (auto simp: log_inv_def start_loop_def)
  then obtain w' where "wal_open (crc_hash k) (wal_file w) GrowOk = Some (Inr w')" "logs (crc_hash k) w' (consumed obs)"
    using reopen_clean [of "crc_hash k" w "map command_bytes (consumed obs)"] by (fastforce simp: wal_open_def logs_def)
  moreover obtain r p c r' p' where "ring_buffer 64 = Some (r, p, c)" "push_each r p persisted_orders = Some (r', p')"
    by (rule ring_of_64 [of persisted_orders]) (simp add: persisted_orders_def)
  moreover note received_report [OF sent [unfolded assms(4) persisted_orders_def crossing_fills]]
  ultimately show ?thesis
    using st w(1) assms(4) logs_count [of "crc_hash k" w' "consumed obs"]
    by (simp add: matching_loop_with_persistence_def open_unwrap_def first_open unwrap_def check_def report_of_def persisted_orders_def
      del: push_each.simps)
qed

end
