(* ===== verification/Spec2Isabelle.thy ===== *)
theory Spec2Isabelle
  imports Engine_Props Wire_Props Store_Props Gateway_Liveness Gateway_Reports Entry Damage_Tests Gateway_Tests
begin

text \<open>
  \<^bold>\<open>Ferrox, an order matching engine: what is modelled and what is proved.\<close>

  The program (\<open>src/src\<close>) is a gateway around a limit order book. A client thread reads framed
  messages from a TCP stream, decodes them and pushes the commands into a single-producer,
  single-consumer ring. A matching thread pops them, appends each to a write-ahead log, applies
  it to the matching engine and multicasts an execution report per fill; every so many commands it
  saves a snapshot of the book. At start-up the newest valid snapshot is restored and the rest of
  the log is replayed. A subscriber prints the reports and notices lost ones.

  \<^bold>\<open>Theories and the code they model.\<close> Each operation is one definition, with the names of the code;
  state is passed explicitly; an index out of range, a failed assertion and a loop that does not
  return are \<open>None\<close>; a \<open>Result\<close> is a sum with the error on the left; integers are words of their
  width, and prices (\<open>i64\<close>) compare as signed.

  \<^item> \<open>Prelude\<close>: the words, checked access to vectors and slices, little-endian bytes. \<open>Std_Maps\<close>: the
    standard library's \<open>BTreeMap\<close> and \<open>HashMap\<close>, with their contract as the locales \<open>map_adt\<close> and
    \<open>ordered_map_adt\<close>.
  \<^item> \<open>Orders\<close> (\<open>order.rs\<close>), \<open>Arena\<close> (\<open>arena.rs\<close>): slots, free list and linked price levels; the
    locale \<open>keyed_queues\<close> is what the book needs of several levels in one arena.
  \<^item> \<open>Book\<close> (\<open>book.rs\<close>): all operations of the order book. \<open>Book_Spec\<close>: a book as two priority lists
    (\<open>abook\<close>). \<open>Book_Refine\<close>: the invariant \<open>represents\<close> between the two, kept by every operation.
  \<^item> \<open>Matching\<close> (\<open>matching.rs\<close>): the engine, and the abstract engine \<open>a_add_order\<close>; the locales
    \<open>price_time_book\<close> (what the loops rely on) and \<open>taker_loop\<close> (the two arms of \<open>add_order\<close>, proved
    once). \<open>Matching_Laws\<close>: price-time priority, conservation and the invariants of the book.
  \<^item> \<open>Protocol\<close> (\<open>protocol.rs\<close>): readers, writers, encoders and decoders; the locale \<open>codec\<close>.
  \<^item> \<open>Ring\<close> (\<open>ring.rs\<close>): the ring used by one thread, with the locale \<open>bounded_queue\<close>, and its drop.
    \<open>Ring_Concurrent\<close>: the same code in single steps of two threads.
  \<^item> \<open>Wal\<close>, \<open>Wal_Laws\<close> (\<open>wal.rs\<close>): the log as bytes, and as a list of commands (locale \<open>command_log\<close>).
  \<^item> \<open>Snapshot\<close>, \<open>Snapshot_Laws\<close> (\<open>snapshot.rs\<close>); \<open>Recovery\<close> (\<open>recovery.rs\<close>), with the history of a book: the
    commands executed, and which of them the log has.
  \<^item> \<open>Gateway\<close>, \<open>Gateway_Laws\<close>, \<open>Gateway_Threads\<close> (\<open>gateway.rs\<close>): the client side, the matching thread
    and \<open>run\<close>; restarts (\<open>lifetime\<close>); the two threads around the ring with the shutdown flag.
    \<open>Gateway_Liveness\<close>: a measure by which they can always come to a stop.
  \<^item> \<open>Subscriber\<close> (\<open>examples/subscriber.rs\<close>). \<open>Gateway_Reports\<close>: the reports of a whole run, one for each
    fill that the engine returns, whatever the file system answers.
  \<^item> \<open>Testing\<close>, \<open>Wire_Tests\<close>, \<open>Book_Tests\<close>, \<open>Engine_Tests\<close>, \<open>Store_Tests\<close>, \<open>Damage_Tests\<close>,
    \<open>Snapshot_Tests\<close>, \<open>Gateway_Tests\<close>: the test modules of all files, run on the model, which checks
    the model against the results the authors expect; the property tests of the engine are
    proved for every input, those of the log for every checksum function (where a test damages
    the log it names what it needs of it), those of the gateway for every schedule of its thread.
  \<^item> \<open>Texts\<close>: what \<open>Display\<close> and \<open>Debug\<close> print of the errors, a node and \<open>Full\<close>, and that the numbers in
    them can be read back. \<open>Entry\<close> (\<open>main.rs\<close>): the start of the program and the lines it writes.

  \<^bold>\<open>What the properties show.\<close> \<open>Engine_Props\<close>: the engine implements the abstract one on every branch,
  keeps its invariants, trades in price-time priority and conserves quantities; the branches of
  the book and the arena; the counts and totals the levels carry after any commands, and when a total wraps;
  and one defect, an order with a resting id that trades before it is refused. \<open>Wire_Props\<close>: round
  trips and exact acceptance of messages; the ring is free of races, delivers in order and never
  blocks. \<open>Store_Props\<close>: the log grows only where a record does not fit, reads back what was appended,
  opens on any file and loses no record to a torn tail, but may take up stale records behind a
  damaged one; snapshots restore the book, and the newest valid one is loaded. This theory: the
  properties that span components, from the bytes of a client to the book on any disk, over restarts,
  crashes, failed appends and damaged records, over any interleaving of the two threads, and up to
  what a subscriber prints. Each property with a hypothesis has a witness at a sample.

  Two defects shape the statements. The gateway drops the error of a failed append and executes the
  command (\<open>gateway.rs\<close>, \<open>process_command\<close>), so a restart may miss commands the log never had; the
  properties over restarts speak of what is kept of the history, which is all of it where no append
  failed. And \<open>add_order\<close> returns an error without the fills it made where it refuses an id at the end,
  so the reports are those of the fills it returns.

  \<^bold>\<open>Parameters and bounds.\<close> \<open>crc32fast::hash\<close> is an arbitrary function. \<open>bincode\<close> is assumed to
  deserialise what it serialised (\<open>bincode_ok\<close>), where a property says so, and not to fail on a slice
  of orders (the \<open>expect\<close> in \<open>compute_checksum\<close>). The answers of the file system and of the sockets,
  the clock, the interleaving and the staleness of atomic loads are arguments or choices of a step
  relation. Fuel is used nowhere: the loops of the engine, the scan of the log, its iterator and
  the replay are \<open>partial_function\<close>s that are proved to return. Offsets and counts in the log are
  natural numbers, since a file stays far below the width of \<open>u64\<close>; \<open>align_up\<close> is proved at its width.
  The total quantity of a price level wraps, as in a release build. The order of snapshot names is
  that of their counts below ten digits (\<open>filename_less\<close>), and no further (\<open>filename_order_breaks\<close>).

  \<^bold>\<open>Not modelled.\<close> Which \<open>io::Error\<close> an operation failed with and what \<open>bincode\<close> says of a failure: an
  error has its constructor, and its text takes these as parameters. The conversions between error types beyond the wrapping constructors, and
  \<open>Error::source\<close>; \<open>flush_async\<close>, which changes no byte of the map; \<open>debug_assert\<close>, which a release build
  leaves out; \<open>CachePadded\<close> and the capacities of \<open>Vec\<close> and \<open>HashMap\<close>, which have no observable effect;
  \<open>lib.rs\<close>, which declares the modules; the tests of the ring with two threads, which are instances of
  the properties over all interleavings, and those on the size and the marker traits of a type; the
  benchmarks.
\<close>

section \<open>The client side\<close>

lemma handle_client_torn:
  assumes "m < length (command_bytes c)"
  shows "handle_client now i fin (take m (command_bytes c)) = end_of_stream fin"
proof -
  obtain b bs where c: "command_bytes c = b # bs" "message_size b = Inr (Suc (length bs))"
    by (rule message_size_command)
  show ?thesis
  proof (cases m)
    case 0
    then show ?thesis by (subst handle_client.simps) simp
  next
    case (Suc j)
    then show ?thesis using assms c by (subst handle_client.simps) simp
  qed
qed

definition stamped :: "(nat \<Rightarrow> u64) \<Rightarrow> engine_command list \<Rightarrow> engine_command list" where
  "stamped now cs = map2 (\<lambda>j c. stamp (now j) c) [0..<length cs] cs"

text \<open>
  C23. The gateway takes from the client exactly the messages of its stream, in order, each stamped
  with its time. A last message that is cut off is not taken, and the end of the stream then
  decides the result. A byte that is no message type ends the stream with that error, after the
  commands before it.
\<close>

theorem client_stream:
  assumes "\<forall>c \<in> set cs. loggable c"
  shows "(m < length (command_bytes c) \<longrightarrow>
      handle_client now 0 fin (concat (map command_bytes cs) @ take m (command_bytes c)) =
        (stamped now cs, snd (end_of_stream fin))) \<and>
    (message_size b = Inl e \<longrightarrow>
      handle_client now 0 fin (concat (map command_bytes cs) @ b # rest) = (stamped now cs, Inl (GwProtocol e), False))"
proof -
  have "handle_client now i fin (b # rest) = ([], Inl (GwProtocol e), False)" if "message_size b = Inl e" for i
    using that by (subst handle_client.simps) simp
  moreover have "fst (end_of_stream fin) = []" by (cases fin) simp_all
  ultimately show ?thesis
    using handle_client_stream [OF assms, of now 0 fin] handle_client_torn [of m c now _ fin]
    by (auto simp: stamped_def split: prod.splits)
qed

theorem client_stream_witness:
  "handle_client of_nat 0 Eof (command_bytes (CancelOrder 5) @ command_bytes (NewOrder taker_bid) @ [2, 0, 0]) =
     ([CancelOrder 5, NewOrder (taker_bid\<lparr>o_timestamp := 1\<rparr>)], Inr (), True) \<and>
   fst (snd (handle_client of_nat 0 Eof (command_bytes (CancelOrder 5) @ [9]))) = Inl (GwProtocol (UnknownMessageType 9))"
proof -
  have "\<forall>c \<in> set [CancelOrder 5, NewOrder taker_bid]. loggable c" "\<forall>c \<in> set [CancelOrder 5]. loggable c"
    by (simp_all add: sample_defs)
  note s = client_stream [OF this(1), of 3 "CancelOrder 7" of_nat Eof] client_stream [OF this(2), of _ _ of_nat Eof 9 _ "[]"]
  have "take 3 (command_bytes (CancelOrder 7)) = [2, 0, 0]" "message_size 9 = Inl (UnknownMessageType 9)"
    by (simp_all add: cancel_order_bytes_def message_size_def numeral_3_eq_3)
  with s show ?thesis by (simp add: stamped_def upt_rec)
qed

section \<open>One command and its reports\<close>

text \<open>
  C24. Processing a command returns, whatever the log answers. The command is applied once, the log
  still holds well-formed records, with the command as the last unless the file could not grow, and
  one datagram is sent for each fill that \<open>add_order\<close> returns, in their order: decoded, each carries
  the data of its fill, the time stamp of the taker and the next sequence number. A refused order
  returns an error and no fills, so nothing is sent for it, also where it had traded before it was
  refused for its id.
\<close>

theorem reports_sent:
  assumes "represents (e_book (m_engine m)) A" and "length (m_report_buf m) = 48"
    and "\<forall>w. m_wal m = Some w \<longrightarrow> logs crc w cs"
    and "fs = returned_fills (m_engine m) cmd"
  shows "\<exists>m' rs. process_command crc cmd m g = Some m' \<and>
    represents (e_book (m_engine m')) (a_command (capacity_of (e_book (m_engine m))) A cmd) \<and>
    (case m_wal m' of Some w' \<Rightarrow> logs crc w' (cs @ [cmd]) \<or> logs crc w' cs \<and> g \<noteq> GrowOk | None \<Rightarrow> m_wal m = None) \<and>
    m_sent m' = m_sent m @ rs \<and> m_seq_num m' = m_seq_num m + of_nat (length fs) \<and>
    map decode_execution_report rs = map (\<lambda>i. Inr \<lparr>x_seq_num = m_seq_num m + 1 + of_nat i,
      x_taker_order_id = f_taker_order_id (fs ! i), x_maker_order_id = f_maker_order_id (fs ! i),
      x_price = f_price (fs ! i), x_quantity = f_quantity (fs ! i), x_timestamp = time_of cmd\<rparr>) [0..<length fs]"
proof -
  obtain wo' where wal: "case m_wal m of None \<Rightarrow> wo' = None | Some w \<Rightarrow> \<exists>r w'. append crc w cmd g = Some (r, w') \<and> wo' = Some w'"
    and log: "case wo' of Some w' \<Rightarrow> logs crc w' (cs @ [cmd]) \<or> logs crc w' cs \<and> g \<noteq> GrowOk | None \<Rightarrow> m_wal m = None"
  proof (cases "m_wal m")
    case (Some w)
    then have "logs crc w cs" using assms(3) by simp
    then obtain r w' where "append crc w cmd g = Some (r, w')" "logs crc w' (cs @ [cmd]) \<or> logs crc w' cs \<and> g \<noteq> GrowOk"
      using append_spec [of crc w "map command_bytes cs" cmd g] unfolding logs_def by fastforce
    then show thesis using Some by (intro that [of "Some w'"]) auto
  qed (use that in auto)
  have dec: "decode_execution_report (report_bytes (n, f, ts)) = Inr \<lparr>x_seq_num = n, x_taker_order_id = f_taker_order_id f,
      x_maker_order_id = f_maker_order_id f, x_price = f_price f, x_quantity = f_quantity f, x_timestamp = ts\<rparr>" for n f ts
    using decode_execution_report_bytes [of n f ts "[]"] by simp
  from process_command_spec [OF assms(1) refl assms(2) wal] log show ?thesis
    unfolding assms(4) returned_fills_refines [OF assms(1)] by (fastforce simp: reports_nth dec intro!: nth_equalityI)
qed

definition sample_matcher :: "matching_engine \<Rightarrow> matcher" where
  "sample_matcher e = \<lparr>m_engine = e, m_wal = None, m_seq_num = 0, m_report_buf = replicate 48 0, m_sent = []\<rparr>"

theorem reports_sent_witness:
  "\<exists>e m' r. represents (e_book e) sample_book \<and> process_command sum_crc (NewOrder taker_bid) (sample_matcher e) GrowOk = Some m' \<and>
     m_sent m' = [r] \<and> decode_execution_report r = Inr \<lparr>x_seq_num = 1, x_taker_order_id = 3, x_maker_order_id = 1,
       x_price = I64 100, x_quantity = 5, x_timestamp = 7\<rparr>"
proof -
  obtain e :: matching_engine where e: "represents (e_book e) sample_book" "capacity_of (e_book e) = 4"
    by (rule sample_engine)
  have s: "represents (e_book (m_engine (sample_matcher e))) sample_book" "length (m_report_buf (sample_matcher e)) = 48"
    "\<forall>w. m_wal (sample_matcher e) = Some w \<longrightarrow> logs sum_crc w []" using e by (simp_all add: sample_matcher_def)
  have f: "returned_fills (m_engine (sample_matcher e)) (NewOrder taker_bid) = [takes 3 5 resting_ask]"
    unfolding returned_fills_refines [OF s(1)] using e(2) by (simp add: sample_matcher_def sample_add)
  have t: "takes 3 5 resting_ask = \<lparr>f_taker_order_id = 3, f_maker_order_id = 1, f_price = I64 100, f_quantity = 5,
      f_maker_fully_filled = True\<rparr>" "o_timestamp taker_bid = 7" by (simp_all add: takes_def sample_defs)
  from reports_sent [OF s f [symmetric], of GrowOk] e(1) show ?thesis
    by (auto simp: t sample_matcher_def)
qed

text \<open>
  C25. A subscriber notices lost reports. The datagrams of a run of the matching thread are
  execution reports numbered from one on (modulo the word size), across all its commands. A
  subscriber that receives all of them prints them and reports no gap. One that loses a block of
  fewer than \<open>2 ^ 32\<close> of them and then receives the rest prints all it received, and where the
  block is not empty and something comes after it, it reports one gap there, with the number of the
  lost reports. A block lost at the end goes unnoticed.
\<close>

theorem subscriber_sees_loss:
  assumes "matching_loop k interval (start_loop e w dir) obs = Some (st, b)"
    and "m_sent (l_matcher st) = us @ lost @ vs" and "length lost < 2 ^ 32"
  shows "\<exists>rs. map decode_execution_report (m_sent (l_matcher st)) = map Inr rs \<and>
    subscribe subscriber_new (map Some (us @ vs)) = map Printed (take (length us) rs) @
      (if lost = [] \<or> vs = [] then []
       else [Gap (of_nat (length us + 1)) (of_nat (length us + length lost + 1)) (of_nat (length lost))]) @
      map Printed (drop (length us + length lost) rs)"
proof -
  have "sends_in_sequence (l_matcher (start_loop e w dir))"
    by (auto simp: sends_in_sequence_def start_loop_def intro: exI [of _ "[]"])
  from matching_loop_sequence [OF assms(1) this] obtain rs where rs: "sequenced 1 (us @ lost @ vs) rs"
    by (auto simp: sends_in_sequence_def assms(2))
  let ?u = "length us" and ?l = "length lost"
  have u: "sequenced 1 us (take ?u rs)" and v: "sequenced (1 + of_nat ?u + of_nat ?l) vs (drop (?u + ?l) rs)"
    using sequenced_split [OF rs] sequenced_split [of "1 + of_nat ?u" lost vs "drop ?u rs"] by (simp_all add: ac_simps)
  have l0: "(of_nat ?l :: u32) = 0 \<longleftrightarrow> lost = []"
    using assms(3) by (auto simp: word_of_nat_eq_0_iff dest: nat_dvd_not_less)
  define b1 where "b1 = (if us = [] then subscriber_new else \<lparr>b_buf = last us, b_expected_seq = 1 + of_nat ?u\<rparr>)"
  have b1: "subscribe subscriber_new (map Some (us @ vs)) = map Printed (take ?u rs) @ subscribe b1 (map Some vs)"
    "length (b_buf b1) = 48" "b_expected_seq b1 = 1 + of_nat ?u"
    using subscribe_sequence [OF u, of subscriber_new vs] by (auto simp: b1_def subscriber_new_def gap_def)
  have "subscribe b1 (map Some vs) = (if lost = [] \<or> vs = [] then []
      else [Gap (of_nat (?u + 1)) (of_nat (?u + ?l + 1)) (of_nat ?l)]) @ map Printed (drop (?u + ?l) rs)"
  proof (cases "vs = []")
    case True
    then show ?thesis using sequenced_length [OF v] by simp
  next
    case False
    then show ?thesis using subscribe_sequence [OF v b1(2), of "[]"] b1(3) l0 by (auto simp: gap_def ac_simps)
  qed
  then show ?thesis
    using b1(1) sequenced_decode [OF rs] assms(2) by (intro exI [of _ rs]) (simp add: ac_simps)
qed

definition taker_ask :: order where
  "taker_ask = sample_order 4 40 Ask 95 1"

lemma sample_second_fill:
  "a_fills 4 (sample_book(Ask := [], Bid := [taker_bid\<lparr>o_quantity := 3\<rparr>, resting_bid])) (NewOrder taker_ask) =
     [takes 4 1 (taker_bid\<lparr>o_quantity := 3\<rparr>)]"
  by (simp add: a_add_order_def taker_ask_def sample_defs Let_def less_eq_i64_def i64_val_def fill_of_def takes_def)

lemma sample_two_reports:
  obtains e st d1 d2 where "represents (e_book e) sample_book"
    and "matching_loop sample_codecs 1 (start_loop e None None)
      [Popped (NewOrder taker_bid) GrowOk SaveOk, Popped (NewOrder taker_ask) GrowOk SaveOk] = Some (st, False)"
    and "m_sent (l_matcher st) = [d1, d2]"
proof -
  obtain e :: matching_engine where e: "represents (e_book e) sample_book" "capacity_of (e_book e) = 4"
    by (rule sample_engine)
  let ?m = "l_matcher (start_loop e None None)" and ?crc = "crc_hash sample_codecs"
  have m: "represents (e_book (m_engine ?m)) sample_book" "capacity_of (e_book (m_engine ?m)) = 4"
    "length (m_report_buf ?m) = 48" "m_wal ?m = None" "m_sent ?m = []"
    using e by (simp_all add: start_loop_def)
  obtain m1 where m1: "process_command ?crc (NewOrder taker_bid) ?m GrowOk = Some m1" "m_wal m1 = None"
    "represents (e_book (m_engine m1)) (sample_book(Ask := [], Bid := [taker_bid\<lparr>o_quantity := 3\<rparr>, resting_bid]))"
    "capacity_of (e_book (m_engine m1)) = 4" "length (m_report_buf m1) = 48" "length (m_sent m1) = 1"
    using process_command_spec [OF m(1-3), of None ?crc "NewOrder taker_bid" GrowOk] m(4,5)
    by (auto simp: sample_add)
  obtain m2 where m2: "process_command ?crc (NewOrder taker_ask) m1 GrowOk = Some m2" "m_wal m2 = None"
    "length (m_sent m2) = 2"
    using process_command_spec [OF m1(3-5), of None ?crc "NewOrder taker_ask" GrowOk] m1(2,6) sample_second_fill
    by auto
  obtain d1 d2 where "m_sent m2 = [d1, d2]" using m2(3) by (auto simp: numeral_2_eq_2 length_Suc_conv)
  moreover have "l_dir (start_loop e None None) = None" by (simp add: start_loop_def)
  ultimately show thesis
    using that [OF e(1)] m1(1,2) m2(1,2) by (auto simp: on_command_def)
qed

theorem subscriber_sees_loss_witness:
  "\<exists>e st d1 d2 r. represents (e_book e) sample_book \<and>
     matching_loop sample_codecs 1 (start_loop e None None)
       [Popped (NewOrder taker_bid) GrowOk SaveOk, Popped (NewOrder taker_ask) GrowOk SaveOk] = Some (st, False) \<and>
     m_sent (l_matcher st) = [d1, d2] \<and> subscribe subscriber_new [Some d2] = [Gap 1 2 1, Printed r]"
proof -
  obtain e st d1 d2 where st: "represents (e_book e) sample_book" "matching_loop sample_codecs 1 (start_loop e None None)
      [Popped (NewOrder taker_bid) GrowOk SaveOk, Popped (NewOrder taker_ask) GrowOk SaveOk] = Some (st, False)"
    "m_sent (l_matcher st) = [d1, d2]" by (rule sample_two_reports)
  have "\<exists>r. subscribe subscriber_new [Some d2] = [Gap 1 2 1, Printed r]"
    using subscriber_sees_loss [OF st(2), of "[]" "[d1]" "[d2]"] st(3) by auto
  with st show ?thesis by blast
qed

section \<open>Recovery\<close>

text \<open>
  C11. Recovery returns on every disk: whatever the log file and the snapshot files hold and
  whatever the file system answers, it neither panics nor loops, and where it succeeds the book
  is well-formed, of the configured capacity, and the log is ready to append to.
\<close>

theorem recover_total:
  "\<exists>r. recover k disk c io = Some r \<and>
     (case r of Inl e \<Rightarrow> True
      | Inr (e, w) \<Rightarrow> (\<exists>A ps. represents (e_book e) A \<and> capacity_of (e_book e) = unat c \<and> wal_ok (crc_hash k) w ps))"
proof -
  obtain r where "recover k disk c io = Some r" "recovered (crc_hash k) c r" using recover_recovered by blast
  then show ?thesis by (auto simp: recovered_def split: sum.split)
qed

definition good_io :: recovery_io where
  "good_io = \<lparr>io_mkdir = True, io_listable = True, io_readable = \<lambda>_. True, io_grow = GrowOk\<rparr>"

lemma good_io_ok: "io_ok good_io"
  by (simp add: io_ok_def good_io_def)

text \<open>Reading intact records up to one that is refused.\<close>

lemma read_all_until:
  assumes "chain crc (i_mmap it) (i_read_pos it) ps e" and "e \<le> i_end_pos it" and "i_start_record it \<le> i_current_record it"
    and "next_record crc (it\<lparr>i_read_pos := e, i_current_record := i_current_record it + length ps\<rparr>) = Some (Some x, it')"
  shows "read_all crc it (Suc (length ps)) =
    Some (map (\<lambda>j. record_item (Suc (i_current_record it + j)) (ps ! j)) [0..<length ps] @ [x])"
  using assms
proof (induction ps arbitrary: it)
  case Nil
  then have "it\<lparr>i_read_pos := e, i_current_record := i_current_record it + length []\<rparr> = it" by simp
  with Nil.prems(4) show ?case by simp
next
  case (Cons pl ps)
  let ?it = "it\<lparr>i_read_pos := i_read_pos it + record_size (length pl), i_current_record := Suc (i_current_record it)\<rparr>"
  have r: "is_rec crc (i_mmap it) (i_read_pos it) pl" and c: "chain crc (i_mmap it) (i_read_pos it + record_size (length pl)) ps e"
    using Cons.prems(1) by simp_all
  have nx: "next_record crc it = Some (Some (record_item (Suc (i_current_record it)) pl), ?it)"
    using next_intact [OF r _ Cons.prems(3)] chain_mono [OF c] Cons.prems(2) by simp
  have "read_all crc ?it (Suc (length ps)) =
      Some (map (\<lambda>j. record_item (Suc (i_current_record ?it + j)) (ps ! j)) [0..<length ps] @ [x])"
    using Cons.IH [of ?it] c Cons.prems(2-4) by (simp del: read_all.simps)
  moreover have "map (\<lambda>j. record_item (Suc (i_current_record it + j)) ((pl # ps) ! j)) [0..<length (pl # ps)] =
      record_item (Suc (i_current_record it)) pl # map (\<lambda>j. record_item (Suc (i_current_record ?it + j)) (ps ! j)) [0..<length ps]"
    unfolding length_Cons map_upt_Suc by simp
  ultimately show ?case
    unfolding length_Cons [of pl ps] read_all.simps(2) [of crc it "Suc (length ps)"] nx by (simp del: read_all.simps upt_Suc)
qed

text \<open>One byte of the record of \<open>c\<close> at \<open>off\<close> is changed: of the stored checksum, or of the payload.\<close>

definition damages :: "(u8 list \<Rightarrow> u32) \<Rightarrow> engine_command \<Rightarrow> nat \<Rightarrow> nat \<Rightarrow> u8 \<Rightarrow> bool" where
  "damages crc c off i v \<longleftrightarrow> off + 4 \<le> i \<and> i < off + 8 \<or>
     off + 8 \<le> i \<and> i < off + 8 + length (command_bytes c) \<and> crc ((command_bytes c)[i - (off + 8) := v]) \<noteq> crc (command_bytes c)"

lemma damaged_no_rec:
  assumes "is_rec crc mm off (command_bytes c)" and "damages crc c off i v" and "v \<noteq> mm ! i"
  shows "no_rec crc (mm[i := v] @ zs) off"
  using assms(2) unfolding damages_def
proof
  assume "off + 4 \<le> i \<and> i < off + 8"
  then show ?thesis using flipped_crc [OF assms(1)] assms(3) by blast
next
  assume "off + 8 \<le> i \<and> i < off + 8 + length (command_bytes c) \<and>
    crc ((command_bytes c)[i - (off + 8) := v]) \<noteq> crc (command_bytes c)"
  moreover then have "i - (off + 8) < length (command_bytes c)" by auto
  ultimately show ?thesis using flipped_payload [OF assms(1), of "i - (off + 8)" v zs] by simp
qed

lemma logs_split:
  assumes "logs crc w (cs @ c # ds)" and "off = sum_list (map (\<lambda>x. record_size (length (command_bytes x))) cs)"
  shows "chain crc (w_mmap w) 0 (map command_bytes cs) off" and "is_rec crc (w_mmap w) off (command_bytes c)"
    and "off + record_size (length (command_bytes c)) \<le> w_write_pos w" and "w_write_pos w \<le> length (w_mmap w)"
proof -
  have ok: "wal_ok crc w (map command_bytes (cs @ c # ds))" using assms(1) by (simp add: logs_def)
  then obtain m where m: "chain crc (w_mmap w) 0 (map command_bytes cs) m" "is_rec crc (w_mmap w) m (command_bytes c)"
    "chain crc (w_mmap w) (m + record_size (length (command_bytes c))) (map command_bytes ds) (w_write_pos w)"
    by (auto simp: wal_ok_def chain_append)
  moreover have "m = off" using chain_end [OF m(1)] assms(2) by (simp add: comp_def)
  ultimately show "chain crc (w_mmap w) 0 (map command_bytes cs) off" "is_rec crc (w_mmap w) off (command_bytes c)"
    "off + record_size (length (command_bytes c)) \<le> w_write_pos w" using chain_mono [OF m(3)] by simp_all
  show "w_write_pos w \<le> length (w_mmap w)" by (rule wal_ok_pos [OF ok])
qed

lemma read_damaged:
  assumes log: "logs crc w (cs @ c # ds)" "off = sum_list (map (\<lambda>x. record_size (length (command_bytes x))) cs)"
    and good: "\<forall>x \<in> set cs. loggable x" and dam: "damages crc c off i v" "v \<noteq> w_mmap w ! i"
    and bad: "bad = w\<lparr>w_mmap := (w_mmap w)[i := v]\<rparr>"
  shows "read_all crc (iter_from bad 0) (Suc (length cs)) =
    Some (map (\<lambda>j. Inr (Suc j, strip_time (cs ! j))) [0..<length cs] @ [Inl (Corruption off)])"
proof -
  let ?mm = "w_mmap w" and ?pl = "command_bytes c" and ?it = "iter_from bad 0"
  let ?at = "?it\<lparr>i_read_pos := off, i_current_record := i_current_record ?it + length (map command_bytes cs)\<rparr>"
  note r = logs_split [OF log]
  note b = is_rec_read(1,2) [OF r(2)]
  have i: "off + 4 \<le> i" using dam(1) by (auto simp: damages_def)
  have "u32_at (?mm[i := v]) off = Some (of_nat (length ?pl))"
    using same_field [of off "?mm[i := v]" ?mm] field_update [of off 4 ?mm i v "[]"] is_rec_read(3) [OF r(2)] b i by simp
  moreover have "(of_nat (length ?pl) :: u32) \<noteq> 0" using is_rec_read(4,7) [OF r(2)] by (metis length_0_conv unat_0)
  ultimately have "next_record crc ?at = Some (Some (Inl (Corruption off)), ?at)"
    using next_damaged [of crc ?at "of_nat (length ?pl)"] damaged_no_rec [OF r(2) dam, of "[]"] r(3,4) is_rec_read(4,7) [OF r(2)]
    by (simp add: iter_from_def bad)
  moreover have "chain crc (i_mmap ?it) (i_read_pos ?it) (map command_bytes cs) off"
    using chain_frame [OF r(1), of "?mm[i := v]"] i r(3,4) by (simp add: iter_from_def bad)
  ultimately show ?thesis
    using read_all_until [of crc ?it "map command_bytes cs" off] r(3) good
    by (simp add: iter_from_def bad record_item_def decode_command_bytes)
qed

text \<open>
  C22. Damage to a record is found, and costs the records from it on. Let one byte of a record of a log be
  changed, of its stored checksum or of its payload, in the latter case so that the checksum of the
  payload is another. An iterator over the map then gives the commands before the record (less
  their time stamps), and reports the corruption with the offset of the record. Reopening the file
  gives exactly the log of the commands before it, and recovery from it, without a snapshot and
  where the file system answers, succeeds with the book of these commands, up to time stamps.
\<close>

theorem damaged_record:
  assumes "logs (crc_hash k) w (cs @ c # ds)" and "\<forall>x \<in> set cs. loggable x"
    and "off = sum_list (map (\<lambda>x. record_size (length (command_bytes x))) cs)"
    and "damages (crc_hash k) c off i v" and "v \<noteq> w_mmap w ! i" and "bad = w\<lparr>w_mmap := (w_mmap w)[i := v]\<rparr>" and "io_ok io"
  shows "read_all (crc_hash k) (iter_from bad 0) (Suc (length cs)) =
      Some (map (\<lambda>j. Inr (Suc j, strip_time (cs ! j))) [0..<length cs] @ [Inl (Corruption off)]) \<and>
    (\<exists>w' e A. wal_open (crc_hash k) (wal_file bad) GrowOk = Some (Inr w') \<and> logs (crc_hash k) w' cs \<and> w_write_pos w' = off \<and>
      recover k \<lparr>d_wal = Some (wal_file bad), d_snapshots = None\<rparr> cap io = Some (Inr (e, w')) \<and>
      represents (e_book e) A \<and> strip_book A = strip_book (a_run (unat cap) (\<lambda>_. []) cs))"
proof -
  have "off \<le> i" using assms(4) by (auto simp: damages_def)
  then obtain w' where w': "wal_open (crc_hash k) (wal_file bad) GrowOk = Some (Inr w')" "logs (crc_hash k) w' cs"
    using reopen_damaged [OF assms(1,3), of "(w_mmap w)[i := v]"] damaged_no_rec [OF logs_split(2) [OF assms(1,3)] assms(4,5)]
    by (auto simp: assms(6))
  moreover have "w_write_pos w' = off" using logs_pos [OF w'(2)] assms(3) by simp
  moreover obtain e A where "recover k \<lparr>d_wal = Some (wal_file bad), d_snapshots = None\<rparr> cap io = Some (Inr (e, w'))"
    "represents (e_book e) A" "live_with cap (all_logged cs) A"
    using recover_opened [of k "wal_file bad" io w' "all_logged cs" "\<lparr>d_wal = Some (wal_file bad), d_snapshots = None\<rparr>" None cap]
      w' assms(2,7) by (auto simp: io_ok_def load_latest_def)
  moreover from this(3) have "strip_book A = strip_book (a_run (unat cap) (\<lambda>_. []) cs)"
    using kept_all [of "all_logged cs"] by (fastforce simp: live_with_def live_for_def comp_def)
  ultimately show ?thesis using read_damaged [OF assms(1,3,2,4,5,6)] by blast
qed

theorem damaged_record_witness:
  "\<exists>w bad e w' A. logs sum_crc w [CancelOrder 5, CancelOrder 6] \<and> bad = w\<lparr>w_mmap := (w_mmap w)[28 := w_mmap w ! 28 XOR 0xFF]\<rparr> \<and>
     read_all sum_crc (iter_from bad 0) 2 = Some [Inr (1, CancelOrder 5), Inl (Corruption 24)] \<and>
     recover sample_codecs \<lparr>d_wal = Some (wal_file bad), d_snapshots = None\<rparr> 4 good_io = Some (Inr (e, w')) \<and>
     logs sum_crc w' [CancelOrder 5] \<and> represents (e_book e) A \<and> strip_book A = strip_book (\<lambda>_. [])"
proof -
  obtain w where w: "logs sum_crc w [CancelOrder 5, CancelOrder 6]" by (rule sample_log)
  have crc: "crc_hash sample_codecs = sum_crc" by (simp add: sample_codecs_def)
  let ?bad = "w\<lparr>w_mmap := (w_mmap w)[28 := w_mmap w ! 28 XOR 0xFF]\<rparr>"
  have "logs (crc_hash sample_codecs) w ([CancelOrder 5] @ CancelOrder 6 # [])" using w crc by simp
  moreover have "24 = sum_list (map (\<lambda>x. record_size (length (command_bytes x))) [CancelOrder 5])" by (simp add: record_sizes)
  moreover have "damages (crc_hash sample_codecs) (CancelOrder 6) 24 28 (w_mmap w ! 28 XOR 0xFF)" by (simp add: damages_def)
  ultimately have d: "read_all sum_crc (iter_from ?bad 0) (Suc (length [CancelOrder 5])) =
      Some (map (\<lambda>j. Inr (Suc j, strip_time ([CancelOrder 5] ! j))) [0..<length [CancelOrder 5]] @ [Inl (Corruption 24)])"
    "\<exists>w' e A. logs sum_crc w' [CancelOrder 5] \<and>
      recover sample_codecs \<lparr>d_wal = Some (wal_file ?bad), d_snapshots = None\<rparr> 4 good_io = Some (Inr (e, w')) \<and>
      represents (e_book e) A \<and> strip_book A = strip_book (a_run (unat (4 :: u32)) (\<lambda>_. []) [CancelOrder 5])"
    using damaged_record [OF _ _ _ _ flipped refl good_io_ok, of sample_codecs w "[CancelOrder 5]" "CancelOrder 6" "[]" 24 28 4]
    unfolding crc by auto
  moreover have "a_run (unat (4 :: u32)) (\<lambda>_. []) [CancelOrder 5] = (\<lambda>_. [])"
    by (simp add: a_cancel_order_def resting_def)
  ultimately show ?thesis using w by (auto simp: numeral_2_eq_2)
qed

section \<open>Restarts\<close>

lemma sample_codecs_ok: "bincode_ok sample_codecs"
  by (auto simp: bincode_ok_def sample_codecs_def Let_def take_bit_nat_eq_self unat_of_nat split: if_splits)

lemma lifetime_command:
  assumes "lifetime k interval c full st" and "bincode_ok k" and "loggable cmd"
  shows "\<exists>st'. lifetime k interval c (full @ [(cmd, True)]) st'"
proof -
  have inv: "log_inv k c (l_matcher st) full" using lifetime_inv [OF assms(1,2)] by blast
  then obtain st' where "on_command k interval st cmd GrowOk SaveOk = Some st'"
    unfolding log_inv_def using on_command_ok by blast
  from lifetime.command [OF assms(1,3) this] show ?thesis unfolding history_after_grown [OF inv] by blast
qed

lemma sample_lifetime:
  obtains st where "lifetime sample_codecs 1 4 (all_logged sample_commands) st"
proof -
  obtain st where "lifetime sample_codecs 1 4 [] st"
    using first_start_succeeds [OF good_io_ok, of sample_codecs 4] lifetime.first_start by blast
  then obtain st where "lifetime sample_codecs 1 4 [(NewOrder resting_ask, True)] st"
    using lifetime_command [OF _ sample_codecs_ok, of 1 4 "[]" st "NewOrder resting_ask"] by (auto simp: sample_defs)
  then obtain st where "lifetime sample_codecs 1 4 (all_logged sample_commands) st"
    using lifetime_command [OF _ sample_codecs_ok, of 1 4 "[(NewOrder resting_ask, True)]" st "NewOrder resting_bid"]
    by (auto simp: sample_defs sample_commands_def)
  then show thesis by (rule that)
qed

text \<open>The book of what is kept of a history; where all appends succeeded, of the whole history.\<close>

lemma live_with_kept:
  assumes "live_with c full A"
  obtains h where "kept full h" and "(\<forall>x \<in> set full. snd x) \<longrightarrow> h = full"
    and "strip_book A = strip_book (a_run (unat c) (\<lambda>_. []) (map fst h))"
  using assms kept_all by (auto simp: live_with_def live_for_def)



text \<open>
  C6. A crash loses no logged command. Take a gateway with a data directory at any point of its lifetime,
  after commands, appends and snapshots that succeeded or failed, and restarts, and a crash in the
  middle of an append; \<open>bincode\<close> is taken to read back what it wrote. Whatever the crash leaves behind
  the log, as long as that is no record with a fitting checksum, a restart succeeds where the
  directories can be created and listed and the log file can be grown and mapped. It finds the log of
  all commands whose append had succeeded, and the book of the commands processed so far (up to time
  stamps), less perhaps some whose append had failed: where none failed, the book of all of them.
\<close>

theorem crash_recovery:
  assumes "lifetime k interval c full st" and "bincode_ok k" and "io_ok io"
    and "m_wal (l_matcher st) = Some w" and "l_dir st = Some dir"
    and "f = take (w_write_pos w) (w_mmap w) @ tail"
    and "no_rec (crc_hash k) (f @ replicate (DEFAULT_INITIAL_SIZE - length f) 0) (w_write_pos w)"
  shows "\<exists>e w' A h. recover k \<lparr>d_wal = Some f, d_snapshots = dir\<rparr> c io = Some (Inr (e, w')) \<and>
    logs (crc_hash k) w' (logged full) \<and> represents (e_book e) A \<and> kept full h \<and> ((\<forall>x \<in> set full. snd x) \<longrightarrow> h = full) \<and>
    strip_book A = strip_book (a_run (unat c) (\<lambda>_. []) (map fst h))"
proof -
  have inv: "logs (crc_hash k) w (logged full)" "\<forall>x \<in> set (logged full). loggable x" "dir_ok k c full dir"
    using lifetime_inv [OF assms(1,2)] assms(4,5) logged_subset [of _ full] by (auto simp: log_inv_def)
  obtain latest where l: "load_latest k (io_listable io) (io_readable io) dir = Inr latest"
    "\<And>s. latest = Some s \<Longrightarrow> snapshot_of_run c full s" using io_ok_latest [OF assms(3) inv(3)] by blast
  have "io_mkdir io" "io_grow io = GrowOk" using assms(3) by (simp_all add: io_ok_def)
  then obtain e w' A where "recover k \<lparr>d_wal = Some f, d_snapshots = dir\<rparr> c io = Some (Inr (e, w'))"
    "logs (crc_hash k) w' (logged full)" "represents (e_book e) A" "live_with c full A"
    using recover_crash [OF inv(1,2) assms(6,7), of "\<lparr>d_wal = Some f, d_snapshots = dir\<rparr>" io latest c] l by auto
  moreover from live_with_kept [OF this(4)] obtain h where "kept full h" "(\<forall>x \<in> set full. snd x) \<longrightarrow> h = full"
    "strip_book A = strip_book (a_run (unat c) (\<lambda>_. []) (map fst h))" by blast
  ultimately show ?thesis by blast
qed

text \<open>A header without its checksum is no record.\<close>

lemma torn_header_no_rec:
  assumes "length pre = p"
  shows "no_rec sum_crc (pre @ [40, 0, 0, 0] @ replicate n 0) p"
  unfolding no_rec_def
proof (intro allI notI)
  fix pl
  let ?mm = "pre @ [40, 0, 0, 0] @ replicate n 0"
  assume r: "is_rec sum_crc ?mm p pl"
  have d: "drop (p + 4) ?mm = replicate n 0" "drop (p + 8) ?mm = replicate (n - 4) 0" using assms by simp_all
  have zero: "sum_list (map ucast (replicate j 0 :: u8 list)) = (0 :: u32)" for j by (induction j) simp_all
  have "pl = take (length pl) (drop (p + 8) ?mm)" using r by (simp add: is_rec_def)
  also have "\<dots> = replicate (min (length pl) (n - 4)) 0" by (simp only: d(2) take_replicate min.commute)
  finally have "sum_crc pl = 7" using zero by (metis add_0_right sum_crc_def)
  moreover have "p + 8 \<le> length ?mm" using is_rec_read(1,2) [OF r] by linarith
  then have "u32_at ?mm (p + 4) = Some 0"
    using assms d(1) zero_bytes by (simp add: u32_at_in numeral_eq_Suc)
  ultimately show False using is_rec_read(5) [OF r] by simp
qed

theorem crash_recovery_witness:
  "\<exists>st w dir e w' A. lifetime sample_codecs 1 4 (all_logged sample_commands) st \<and> m_wal (l_matcher st) = Some w \<and>
     recover sample_codecs \<lparr>d_wal = Some (take (w_write_pos w) (w_mmap w) @ [40, 0, 0, 0]), d_snapshots = dir\<rparr> 4 good_io =
       Some (Inr (e, w')) \<and>
     represents (e_book e) A \<and> strip_book A = strip_book sample_book"
proof -
  obtain st where st: "lifetime sample_codecs 1 4 (all_logged sample_commands) st" by (rule sample_lifetime)
  from lifetime_inv [OF this sample_codecs_ok] obtain w dir where w: "m_wal (l_matcher st) = Some w" "l_dir st = Some dir"
    "logs sum_crc w sample_commands" by (auto simp: log_inv_def sample_codecs_def)
  let ?f = "take (w_write_pos w) (w_mmap w) @ [40, 0, 0, 0]"
  have "length (take (w_write_pos w) (w_mmap w)) = w_write_pos w"
    using wal_ok_pos [OF w(3) [unfolded logs_def]] by simp
  from torn_header_no_rec [OF this]
  have "no_rec (crc_hash sample_codecs) (?f @ replicate (DEFAULT_INITIAL_SIZE - length ?f) 0) (w_write_pos w)"
    by (simp add: sample_codecs_def)
  from crash_recovery [OF st sample_codecs_ok good_io_ok w(1,2) refl this] sample_run
  have "\<exists>e w' A. recover sample_codecs \<lparr>d_wal = Some ?f, d_snapshots = dir\<rparr> 4 good_io = Some (Inr (e, w')) \<and>
      represents (e_book e) A \<and> strip_book A = strip_book sample_book" by (auto simp: comp_def)
  with st w(1) show ?thesis by blast
qed

text \<open>
  C38. A log shorter than its snapshot loses commands. Where the newest snapshot covers more records
  than the log holds (the snapshot was saved before the pages of the log were written back), a
  restart takes the book of the snapshot, but the log goes on counting from its own records. A
  command processed then is applied and logged, and the next restart skips it: the book is again
  that of the snapshot.
\<close>

theorem short_log_loses_command:
  assumes "logs (crc_hash k) w cs" and "clean w" and "\<forall>x \<in> set (cs @ [cmd]). loggable x" and "io_ok io"
    and "load_latest k (io_listable io) (io_readable io) dir = Inr (Some snap)" and "length cs < sn_wal_record_count snap"
    and "restore snap c = Some (Inr e0)" and "represents (e_book e0) A" and "1 < interval"
  shows "\<exists>e w1 st w2 e' w3. recover k \<lparr>d_wal = Some (wal_file w), d_snapshots = dir\<rparr> c io = Some (Inr (e, w1)) \<and>
    represents (e_book e) A \<and>
    on_command k interval (start_loop e (Some w1) (Some dir)) cmd GrowOk sio = Some st \<and>
    represents (e_book (m_engine (l_matcher st))) (a_command (unat c) A cmd) \<and>
    m_wal (l_matcher st) = Some w2 \<and> logs (crc_hash k) w2 (cs @ [cmd]) \<and> l_dir st = Some dir \<and>
    recover k \<lparr>d_wal = Some (wal_file w2), d_snapshots = dir\<rparr> c io = Some (Inr (e', w3)) \<and> represents (e_book e') A"
proof -
  have io: "io_mkdir io" "io_grow io = GrowOk" using assms(4) by (simp_all add: io_ok_def)
  have cap: "capacity_of (e_book e0) = unat c" using restore_total [of snap c] assms(7) by auto
  note covered = recover_covered [where io = io and k = k and c = c, OF _ _ _ _ io _ assms(7,8) cap]
  obtain e w1 where e: "recover k \<lparr>d_wal = Some (wal_file w), d_snapshots = dir\<rparr> c io = Some (Inr (e, w1))"
    "logs (crc_hash k) w1 cs" "clean w1" "represents (e_book e) A" "capacity_of (e_book e) = unat c"
    using covered [OF assms(1,2), of "\<lparr>d_wal = Some (wal_file w), d_snapshots = dir\<rparr>"] assms(3,5,6) by auto
  let ?m = "l_matcher (start_loop e (Some w1) (Some dir))"
  obtain w2 where w2: "append (crc_hash k) w1 cmd GrowOk = Some (Inr (Suc (length cs)), w2)"
    "logs (crc_hash k) w2 (cs @ [cmd])" "clean w2"
    using append_clean [OF e(2) [unfolded logs_def] e(3)] by (auto simp: logs_def)
  obtain m' where m': "process_command (crc_hash k) cmd ?m GrowOk = Some m'" "m_wal m' = Some w2"
    "represents (e_book (m_engine m')) (a_command (unat c) A cmd)"
    using process_command_spec [of ?m A "unat c" "Some w2" "crc_hash k" cmd GrowOk] e w2(1) by (auto simp: start_loop_def)
  obtain st where "on_command k interval (start_loop e (Some w1) (Some dir)) cmd GrowOk sio = Some st"
    "l_matcher st = m'" "l_dir st = Some dir"
    using m'(1,2) assms(9) by (simp add: on_command_def start_loop_def)
  moreover obtain e' w3 where "recover k \<lparr>d_wal = Some (wal_file w2), d_snapshots = dir\<rparr> c io = Some (Inr (e', w3))"
    "represents (e_book e') A"
    using covered [OF w2(2,3), of "\<lparr>d_wal = Some (wal_file w2), d_snapshots = dir\<rparr>"] assms(3,5,6) by auto
  ultimately show ?thesis using e m' w2 by blast
qed

theorem short_log_loses_command_witness:
  "\<exists>w e w1 st w2 e' w3 A. logs sum_crc w [] \<and>
     recover sample_codecs \<lparr>d_wal = Some (wal_file w), d_snapshots = Some sample_directory\<rparr> 4 good_io = Some (Inr (e, w1)) \<and>
     on_command sample_codecs 2 (start_loop e (Some w1) (Some (Some sample_directory))) (NewOrder resting_ask) GrowOk SaveOk = Some st \<and>
     represents (e_book (m_engine (l_matcher st))) A \<and> A Ask = [resting_ask] \<and> m_wal (l_matcher st) = Some w2 \<and>
     recover sample_codecs \<lparr>d_wal = Some (wal_file w2), d_snapshots = Some sample_directory\<rparr> 4 good_io = Some (Inr (e', w3)) \<and>
     represents (e_book e') (\<lambda>_. [])"
proof -
  obtain w where w: "logs (crc_hash sample_codecs) w []" "clean w"
    using open_empty [of "crc_hash sample_codecs" DEFAULT_INITIAL_SIZE] by (auto simp: logs_def)
  have "map_option (\<lambda>s. (sn_orders s, sn_wal_record_count s))
      (projr (load_latest sample_codecs True (\<lambda>_. True) (Some sample_directory))) = Some ([], 4)" by code_simp
  moreover obtain latest where "load_latest sample_codecs True (\<lambda>_. True) (Some sample_directory) = Inr latest"
    by (auto simp: load_latest_def)
  ultimately obtain snap where snap: "load_latest sample_codecs (io_listable good_io) (io_readable good_io) (Some sample_directory) =
      Inr (Some snap)" "sn_orders snap = []" "sn_wal_record_count snap = 4" by (auto simp: good_io_def)
  obtain e0 where e0: "restore snap 4 = Some (Inr e0)" "represents (e_book e0) (\<lambda>_. [])"
    using restore_refines [of "[]" 4] snap(2) by (auto simp: restore_def)
  have "\<forall>x \<in> set ([] @ [NewOrder resting_ask]). loggable x" "length [] < sn_wal_record_count snap" "(1 :: nat) < 2"
    using snap(3) by (simp_all add: sample_defs)
  note short_log_loses_command [OF w this(1) good_io_ok snap(1) this(2) e0 this(3), of SaveOk]
  moreover have "a_command (unat (4 :: u32)) (\<lambda>_. []) (NewOrder resting_ask) Ask = [resting_ask]"
    by (simp add: a_add_order_def sample_defs Let_def resting_def enqueue_def ids_def)
  ultimately show ?thesis using w by (fastforce simp: sample_codecs_def)
qed

section \<open>The two threads\<close>

text \<open>
  A sample run: the client thread pushes one command and sets the flag; the matching thread pops
  it, finds the ring empty, sees the flag, drains and stops.
\<close>

definition gate_at ::
  "engine_command option list \<Rightarrow> nat \<Rightarrow> nat \<Rightarrow> nat \<Rightarrow> engine_command p_pc \<Rightarrow> engine_command c_pc \<Rightarrow> bool \<Rightarrow> mode \<Rightarrow> gw" where
  "gate_at buf sent received seen ppc cpc shutdown md =
     \<lparr>q_spsc = \<lparr>s_ring = \<lparr>r_buffer = buf, r_capacity = 2, r_mask = 1, r_head = of_nat sent, r_tail = of_nat received\<rparr>,
        s_prod = \<lparr>p_cached_head = of_nat sent, p_cached_tail = 0\<rparr>,
        s_cons = \<lparr>c_cached_tail = of_nat received, c_cached_head = of_nat seen\<rparr>,
        s_ppc = ppc, s_cpc = cpc, s_sent = take sent [CancelOrder 5], s_received = take received [CancelOrder 5],
        s_tail_seen = 0, s_head_seen = seen\<rparr>,
      q_todo = drop sent [CancelOrder 5], q_shutdown = shutdown, q_mode = md\<rparr>"

lemma gate_start: "gw_reachable 2 [CancelOrder 5] (gate_at [None, None] 0 0 0 PIdle CIdle False Running)"
proof -
  have "is_power_of_two 2" by (auto simp: is_power_of_two_def intro: bexI [of _ 1])
  moreover have "replicate 2 None = [None, None]" by (simp add: numeral_2_eq_2)
  ultimately have "spsc_init 2 = Some (q_spsc (gate_at [None, None] 0 0 0 PIdle CIdle False Running))"
    by (simp add: spsc_init_def ring_buffer_def gate_at_def)
  from gw_reachable.start [OF this, of "[CancelOrder 5]"] show ?thesis by (simp add: gate_at_def)
qed

lemma gate_pushed:
  "gw_reachable 2 [CancelOrder 5] (gate_at [Some (CancelOrder 5), None] 1 0 0 PIdle CIdle False Running)"
proof -
  let ?c = "CancelOrder 5"
  let ?g0 = "gate_at [None, None] 0 0 0 PIdle CIdle False Running"
  let ?g1 = "gate_at [None, None] 0 0 0 (PWrite ?c) CIdle False Running"
  let ?g2 = "gate_at [Some ?c, None] 0 0 0 (PPublish ?c) CIdle False Running"
  let ?g3 = "gate_at [Some ?c, None] 1 0 0 PIdle CIdle False Running"
  have "spsc_step (q_spsc ?g0) (q_spsc ?g1)"
    using spsc_step.push_call [of "q_spsc ?g0" ?c] by (simp add: gate_at_def looks_full_def)
  from gw_reachable.step [OF gate_start gw_step.produce [OF this]] have r1: "gw_reachable 2 [?c] ?g1"
    by (simp add: gate_at_def)
  have "spsc_step (q_spsc ?g1) (q_spsc ?g2)"
    using spsc_step.push_write [of "q_spsc ?g1" ?c "s_ring (q_spsc ?g2)"] by (simp add: gate_at_def write_slot_def)
  from gw_reachable.step [OF r1 gw_step.produce [OF this]] have r2: "gw_reachable 2 [?c] ?g2"
    by (simp add: gate_at_def)
  have "spsc_step (q_spsc ?g2) (q_spsc ?g3)"
    using spsc_step.push_publish [of "q_spsc ?g2" ?c "s_ring (q_spsc ?g3)" "s_prod (q_spsc ?g3)"]
    by (simp add: gate_at_def publish_head_def)
  from gw_reachable.step [OF r2 gw_step.produce [OF this]] show ?thesis by (simp add: gate_at_def)
qed

lemma gate_popped: "gw_reachable 2 [CancelOrder 5] (gate_at [None, None] 1 1 1 PIdle CIdle False Running)"
proof -
  let ?c = "CancelOrder 5"
  let ?g0 = "gate_at [Some ?c, None] 1 0 0 PIdle CIdle False Running"
  let ?g1 = "gate_at [Some ?c, None] 1 0 0 PIdle CLoad False Running"
  let ?g2 = "gate_at [Some ?c, None] 1 0 1 PIdle CRead False Running"
  let ?g3 = "gate_at [None, None] 1 0 1 PIdle (CPublish ?c) False Running"
  let ?g4 = "gate_at [None, None] 1 1 1 PIdle CIdle False Running"
  have "spsc_step (q_spsc ?g0) (q_spsc ?g1)"
    using spsc_step.pop_call [of "q_spsc ?g0"] by (simp add: gate_at_def looks_empty_def)
  from gw_reachable.step [OF gate_pushed gw_step.consume [OF this]] have r1: "gw_reachable 2 [?c] ?g1"
    by (simp add: gate_at_def saw_empty_def)
  have "spsc_step (q_spsc ?g1) (q_spsc ?g2)"
    using spsc_step.pop_load [of "q_spsc ?g1" 1 "s_cons (q_spsc ?g2)"] by (simp add: gate_at_def looks_empty_def)
  from gw_reachable.step [OF r1 gw_step.consume [OF this]] have r2: "gw_reachable 2 [?c] ?g2"
    by (simp add: gate_at_def saw_empty_def)
  have "spsc_step (q_spsc ?g2) (q_spsc ?g3)"
    using spsc_step.pop_read [of "q_spsc ?g2" ?c "s_ring (q_spsc ?g3)"] by (simp add: gate_at_def take_slot_def)
  from gw_reachable.step [OF r2 gw_step.consume [OF this]] have r3: "gw_reachable 2 [?c] ?g3"
    by (simp add: gate_at_def saw_empty_def)
  have "spsc_step (q_spsc ?g3) (q_spsc ?g4)"
    using spsc_step.pop_publish [of "q_spsc ?g3" ?c "s_ring (q_spsc ?g4)" "s_cons (q_spsc ?g4)"]
    by (simp add: gate_at_def publish_tail_def)
  from gw_reachable.step [OF r3 gw_step.consume [OF this]] show ?thesis by (simp add: gate_at_def saw_empty_def)
qed

text \<open>A call of \<open>pop\<close> that finds the ring empty, in either mode.\<close>

lemma gate_empty:
  assumes "gw_reachable 2 [CancelOrder 5] (gate_at [None, None] 1 1 1 PIdle CIdle sd md)"
    and "md = Running \<or> md = Draining"
  shows "gw_reachable 2 [CancelOrder 5] (gate_at [None, None] 1 1 1 PIdle CIdle sd (after_empty md))"
proof -
  let ?g0 = "gate_at [None, None] 1 1 1 PIdle CIdle sd md"
  let ?g1 = "gate_at [None, None] 1 1 1 PIdle CLoad sd md"
  have "spsc_step (q_spsc ?g0) (q_spsc ?g1)"
    using spsc_step.pop_call [of "q_spsc ?g0"] by (simp add: gate_at_def looks_empty_def)
  from gw_reachable.step [OF assms(1) gw_step.consume [OF this]] assms(2)
  have r1: "gw_reachable 2 [CancelOrder 5] ?g1" by (simp add: gate_at_def saw_empty_def)
  have "spsc_step (q_spsc ?g1) (q_spsc ?g0)"
    using spsc_step.pop_load [of "q_spsc ?g1" 1 "s_cons (q_spsc ?g0)"] by (simp add: gate_at_def looks_empty_def)
  from gw_reachable.step [OF r1 gw_step.consume [OF this]] assms(2) show ?thesis
    by (simp add: gate_at_def saw_empty_def)
qed

lemma gate_stopped: "gw_reachable 2 [CancelOrder 5] (gate_at [None, None] 1 1 1 PIdle CIdle True Stopped)"
proof -
  have "gw_reachable 2 [CancelOrder 5] (gate_at [None, None] 1 1 1 PIdle CIdle False Checking)"
    using gate_empty [OF gate_popped] by simp
  from gw_reachable.step [OF this gw_step.set_shutdown]
  have "gw_reachable 2 [CancelOrder 5] (gate_at [None, None] 1 1 1 PIdle CIdle True Checking)" by (simp add: gate_at_def)
  from gw_reachable.step [OF this gw_step.check [of _ True]]
  have "gw_reachable 2 [CancelOrder 5] (gate_at [None, None] 1 1 1 PIdle CIdle True Draining)" by (simp add: gate_at_def)
  from gate_empty [OF this] show ?thesis by simp
qed

text \<open>
  C21. A shutdown loses nothing and is always possible. Under every interleaving the matching thread
  has received a prefix of the commands of the client thread, in order and each once; when it has
  stopped it has received all of them, although it may look at a stale flag and a stale ring; and
  whatever the two threads have done so far, a run leads from there to that stop, so that no
  interleaving leaves them waiting for each other.
\<close>

theorem shutdown_complete:
  assumes "gw_reachable capacity cmds g"
  shows "prefix (s_received (q_spsc g)) cmds \<and> (q_mode g = Stopped \<longrightarrow> s_received (q_spsc g) = cmds) \<and>
    (\<exists>g'. gw_step\<^sup>*\<^sup>* g g' \<and> q_mode g' = Stopped \<and> s_received (q_spsc g') = cmds)"
proof -
  from gw_can_stop [OF gw_reachable_inv [OF assms]] obtain g' where g': "gw_step\<^sup>*\<^sup>* g g'" "q_mode g' = Stopped" by blast
  with gw_received_prefix(2) [OF gw_reachable_steps [OF g'(1) assms]] gw_received_prefix [OF assms] show ?thesis by blast
qed

theorem shutdown_complete_witness:
  "(\<exists>g. gw_reachable 2 [CancelOrder 5] g \<and> q_mode g = Stopped \<and> s_received (q_spsc g) = [CancelOrder 5]) \<and>
   (\<exists>g'. gw_step\<^sup>*\<^sup>* (gate_at [None, None] 0 0 0 PIdle CIdle False Running) g' \<and> q_mode g' = Stopped \<and>
     s_received (q_spsc g') = [CancelOrder 5])"
proof -
  let ?g = "gate_at [None, None] 1 1 1 PIdle CIdle True Stopped"
  have "q_mode ?g = Stopped" by (simp add: gate_at_def)
  with shutdown_complete [OF gate_stopped] shutdown_complete [OF gate_start] gate_stopped show ?thesis by blast
qed

section \<open>From the bytes of the client to the book\<close>

text \<open>
  The book \<open>run\<close> starts from: that of a successful recovery, and an empty one without a data directory or
  where recovery fails.
\<close>

definition starts_from :: "codecs \<Rightarrow> gateway_config \<Rightarrow> disk \<Rightarrow> recovery_io \<Rightarrow> abook \<Rightarrow> bool" where
  "starts_from k config disk io A \<longleftrightarrow>
     (case g_data_dir config of
        None \<Rightarrow> A = (\<lambda>_. [])
      | Some _ \<Rightarrow> (case recover k disk (g_arena_capacity config) io of
            Some (Inr (e, w)) \<Rightarrow> represents (e_book e) A
          | _ \<Rightarrow> A = (\<lambda>_. [])))"

lemma run_start_reporting:
  assumes "run_start k config disk io = Some (ring, st)"
  shows "\<exists>A. starts_from k config disk io A \<and> reporting (crc_hash k) (unat (g_arena_capacity config)) A [] (l_matcher st)"
proof -
  let ?c = "g_arena_capacity config"
  have fresh: "reporting (crc_hash k) (unat ?c) (\<lambda>_. []) [] (l_matcher (start_loop (engine_with_capacity ?c) None None))"
    using engine_new_represents by (intro reporting_start) (simp add: matcher_ok_def start_loop_def)
  obtain r where r: "recover k disk ?c io = Some r" "recovered (crc_hash k) ?c r" using recover_recovered by blast
  show ?thesis
  proof (cases "g_data_dir config")
    case None
    then have "st = start_loop (engine_with_capacity ?c) None None"
      using assms by (auto simp: run_start_def split: Option.bind_splits)
    then show ?thesis using fresh None by (auto simp: starts_from_def)
  next
    case (Some d)
    show ?thesis
    proof (cases r)
      case (Inl e)
      then have "st = start_loop (engine_with_capacity ?c) None None"
        using assms Some r(1) by (auto simp: run_start_def split: Option.bind_splits)
      then show ?thesis using fresh Some r(1) Inl by (auto simp: starts_from_def)
    next
      case (Inr x)
      obtain e w where x: "x = (e, w)" by fastforce
      with r(2) Inr obtain A ps where A: "represents (e_book e) A" "capacity_of (e_book e) = unat ?c" "wal_ok (crc_hash k) w ps"
        by (auto simp: recovered_def)
      have "st = start_loop e (Some w) (Some (d_snapshots disk))"
        using assms Some r(1) Inr x by (auto simp: run_start_def split: Option.bind_splits)
      moreover have "reporting (crc_hash k) (unat ?c) A [] (l_matcher (start_loop e (Some w) (Some (d_snapshots disk))))"
        using A by (intro reporting_start) (auto simp: matcher_ok_def start_loop_def)
      ultimately show ?thesis using A(1) Some r(1) Inr x by (auto simp: starts_from_def)
    qed
  qed
qed

text \<open>
  C9. The gateway from end to end, on any disk and whatever the file system answers. When start-up
  does not panic (the ring has a power of two as its capacity), the sockets can be set up, the two threads run to a stop in any interleaving, and the matching thread observes
  what the ring delivered to it, \<open>run\<close> returns with the result of the client side, whether that is an
  error or not. The book is then the one that the commands in the bytes of the client lead to from the
  book \<open>run\<close> started from: the recovered one, or an empty one where there is no data directory or
  recovery fails. And a subscriber that receives the datagrams prints one report for each fill that
  these commands return, in order and numbered from one; a refused order returns none, also where it
  had traded before it was refused for its id.
\<close>

theorem run_end_to_end:
  assumes "run_start k config disk io = Some (ring, st)" and "n_udp net \<and> n_listen net \<and> n_accept net"
    and "handle_client now 0 fin bytes = (cmds, result, flag)"
    and "gw_reachable (g_ring_capacity config) cmds g" and "q_mode g = Stopped"
    and "consumed obs = s_received (q_spsc g)" and "loop_ended obs"
  shows "\<exists>st' A. run k config disk io net now fin bytes obs = Some (result, st') \<and> starts_from k config disk io A \<and>
    represents (e_book (m_engine (l_matcher st'))) (a_run (unat (g_arena_capacity config)) A cmds) \<and>
    subscribe subscriber_new (map Some (m_sent (l_matcher st'))) =
      map Printed (numbered 0 (run_fills (unat (g_arena_capacity config)) A cmds))"
proof -
  let ?cap = "unat (g_arena_capacity config)"
  have cmds: "consumed obs = cmds" using gw_received_prefix(2) [OF assms(4,5)] assms(6) by simp
  obtain A where A: "starts_from k config disk io A" "reporting (crc_hash k) ?cap A [] (l_matcher st)"
    using run_start_reporting [OF assms(1)] by blast
  from matching_loop_reporting [OF A(2), of "g_snapshot_interval config" obs] obtain st' where
    st': "matching_loop k (g_snapshot_interval config) st obs = Some (st', True)" "reporting (crc_hash k) ?cap A cmds (l_matcher st')"
    using assms(7) cmds by auto
  then have "run k config disk io net now fin bytes obs = Some (result, st')"
    using assms(1-3) by (simp add: run_def)
  then show ?thesis using A(1) st'(2) subscribe_all by (auto simp: reporting_def matcher_ok_def)
qed

text \<open>Every run of the two threads can be brought to its stop.\<close>

lemma gw_stops:
  assumes "spsc_init capacity = Some (s :: engine_command spsc_state)"
  obtains g where "gw_reachable capacity cmds g" and "q_mode g = Stopped" and "s_received (q_spsc g) = cmds"
proof -
  note r = gw_reachable.start [OF assms, of cmds]
  from gw_can_stop [OF gw_reachable_inv [OF r]] obtain g where g: "gw_step\<^sup>*\<^sup>* \<lparr>q_spsc = s, q_todo = cmds, q_shutdown = False, q_mode = Running\<rparr> g"
    "q_mode g = Stopped" by blast
  have "gw_reachable capacity cmds g" by (rule gw_reachable_steps [OF g(1) r])
  with g(2) gw_received_prefix(2) show thesis using that by blast
qed

theorem run_end_to_end_witness:
  "\<exists>st'. run sample_codecs (gateway_config_default\<lparr>g_ring_capacity := 2, g_arena_capacity := 1024\<rparr>)
       \<lparr>d_wal = None, d_snapshots = None\<rparr> good_io \<lparr>n_udp = True, n_listen = True, n_accept = True\<rparr> of_nat Eof
       (new_order_bytes \<lparr>o_id = 1, o_trader_id = 10, o_side = Ask, o_price = I64 100, o_quantity = 50, o_timestamp = 0\<rparr> @
        new_order_bytes \<lparr>o_id = 2, o_trader_id = 20, o_side = Bid, o_price = I64 100, o_quantity = 50, o_timestamp = 0\<rparr>)
       [Popped (NewOrder \<lparr>o_id = 1, o_trader_id = 10, o_side = Ask, o_price = I64 100, o_quantity = 50, o_timestamp = 0\<rparr>) GrowOk SaveOk,
        Popped (NewOrder \<lparr>o_id = 2, o_trader_id = 20, o_side = Bid, o_price = I64 100, o_quantity = 50, o_timestamp = 1\<rparr>) GrowOk SaveOk,
        EmptySeen True, EmptySeen True] = Some (Inr (), st') \<and>
     subscribe subscriber_new (map Some (m_sent (l_matcher st'))) = [Printed \<lparr>x_seq_num = 1, x_taker_order_id = 2,
       x_maker_order_id = 1, x_price = I64 100, x_quantity = 50, x_timestamp = 1\<rparr>]"
proof -
  let ?config = "gateway_config_default\<lparr>g_ring_capacity := 2, g_arena_capacity := 1024\<rparr>"
  let ?disk = "\<lparr>d_wal = None, d_snapshots = None\<rparr>" and ?net = "\<lparr>n_udp = True, n_listen = True, n_accept = True\<rparr>"
  let ?ask = "\<lparr>o_id = 1, o_trader_id = 10, o_side = Ask, o_price = I64 100, o_quantity = 50, o_timestamp = 0\<rparr>"
    and ?bid = "\<lambda>t. \<lparr>o_id = 2, o_trader_id = 20, o_side = Bid, o_price = I64 100, o_quantity = 50, o_timestamp = t\<rparr>"
  let ?bytes = "new_order_bytes ?ask @ new_order_bytes (?bid 0)" and ?cmds = "[NewOrder ?ask, NewOrder (?bid 1)]"
  let ?obs = "[Popped (NewOrder ?ask) GrowOk SaveOk, Popped (NewOrder (?bid 1)) GrowOk SaveOk, EmptySeen True, EmptySeen True]"
  have "is_power_of_two 2" by (auto simp: is_power_of_two_def intro: bexI [of _ 1])
  then obtain ring :: "engine_command spsc_state" where ring: "spsc_init 2 = Some ring" by (simp add: spsc_init_def ring_buffer_def)
  then obtain st where st: "run_start sample_codecs ?config ?disk good_io = Some (ring, st)"
    by (simp add: run_start_def gateway_config_default_def)
  have c: "handle_client of_nat 0 Eof ?bytes = (?cmds, Inr (), True)"
    using handle_client_orders [of "[?ask, ?bid 0]" of_nat] by simp
  obtain g where g: "gw_reachable (g_ring_capacity ?config) ?cmds g" "q_mode g = Stopped" "s_received (q_spsc g) = ?cmds"
    using gw_stops [OF ring, of ?cmds] by auto
  have "\<exists>st' A. run sample_codecs ?config ?disk good_io ?net of_nat Eof ?bytes ?obs = Some (Inr (), st') \<and>
      starts_from sample_codecs ?config ?disk good_io A \<and>
      represents (e_book (m_engine (l_matcher st'))) (a_run (unat (g_arena_capacity ?config)) A ?cmds) \<and>
      subscribe subscriber_new (map Some (m_sent (l_matcher st'))) =
        map Printed (numbered 0 (run_fills (unat (g_arena_capacity ?config)) A ?cmds))"
    by (rule run_end_to_end [OF st _ c g(1,2)]) (simp_all add: g(3))
  then obtain st' where st': "run sample_codecs ?config ?disk good_io ?net of_nat Eof ?bytes ?obs = Some (Inr (), st')"
    "subscribe subscriber_new (map Some (m_sent (l_matcher st'))) = map Printed (numbered 0 (run_fills 1024 (\<lambda>_. []) ?cmds))"
    by (auto simp: starts_from_def gateway_config_default_def simp del: run_fills.simps)
  have "numbered 0 (run_fills 1024 (\<lambda>_. []) ?cmds) = [\<lparr>x_seq_num = 1, x_taker_order_id = 2,
      x_maker_order_id = 1, x_price = I64 100, x_quantity = 50, x_timestamp = 1\<rparr>]"
    unfolding crossing_fills by (simp add: report_of_def)
  with st' show ?thesis by auto
qed

end
